(* ===== verification/Prelude.thy ===== *)
theory Prelude
  imports Main "HOL-Library.Word" "HOL-Library.Monad_Syntax" "HOL-Library.Multiset" "HOL-Library.Sublist"
begin

text \<open>
  Shared ground of the development: the fact collections the component theories add to,
  Rust's checked 64-bit arithmetic, the bit identities that turn masks and shifts into
  \<open>mod\<close> and \<open>div\<close>, and the few list, array and multiset lemmas more than one component uses.

  Conventions. A Rust panic, failed assertion or out-of-bounds index is the value \<open>None\<close> of an
  \<open>option\<close> result. \<open>u64\<close> values are \<open>64 word\<close>; \<open>usize\<close> counters that only count objects in
  memory are \<open>nat\<close>, and a decrement of such a counter is guarded, so that an underflow is a
  visible \<open>None\<close>. The flag \<open>chk\<close> is the build profile: with overflow checks (debug builds) an
  overflowing \<open>+\<close> or \<open>-\<close> panics, without them (release builds) it wraps.
\<close>

unbundle bit_operations_syntax

named_theorems wake_simps \<open>how a wake attempt changes a cell or a store of cells\<close>
named_theorems inv_intros \<open>preservation of the component invariants by single operations\<close>

type_synonym u64 = "64 word"

section \<open>Checked arithmetic\<close>

definition add_u64 :: "bool \<Rightarrow> u64 \<Rightarrow> u64 \<Rightarrow> u64 option" where
  "add_u64 chk a b = (if chk \<and> 2 ^ 64 \<le> unat a + unat b then None else Some (a + b))"

definition sub_u64 :: "bool \<Rightarrow> u64 \<Rightarrow> u64 \<Rightarrow> u64 option" where
  "sub_u64 chk a b = (if chk \<and> unat a < unat b then None else Some (a - b))"

definition dec_usize :: "nat \<Rightarrow> nat option" where
  "dec_usize n = (if n = 0 then None else Some (n - 1))"

lemma unat_u64_lt: "unat (x :: u64) < 2 ^ 64"
  by (rule order_less_le_trans [OF unsigned_less]) simp

lemma unat_u64_Suc: "unat (x :: u64) < unat (y :: u64) \<Longrightarrow> unat (x + 1) = Suc (unat x)"
  using unat_u64_lt [of y] by (simp add: unat_word_ariths)

lemma dec_usize_Suc [simp]: "dec_usize (Suc n) = Some n"
  by (simp add: dec_usize_def)

lemma dec_usize_Some [simp]: "dec_usize n = Some m \<longleftrightarrow> n = Suc m"
  by (cases n) (auto simp: dec_usize_def)

lemma dec_usize_pos: "0 < n \<Longrightarrow> dec_usize n = Some (n - 1)"
  by (simp add: dec_usize_def)

lemma add_u64_no_overflow:
  "unat a + unat b < 2 ^ 64 \<Longrightarrow> add_u64 chk a b = Some (a + b) \<and> unat (a + b) = unat a + unat b"
  by (simp add: add_u64_def unat_word_ariths)

lemma sub_u64_no_underflow:
  "unat b \<le> unat a \<Longrightarrow> sub_u64 chk a b = Some (a - b) \<and> unat (a - b) = unat a - unat b"
  by (simp add: sub_u64_def unat_sub word_le_nat_alt)

section \<open>Masks and shifts as modulus and quotient\<close>

lemma unat_and_mask: "unat (x AND mask n :: u64) = unat x mod 2 ^ n"
  by (simp add: take_bit_eq_mask [symmetric] unsigned_take_bit_eq) (simp add: take_bit_eq_mod)

lemma unat_drop: "unat (drop_bit n x :: u64) = unat x div 2 ^ n"
  unfolding unat_drop_bit_eq by (simp add: drop_bit_eq_div)

lemma drop_mask: "drop_bit n (mask n :: u64) = 0"
  by (rule bit_word_eqI) (auto simp: bit_simps)

lemma or_mask_split: "x OR mask n = (push_bit n (drop_bit n x) OR mask n :: u64)"
  by (rule bit_word_eqI) (auto simp: bit_simps)

lemma or_mask_eq_iff:
  "x OR mask n = y OR mask n \<longleftrightarrow> unat x div 2 ^ n = unat (y :: u64) div 2 ^ n"
proof -
  have "x OR mask n = y OR mask n \<longleftrightarrow> drop_bit n x = drop_bit n y"
  proof
    assume "x OR mask n = y OR mask n"
    then have "drop_bit n (x OR mask n) = drop_bit n (y OR mask n)" by simp
    then show "drop_bit n x = drop_bit n y" by (simp add: drop_mask)
  next
    assume "drop_bit n x = drop_bit n y"
    then show "x OR mask n = y OR mask n" by (metis or_mask_split)
  qed
  also have "\<dots> \<longleftrightarrow> unat (drop_bit n x) = unat (drop_bit n y)"
    by (simp add: word_unat_eq_iff)
  finally show ?thesis by (simp add: unat_drop)
qed

section \<open>Arrays of lists\<close>

text \<open>An array of lists is a function; its contents, over a finite index range, a multiset.\<close>

lemma sum_mset_update:
  fixes f :: "nat \<Rightarrow> 'a list"
  assumes "i < n"
  shows "(\<Sum>j<n. mset ((f(i := xs)) j)) + mset (f i) = (\<Sum>j<n. mset (f j)) + mset xs"
proof -
  have fin: "finite {..<n}" "i \<in> {..<n}" using assms by auto
  have eq: "(\<Sum>j\<in>{..<n} - {i}. mset ((f(i := xs)) j)) = (\<Sum>j\<in>{..<n} - {i}. mset (f j))"
    by (rule sum.cong) auto
  have "(\<Sum>j<n. mset ((f(i := xs)) j)) = mset xs + (\<Sum>j\<in>{..<n} - {i}. mset (f j))"
    using sum.remove [OF fin, of "\<lambda>j. mset ((f(i := xs)) j)"] eq by simp
  moreover have "(\<Sum>j<n. mset (f j)) = mset (f i) + (\<Sum>j\<in>{..<n} - {i}. mset (f j))"
    using sum.remove [OF fin, of "\<lambda>j. mset (f j)"] by simp
  ultimately show ?thesis by (simp add: ac_simps)
qed

lemma sum_mset_clear:
  fixes f :: "nat \<Rightarrow> 'a list"
  assumes "i < n"
  shows "(\<Sum>j<n. mset (f j)) = (\<Sum>j<n. mset ((f(i := [])) j)) + mset (f i)"
  using sum_mset_update [OF assms, of f "[]"] by simp

lemma sum_mset_snoc:
  fixes f :: "nat \<Rightarrow> 'a list"
  assumes "i < n"
  shows "(\<Sum>j<n. mset ((f(i := f i @ [x])) j)) = add_mset x (\<Sum>j<n. mset (f j))"
  using sum_mset_update [OF assms, of f "f i @ [x]"] by simp

section \<open>Queues searched by predicate\<close>

text \<open>
  \<open>iter().position(p)\<close> followed by \<open>remove(position)\<close> on a \<open>VecDeque\<close>: \<open>remove\<close> returns the
  element, or \<open>None\<close> and no change when the index is out of range.
\<close>

fun position :: "('a \<Rightarrow> bool) \<Rightarrow> 'a list \<Rightarrow> nat option" where
  "position p [] = None"
| "position p (x # xs) = (if p x then Some 0 else map_option Suc (position p xs))"

definition remove_at :: "nat \<Rightarrow> 'a list \<Rightarrow> 'a list" where
  "remove_at i xs = take i xs @ drop (Suc i) xs"

lemma position_SomeD: "position p xs = Some i \<Longrightarrow> i < length xs \<and> p (xs ! i)"
  by (induction xs arbitrary: i) (auto split: if_splits)

lemma position_None: "position p xs = None \<longleftrightarrow> (\<forall>x\<in>set xs. \<not> p x)"
  by (induction xs) auto

lemma set_remove_at: "set (remove_at i xs) \<subseteq> set xs"
  by (auto simp: remove_at_def dest: in_set_takeD in_set_dropD)

lemma remove_at_ge [simp]: "length xs \<le> i \<Longrightarrow> remove_at i xs = xs"
  by (simp add: remove_at_def)

lemma remove_at_Cons [simp]:
  "remove_at 0 (x # xs) = xs" "remove_at (Suc i) (x # xs) = x # remove_at i xs"
  by (simp_all add: remove_at_def)

lemma filter_remove_position:
  "position p xs = Some i \<Longrightarrow> \<forall>x\<in>set xs. \<not> p x \<longrightarrow> x \<in> set (remove_at i xs)"
  by (induction xs arbitrary: i) (auto split: if_splits)

section \<open>Sublists\<close>

lemma subseq_distinct: "subseq xs ys \<Longrightarrow> distinct ys \<Longrightarrow> distinct xs"
  by (auto simp: subseq_conv_nths intro: distinct_nthsI)

lemma subseq_set: "subseq xs ys \<Longrightarrow> set xs \<subseteq> set ys"
  by (auto simp: subseq_conv_nths dest: in_set_nthsD)

lemma subseq_drop_mid: "subseq (xs @ zs) (xs @ ys @ zs)"
  by (simp add: subseq_append' list_emb_append2)

lemma subseq_drop_one: "subseq (xs @ zs) (xs @ y # zs)"
  using subseq_drop_mid [of xs zs "[y]"] by simp

lemma subseq_remove_at: "subseq (remove_at i xs) xs"
proof (induction xs arbitrary: i)
  case (Cons x xs)
  then show ?case by (cases i) auto
qed (simp add: remove_at_def)

lemma concat_map_single:
  assumes "\<forall>y\<in>set pre. f y = []" and "\<forall>y\<in>set suf. f y = []"
  shows "concat (map f (pre @ x # suf)) = f x"
  using assms by (induction pre) auto

lemma concat_map_none: "\<forall>y\<in>set xs. f y = [] \<Longrightarrow> concat (map f xs) = []"
  by simp

section \<open>Runs\<close>

text \<open>Steps one after the other, as long as they can be taken.\<close>

fun run_steps :: "('x \<Rightarrow> 's \<Rightarrow> 's option) \<Rightarrow> 'x list \<Rightarrow> 's \<Rightarrow> 's option" where
  "run_steps step [] s = Some s"
| "run_steps step (x # xs) s = (case step x s of None \<Rightarrow> None | Some s' \<Rightarrow> run_steps step xs s')"

lemma run_steps_inv:
  assumes "\<And>x s s'. I s \<Longrightarrow> step x s = Some s' \<Longrightarrow> I s'"
  shows "run_steps step xs s = Some s' \<Longrightarrow> I s \<Longrightarrow> I s'"
  by (induction xs arbitrary: s) (auto split: option.splits intro: assms)

end
