(* ===== verification/Errors.thy ===== *)
theory Errors
  imports Prelude
begin

text \<open>
  \<open>src/src/error.rs\<close> (a caught panic and the \<open>JoinError\<close> that carries it) and
  \<open>src/src/channel/error.rs\<close> (the error results of the channels).
\<close>

section \<open>Caught panics\<close>

text \<open>
  A panic payload is \<open>Box<dyn Any>\<close>. The code asks only whether it is a \<open>&str\<close> or a \<open>String\<close>;
  every other payload is known by its type id.
\<close>

datatype payload = PStr string | PString string | POther nat

datatype panic_error = Static string | Unwind payload

fun into_boxed :: "panic_error \<Rightarrow> payload" where
  "into_boxed (Unwind boxed) = boxed"
| "into_boxed (Static s) = PStr s"

fun as_str :: "panic_error \<Rightarrow> nat + string" where
  "as_str (Static s) = Inr s"
| "as_str (Unwind (PStr s)) = Inr s"
| "as_str (Unwind (PString s)) = Inr s"
| "as_str (Unwind (POther tid)) = Inl tid"

text \<open>\<open>PanicError::resume\<close> unwinds again; what unwinds is a payload.\<close>

fun panic_resume :: "panic_error \<Rightarrow> payload" where
  "panic_resume (Static s) = PStr s"
| "panic_resume (Unwind boxed) = boxed"

definition join_error_display :: "panic_error \<Rightarrow> string" where
  "join_error_display e = ''panic('' @ (case as_str e of Inr s \<Rightarrow> s | Inl _ \<Rightarrow> ''..'') @ '')''"

text \<open>The \<open>Debug\<close> rendering of a type id is the standard library's: a parameter.\<close>

definition join_error_debug :: "(nat \<Rightarrow> string) \<Rightarrow> panic_error \<Rightarrow> string" where
  "join_error_debug show_type e =
    ''JoinError::Panic('' @ (case as_str e of Inr s \<Rightarrow> s | Inl tid \<Rightarrow> show_type tid) @ '')''"

lemma resume_is_boxed: "panic_resume e = into_boxed e"
  by (cases e) simp_all

lemma as_str_reboxed: "as_str (Unwind (into_boxed e)) = as_str e"
  by (cases e) simp_all

section \<open>Channel errors\<close>

datatype 'a send_error = SendClosed 'a

datatype 'a try_send_error = Full 'a | TryClosed 'a

datatype try_recv_error = RecvEmpty | RecvClosed

fun send_to_try :: "'a send_error \<Rightarrow> 'a try_send_error" where
  "send_to_try (SendClosed v) = TryClosed v"

text \<open>The converse conversion panics on \<open>Full\<close>.\<close>

fun try_to_send :: "'a try_send_error \<Rightarrow> 'a send_error option" where
  "try_to_send (TryClosed v) = Some (SendClosed v)"
| "try_to_send (Full v) = None"

end
