(* ===== verification/Wakers.thy ===== *)
theory Wakers
  imports Prelude
begin

text \<open>
  The contract every wake-up primitive of the crate offers its users: a cell that is pending
  until the first wake, takes that wake's message and refuses every later one. \<open>SessionWaker\<close>
  (tasks), \<open>Unparker\<close> (threads) and \<open>Resumption\<close> (coroutines) are the three providers; the
  channels and \<open>select\<close> are the clients. Providers interpret the locale \<open>one_shot\<close> with an
  abstraction onto \<open>cell\<close>, so a client can be modelled over a store of cells.
\<close>

datatype 'v cell = Pending | Woken 'v | Dead

fun cell_wake :: "'v \<Rightarrow> 'v cell \<Rightarrow> bool \<times> 'v cell" where
  "cell_wake v Pending = (True, Woken v)"
| "cell_wake v (Woken w) = (False, Woken w)"
| "cell_wake v Dead = (False, Dead)"

fun wake_seq :: "('v \<Rightarrow> 's \<Rightarrow> bool \<times> 's) \<Rightarrow> 'v list \<Rightarrow> 's \<Rightarrow> bool list \<times> 's" where
  "wake_seq w [] s = ([], s)"
| "wake_seq w (v # vs) s = (let (b, s') = w v s; (bs, s'') = wake_seq w vs s' in (b # bs, s''))"

lemma cell_wake_iff: "fst (cell_wake v c) \<longleftrightarrow> c = Pending"
  by (cases c) auto

lemma cell_wake_not_pending [wake_simps]: "c \<noteq> Pending \<Longrightarrow> cell_wake v c = (False, c)"
  by (cases c) auto

locale one_shot =
  fixes wake :: "'v \<Rightarrow> 's \<Rightarrow> bool \<times> 's"
    and view :: "'s \<Rightarrow> 'v cell"
    and invar :: "'s \<Rightarrow> bool"
  assumes view_wake: "invar s \<Longrightarrow> (fst (wake v s), view (snd (wake v s))) = cell_wake v (view s)"
    and invar_wake: "invar s \<Longrightarrow> invar (snd (wake v s))"
begin

lemma wake_pending: "invar s \<Longrightarrow> view s = Pending \<Longrightarrow> fst (wake v s) \<and> view (snd (wake v s)) = Woken v"
  using view_wake [of s v] by simp

lemma wake_refused: "invar s \<Longrightarrow> view s \<noteq> Pending \<Longrightarrow> \<not> fst (wake v s) \<and> view (snd (wake v s)) = view s"
  using view_wake [of s v] by (simp add: wake_simps)

lemma wake_seq_refused:
  "invar s \<Longrightarrow> view s \<noteq> Pending \<Longrightarrow>
    fst (wake_seq wake vs s) = replicate (length vs) False \<and> view (snd (wake_seq wake vs s)) = view s"
proof (induction vs arbitrary: s)
  case (Cons v vs)
  then have "invar (snd (wake v s))" "view (snd (wake v s)) \<noteq> Pending"
    using wake_refused [of s v] by (auto intro: invar_wake)
  with Cons show ?case
    using wake_refused [of s v] by (auto simp: case_prod_beta Let_def)
qed simp

text \<open>However many wakers contend, in whatever order, the first one wins and only the first.\<close>

lemma first_wake_wins:
  assumes "invar s" and "view s = Pending"
  shows "fst (wake_seq wake (v # vs) s) = True # replicate (length vs) False"
    and "view (snd (wake_seq wake (v # vs) s)) = Woken v"
proof -
  have w: "fst (wake v s)" "view (snd (wake v s)) = Woken v" "invar (snd (wake v s))"
    using wake_pending [OF assms, of v] invar_wake [OF assms(1)] by auto
  then have "fst (wake_seq wake vs (snd (wake v s))) = replicate (length vs) False"
    "view (snd (wake_seq wake vs (snd (wake v s)))) = Woken v"
    using wake_seq_refused [of "snd (wake v s)" vs] by auto
  with w show "fst (wake_seq wake (v # vs) s) = True # replicate (length vs) False"
    and "view (snd (wake_seq wake (v # vs) s)) = Woken v"
    by (simp_all add: case_prod_beta Let_def)
qed

end

interpretation plain_cell: one_shot cell_wake "\<lambda>c. c" "\<lambda>_. True"
  by unfold_locales auto

section \<open>Stores of cells\<close>

text \<open>A store gives each waker, known by a number, its cell.\<close>

type_synonym 'm cells = "nat \<Rightarrow> 'm cell"

definition store_wake :: "nat \<Rightarrow> 'm \<Rightarrow> 'm cells \<Rightarrow> bool \<times> 'm cells" where
  "store_wake i m st = (let (b, c) = cell_wake m (st i) in (b, st(i := c)))"

lemma store_wake_pending [wake_simps]:
  "st i = Pending \<Longrightarrow> store_wake i m st = (True, st(i := Woken m))"
  by (simp add: store_wake_def)

lemma store_wake_refused [wake_simps]:
  "st i \<noteq> Pending \<Longrightarrow> store_wake i m st = (False, st)"
  by (simp add: store_wake_def wake_simps)

end
