(* ===== verification/Session.thy ===== *)
theory Session
  imports Errors Wakers
begin

text \<open>
  \<open>src/src/task/session.rs\<close>: the one-shot rendezvous between a waiting task or thread and its
  wakers. \<open>SessionJoint\<close> is lock-free: an atomic status word whose least bit says that the cell
  beside it has been released, and a cell that holds the joiner or the value. This theory has
  the status encoding, the steps of the two sides (\<open>set_value\<close>; \<open>join_value\<close> and \<open>drop_value\<close>) at
  the grain of single atomic accesses, and their interleavings. The steps are sequentially
  consistent: the memory orderings the code chooses are not modelled.
\<close>

section \<open>The status word\<close>

datatype status = Empty | Value | Joining | Joined

fun status_bits :: "status \<Rightarrow> nat" where
  "status_bits Empty = 0"
| "status_bits Value = 2"
| "status_bits Joining = 4"
| "status_bits Joined = 6"

definition into_release :: "status \<Rightarrow> nat" where
  "into_release st = status_bits st OR 1"

text \<open>\<open>from_bits\<close> drops the release bit; the bit patterns in use are those of the enum.\<close>

definition from_bits :: "nat \<Rightarrow> status" where
  "from_bits bits =
    (let b = 2 * (bits div 2) in
     if b = 0 then Empty else if b = 2 then Value else if b = 4 then Joining else Joined)"

lemma into_release_simps [simp]:
  "into_release Empty = 1" "into_release Value = 3" "into_release Joining = 5" "into_release Joined = 7"
  by (simp_all add: into_release_def)

lemma from_bits_simps [simp]:
  "from_bits 0 = Empty" "from_bits (Suc 0) = Empty" "from_bits 2 = Value" "from_bits 3 = Value"
  "from_bits 4 = Joining" "from_bits 5 = Joining" "from_bits 6 = Joined" "from_bits 7 = Joined"
  by (simp_all add: from_bits_def)

lemma status_roundtrip:
  "from_bits (status_bits st) = st" "from_bits (into_release st) = st"
  by (cases st; simp)+

section \<open>Values, joiners and the shared cell\<close>

datatype 'v session_value = SValue 'v | SPanic panic_error

text \<open>A joiner is a task (with its scheduler and coroutine, here numbers) or a thread.\<close>

record session_task =
  scheduler :: nat
  task :: nat
  coroutine :: nat

datatype joiner = JTask session_task | JThread nat

text \<open>
  The union \<open>SessionState\<close>: what was last written to it, or nothing readable. Reading it as the
  other variant, or twice, is undefined behaviour.
\<close>

datatype 'v slot = Unset | SlotJoiner joiner | SlotValue "'v session_value"

record 'v shared =
  bits :: nat
  slot :: "'v slot"
  unparked :: "nat set"      \<comment> \<open>threads given an unpark token\<close>

definition joint_new :: "'v shared" where
  "joint_new = \<lparr>bits = 0, slot = Unset, unparked = {}\<rparr>"

definition is_ready :: "'v shared \<Rightarrow> bool" where
  "is_ready sh \<longleftrightarrow> from_bits (bits sh) \<in> {Value, Joined}"

section \<open>The setting side\<close>

text \<open>Where a caller of \<open>set_value\<close> is. \<open>SUndef\<close> is an undefined read of the cell.\<close>

datatype 'v spc =
    SLoad "'v session_value"         \<comment> \<open>about to load the status\<close>
  | SCasEmpty "'v session_value"     \<comment> \<open>about to exchange 0 for \<open>Value\<close>\<close>
  | SWrite "'v session_value"        \<comment> \<open>claimed an empty session\<close>
  | SRelease
  | SCasJoining "'v session_value"   \<comment> \<open>in the loop that exchanges released \<open>Joining\<close> for \<open>Value\<close>\<close>
  | STake "'v session_value"         \<comment> \<open>claimed a joining session\<close>
  | SUnpark joiner
  | SReleaseJoiner joiner
  | SOk "session_task option"
  | SErr "'v session_value"
  | SUndef

text \<open>Each step is one atomic access; the list has every outcome (a weak exchange may fail).\<close>

fun setter_step :: "'v shared \<Rightarrow> 'v spc \<Rightarrow> ('v shared \<times> 'v spc) list" where
  "setter_step sh (SLoad v) =
    [(sh, case from_bits (bits sh) of Empty \<Rightarrow> SCasEmpty v | Joining \<Rightarrow> SCasJoining v | _ \<Rightarrow> SErr v)]"
| "setter_step sh (SCasEmpty v) =
    (if bits sh = 0 then [(sh\<lparr>bits := status_bits Value\<rparr>, SWrite v)]
     else [(sh, if from_bits (bits sh) = Joining then SCasJoining v else SErr v)])"
| "setter_step sh (SWrite v) = [(sh\<lparr>slot := SlotValue v\<rparr>, SRelease)]"
| "setter_step sh SRelease = [(sh\<lparr>bits := into_release Value\<rparr>, SOk None)]"
| "setter_step sh (SCasJoining v) =
    (if bits sh = into_release Joining then
       [(sh\<lparr>bits := status_bits Value\<rparr>, STake v), (sh, SCasJoining v)]
     else [(sh, if from_bits (bits sh) \<noteq> Joining then SErr v else SCasJoining v)])"
| "setter_step sh (STake v) =
    (case slot sh of
       SlotJoiner j \<Rightarrow> [(sh\<lparr>slot := SlotValue v\<rparr>, SUnpark j)]
     | _ \<Rightarrow> [(sh, SUndef)])"
| "setter_step sh (SUnpark j) =
    (case j of JTask t \<Rightarrow> [(sh, SReleaseJoiner j)]
     | JThread th \<Rightarrow> [(sh\<lparr>unparked := insert th (unparked sh)\<rparr>, SReleaseJoiner j)])"
| "setter_step sh (SReleaseJoiner j) =
    [(sh\<lparr>bits := into_release Value\<rparr>, SOk (case j of JTask t \<Rightarrow> Some t | JThread th \<Rightarrow> None))]"
| "setter_step sh (SOk t) = []"
| "setter_step sh (SErr v) = []"
| "setter_step sh SUndef = []"

section \<open>The owning side: join and drop\<close>

text \<open>
  Where the owner of the session is: \<open>J\<close> positions are in \<open>join_value\<close>, \<open>D\<close> positions in
  \<open>drop_value\<close>. \<open>JUnreachable\<close> is the \<open>unreachable!\<close> at the end of \<open>join_value\<close>.
\<close>

datatype 'v opc =
    JLoad joiner
  | JCasEmpty joiner
  | JWrite joiner
  | JRelease joiner
  | JWait joiner                     \<comment> \<open>blocked or parked; woken, possibly spuriously\<close>
  | JCasValue
  | JTake
  | JDone "'v session_value"
  | JUnreachable
  | DLoad
  | DCasEmpty
  | DCasValue
  | DTake
  | DDone
  | OUndef

text \<open>What \<open>join_value\<close> does once it has a status: wait while joining, claim a value.\<close>

fun join_dispatch :: "joiner \<Rightarrow> status \<Rightarrow> 'v opc" where
  "join_dispatch j Joining = JWait j"
| "join_dispatch j Value = JCasValue"
| "join_dispatch j _ = JUnreachable"

fun drop_dispatch :: "status \<Rightarrow> 'v opc" where
  "drop_dispatch Value = DCasValue"
| "drop_dispatch _ = DDone"

fun owner_step :: "'v shared \<Rightarrow> 'v opc \<Rightarrow> ('v shared \<times> 'v opc) list" where
  "owner_step sh (JLoad j) =
    [(sh, if from_bits (bits sh) = Empty then JCasEmpty j else join_dispatch j (from_bits (bits sh)))]"
| "owner_step sh (JCasEmpty j) =
    (if bits sh = 0 then [(sh\<lparr>bits := status_bits Joining\<rparr>, JWrite j)]
     else [(sh, join_dispatch j (from_bits (bits sh)))])"
| "owner_step sh (JWrite j) = [(sh\<lparr>slot := SlotJoiner j\<rparr>, JRelease j)]"
| "owner_step sh (JRelease j) = [(sh\<lparr>bits := into_release Joining\<rparr>, JWait j)]"
| "owner_step sh (JWait j) = [(sh, join_dispatch j (from_bits (bits sh)))]"
| "owner_step sh JCasValue =
    (if bits sh = into_release Value then
       [(sh\<lparr>bits := into_release Joined\<rparr>, JTake), (sh, JCasValue)]
     else [(sh, if from_bits (bits sh) \<noteq> Value then JUnreachable else JCasValue)])"
| "owner_step sh JTake =
    (case slot sh of SlotValue v \<Rightarrow> [(sh\<lparr>slot := Unset\<rparr>, JDone v)] | _ \<Rightarrow> [(sh, OUndef)])"
| "owner_step sh DLoad =
    [(sh, if from_bits (bits sh) = Empty then DCasEmpty else drop_dispatch (from_bits (bits sh)))]"
| "owner_step sh DCasEmpty =
    (if bits sh = 0 then [(sh\<lparr>bits := into_release Joined\<rparr>, DDone)]
     else [(sh, drop_dispatch (from_bits (bits sh)))])"
| "owner_step sh DCasValue =
    (if bits sh = into_release Value then
       [(sh\<lparr>bits := into_release Joined\<rparr>, DTake), (sh, DCasValue)]
     else [(sh, drop_dispatch (from_bits (bits sh)))])"
| "owner_step sh DTake =
    (case slot sh of SlotValue v \<Rightarrow> [(sh\<lparr>slot := Unset\<rparr>, DCasValue)] | _ \<Rightarrow> [(sh, OUndef)])"
| "owner_step sh (JDone v) = []"
| "owner_step sh JUnreachable = []"
| "owner_step sh DDone = []"
| "owner_step sh OUndef = []"

section \<open>Interleavings\<close>

text \<open>Any number of setters, numbered, and the owner, over the shared joint.\<close>

record 'v sys =
  joint :: "'v shared"
  owner :: "'v opc"
  setters :: "nat \<Rightarrow> 'v spc"

definition sys_init :: "'v opc \<Rightarrow> (nat \<Rightarrow> 'v session_value) \<Rightarrow> 'v sys" where
  "sys_init ow vals = \<lparr>joint = joint_new, owner = ow, setters = (\<lambda>i. SLoad (vals i))\<rparr>"

inductive sys_step :: "'v sys \<Rightarrow> 'v sys \<Rightarrow> bool" where
  setter: "(sh, pc) \<in> set (setter_step (joint s) (setters s i)) \<Longrightarrow>
    sys_step s (s\<lparr>joint := sh, setters := (setters s)(i := pc)\<rparr>)"
| owner: "(sh, pc) \<in> set (owner_step (joint s) (owner s)) \<Longrightarrow>
    sys_step s (s\<lparr>joint := sh, owner := pc\<rparr>)"

inductive sys_reach :: "'v opc \<Rightarrow> (nat \<Rightarrow> 'v session_value) \<Rightarrow> 'v sys \<Rightarrow> bool"
  for ow :: "'v opc" and vals :: "nat \<Rightarrow> 'v session_value" where
  init: "sys_reach ow vals (sys_init ow vals)"
| step: "sys_reach ow vals s \<Longrightarrow> sys_step s s' \<Longrightarrow> sys_reach ow vals s'"

inductive_cases sys_stepE: "sys_step s s'"


section \<open>Handles\<close>

text \<open>
  A call of \<open>set_value\<close> that runs alone: its steps in order, the exchanges succeeding when they
  can. Five steps are the longest path through it.
\<close>

fun run_setter :: "nat \<Rightarrow> 'v shared \<Rightarrow> 'v spc \<Rightarrow> 'v shared \<times> 'v spc" where
  "run_setter 0 sh pc = (sh, pc)"
| "run_setter (Suc n) sh pc =
    (case setter_step sh pc of [] \<Rightarrow> (sh, pc) | x # _ \<Rightarrow> run_setter n (fst x) (snd x))"

fun set_ok :: "'v spc \<Rightarrow> bool" where
  "set_ok (SOk t) = True"
| "set_ok _ = False"

definition set_value :: "'v session_value \<Rightarrow> 'v shared \<Rightarrow> bool \<times> 'v shared" where
  "set_value v sh = (let (sh', pc) = run_setter 5 sh (SLoad v) in (set_ok pc, sh'))"

text \<open>
  The handles of a session: \<open>wakers\<close> counts the \<open>SessionWaker\<close>s. Waking consumes a handle
  without running its \<open>Drop\<close>, so the count is not decremented.
\<close>

record 'v session =
  sess_joint :: "'v shared"
  wakers :: nat

definition session_new :: "'v session" where
  "session_new = \<lparr>sess_joint = joint_new, wakers = 1\<rparr>"

definition add_waker :: "'v session \<Rightarrow> 'v session" where
  "add_waker s = s\<lparr>wakers := wakers s + 1\<rparr>"

definition session_wake :: "'v \<Rightarrow> 'v session \<Rightarrow> bool \<times> 'v session" where
  "session_wake v s = (let (b, j) = set_value (SValue v) (sess_joint s) in (b, s\<lparr>sess_joint := j\<rparr>))"

definition fault :: "panic_error \<Rightarrow> 'v session \<Rightarrow> 'v session" where
  "fault e s = s\<lparr>sess_joint := snd (set_value (SPanic e) (sess_joint s))\<rparr>"

definition remove_waker :: "'v session \<Rightarrow> 'v session" where
  "remove_waker s =
    (let s' = s\<lparr>wakers := wakers s - 1\<rparr> in
     if wakers s = 1 then fault (Static ''session: no wakeup'') s' else s')"

definition set_result :: "payload + 'v \<Rightarrow> 'v session \<Rightarrow> 'v session" where
  "set_result r s = (case r of Inr v \<Rightarrow> snd (session_wake v s) | Inl p \<Rightarrow> fault (Unwind p) s)"

end
