(* ===== verification/Session_Protocol.thy ===== *)
theory Session_Protocol
  imports Session
begin

text \<open>
  Correctness of the lock-free session over all interleavings: at most one setter wins, the cell
  is never read as the wrong variant nor accessed by two sides at once, the \<open>unreachable!\<close> of
  \<open>join_value\<close> is unreachable, and what the owner obtains is what the one winner set.
\<close>

section \<open>The invariant\<close>

fun winner :: "'v spc \<Rightarrow> bool" where
  "winner (SWrite v) = True"
| "winner SRelease = True"
| "winner (STake v) = True"
| "winner (SUnpark j) = True"
| "winner (SReleaseJoiner j) = True"
| "winner (SOk t) = True"
| "winner _ = False"

text \<open>What holds of the joint while a setter of value \<open>v\<close> is at a position.\<close>

fun setter_ok :: "'v shared \<Rightarrow> 'v session_value \<Rightarrow> 'v spc \<Rightarrow> bool" where
  "setter_ok sh v (SLoad w) \<longleftrightarrow> w = v"
| "setter_ok sh v (SCasEmpty w) \<longleftrightarrow> w = v"
| "setter_ok sh v (SWrite w) \<longleftrightarrow> w = v \<and> bits sh = 2"
| "setter_ok sh v SRelease \<longleftrightarrow> bits sh = 2 \<and> slot sh = SlotValue v"
| "setter_ok sh v (SCasJoining w) \<longleftrightarrow> w = v \<and> bits sh \<noteq> 0"
| "setter_ok sh v (STake w) \<longleftrightarrow> w = v \<and> bits sh = 2 \<and> (\<exists>j. slot sh = SlotJoiner j)"
| "setter_ok sh v (SUnpark j) \<longleftrightarrow> bits sh = 2 \<and> slot sh = SlotValue v"
| "setter_ok sh v (SReleaseJoiner j) \<longleftrightarrow> bits sh = 2 \<and> slot sh = SlotValue v"
| "setter_ok sh v (SOk t) \<longleftrightarrow> bits sh = 3 \<and> slot sh = SlotValue v \<or> bits sh = 7"
| "setter_ok sh v (SErr w) \<longleftrightarrow> w = v \<and> bits sh \<in> {2, 3, 7}"
| "setter_ok sh v SUndef \<longleftrightarrow> False"

fun owner_ok :: "'v shared \<Rightarrow> 'v opc \<Rightarrow> bool" where
  "owner_ok sh (JLoad j) \<longleftrightarrow> bits sh \<in> {0, 2, 3}"
| "owner_ok sh (JCasEmpty j) \<longleftrightarrow> bits sh \<in> {0, 2, 3}"
| "owner_ok sh (JWrite j) \<longleftrightarrow> bits sh = 4"
| "owner_ok sh (JRelease j) \<longleftrightarrow> bits sh = 4 \<and> slot sh = SlotJoiner j"
| "owner_ok sh (JWait j) \<longleftrightarrow> bits sh = 5 \<and> slot sh = SlotJoiner j \<or> bits sh \<in> {2, 3}"
| "owner_ok sh JCasValue \<longleftrightarrow> bits sh \<in> {2, 3}"
| "owner_ok sh JTake \<longleftrightarrow> bits sh = 7"
| "owner_ok sh (JDone v) \<longleftrightarrow> bits sh = 7"
| "owner_ok sh JUnreachable \<longleftrightarrow> False"
| "owner_ok sh DLoad \<longleftrightarrow> bits sh \<in> {0, 2, 3}"
| "owner_ok sh DCasEmpty \<longleftrightarrow> bits sh \<in> {0, 2, 3}"
| "owner_ok sh DCasValue \<longleftrightarrow> bits sh \<in> {2, 3, 7}"
| "owner_ok sh DTake \<longleftrightarrow> bits sh = 7"
| "owner_ok sh DDone \<longleftrightarrow> bits sh = 7"
| "owner_ok sh OUndef \<longleftrightarrow> False"

definition one_winner :: "'v sys \<Rightarrow> bool" where
  "one_winner s \<longleftrightarrow> (\<forall>i j. winner (setters s i) \<longrightarrow> winner (setters s j) \<longrightarrow> i = j) \<and>
     (bits (joint s) \<in> {0, 4, 5} \<longrightarrow> (\<forall>i. \<not> winner (setters s i))) \<and>
     (bits (joint s) \<in> {2, 3} \<longrightarrow> (\<exists>i. winner (setters s i)))"

lemma one_winnerD:
  assumes "one_winner s"
  shows "winner (setters s i) \<Longrightarrow> winner (setters s j) \<Longrightarrow> i = j"
    and "bits (joint s) \<in> {0, 4, 5} \<Longrightarrow> \<not> winner (setters s i)"
    and "bits (joint s) \<in> {2, 3} \<Longrightarrow> \<exists>i. winner (setters s i)"
  using assms unfolding one_winner_def by blast+

lemma one_winnerI:
  assumes "\<And>i j. winner (setters s i) \<Longrightarrow> winner (setters s j) \<Longrightarrow> i = j"
    and "\<And>i. bits (joint s) \<in> {0, 4, 5} \<Longrightarrow> \<not> winner (setters s i)"
    and "bits (joint s) \<in> {2, 3} \<Longrightarrow> \<exists>i. winner (setters s i)"
  shows "one_winner s"
  using assms unfolding one_winner_def by blast

definition cell_ok :: "(nat \<Rightarrow> 'v session_value) \<Rightarrow> 'v sys \<Rightarrow> bool" where
  "cell_ok vals s \<longleftrightarrow>
     (owner s = JTake \<or> owner s = DTake \<longrightarrow>
        (\<exists>i t. setters s i = SOk t \<and> slot (joint s) = SlotValue (vals i))) \<and>
     (\<forall>v. owner s = JDone v \<longrightarrow> (\<exists>i t. setters s i = SOk t \<and> v = vals i)) \<and>
     (bits (joint s) = 5 \<longrightarrow> (\<exists>j. slot (joint s) = SlotJoiner j)) \<and>
     (bits (joint s) = 3 \<longrightarrow> (\<exists>i t. setters s i = SOk t \<and> slot (joint s) = SlotValue (vals i)))"

lemma cell_okD:
  assumes "cell_ok vals s"
  shows "owner s = JTake \<or> owner s = DTake \<Longrightarrow> \<exists>i t. setters s i = SOk t \<and> slot (joint s) = SlotValue (vals i)"
    and "owner s = JDone v \<Longrightarrow> \<exists>i t. setters s i = SOk t \<and> v = vals i"
    and "bits (joint s) = 5 \<Longrightarrow> \<exists>j. slot (joint s) = SlotJoiner j"
    and "bits (joint s) = 3 \<Longrightarrow> \<exists>i t. setters s i = SOk t \<and> slot (joint s) = SlotValue (vals i)"
  using assms unfolding cell_ok_def by blast+

definition sys_inv :: "(nat \<Rightarrow> 'v session_value) \<Rightarrow> 'v sys \<Rightarrow> bool" where
  "sys_inv vals s \<longleftrightarrow> (\<forall>i. setter_ok (joint s) (vals i) (setters s i)) \<and>
     owner_ok (joint s) (owner s) \<and> one_winner s \<and> cell_ok vals s"

definition owner_start :: "'v opc \<Rightarrow> bool" where
  "owner_start ow \<longleftrightarrow> (\<exists>j. ow = JLoad j) \<or> ow = DLoad"

lemma sys_inv_init: "owner_start ow \<Longrightarrow> sys_inv vals (sys_init ow vals)"
  by (auto simp: owner_start_def sys_inv_def sys_init_def joint_new_def one_winner_def cell_ok_def)

section \<open>Every step keeps it\<close>


lemma setter_step_others:
  assumes st: "(sh, pc) \<in> set (setter_step sh0 p)"
    and p: "setter_ok sh0 v p" and q: "setter_ok sh0 u q"
    and excl: "winner p \<longrightarrow> \<not> winner q" and none: "bits sh0 \<in> {0, 4, 5} \<longrightarrow> \<not> winner q"
  shows "setter_ok sh u q"
  using assms by (cases p; cases q) (auto split: if_splits status.splits slot.splits joiner.splits)

lemma setter_step_self:
  assumes st: "(sh, pc) \<in> set (setter_step sh0 p)" and p: "setter_ok sh0 v p"
    and b: "bits sh0 \<in> {0, 2, 3, 4, 5, 7}"
    and five: "bits sh0 = 5 \<longrightarrow> (\<exists>j. slot sh0 = SlotJoiner j)"
  shows "setter_ok sh v pc"
  using assms by (cases p) (auto split: if_splits status.splits slot.splits joiner.splits)

lemma setter_step_owner:
  assumes st: "(sh, pc) \<in> set (setter_step sh0 p)" and p: "setter_ok sh0 v p"
    and o: "owner_ok sh0 ow"
  shows "owner_ok sh ow"
  using assms by (cases p; cases ow) (auto split: if_splits status.splits slot.splits joiner.splits)

lemma owner_ok_bits: "owner_ok sh ow \<Longrightarrow> bits sh \<in> {0, 2, 3, 4, 5, 7}"
  by (cases ow) auto


lemma setter_effect1:
  assumes st: "(sh, pc) \<in> set (setter_step sh0 p)" and p: "setter_ok sh0 v p"
  shows "winner p \<longrightarrow> winner pc"
  using assms by (cases p) (auto split: if_splits status.splits slot.splits joiner.splits)

lemma setter_effect2:
  assumes st: "(sh, pc) \<in> set (setter_step sh0 p)" and p: "setter_ok sh0 v p"
  shows "winner pc \<longrightarrow> winner p \<or> bits sh0 \<in> {0, 5}"
  using assms by (cases p) (auto split: if_splits status.splits slot.splits joiner.splits)

lemma setter_effect3:
  assumes st: "(sh, pc) \<in> set (setter_step sh0 p)" and p: "setter_ok sh0 v p"
  shows "bits sh \<in> {0, 4, 5} \<longrightarrow> bits sh = bits sh0 \<and> slot sh = slot sh0 \<and> \<not> winner pc"
  using assms by (cases p) (auto split: if_splits status.splits slot.splits joiner.splits)

lemma setter_effect4:
  assumes st: "(sh, pc) \<in> set (setter_step sh0 p)" and p: "setter_ok sh0 v p"
  shows "bits sh = 2 \<longrightarrow> bits sh0 = 2 \<or> winner pc"
  using assms by (cases p) (auto split: if_splits status.splits slot.splits joiner.splits)

lemma setter_effect5:
  assumes st: "(sh, pc) \<in> set (setter_step sh0 p)" and p: "setter_ok sh0 v p"
  shows "bits sh = 3 \<longrightarrow> bits sh0 = 3 \<and> slot sh = slot sh0 \<or> (\<exists>t. pc = SOk t) \<and> slot sh = SlotValue v"
  using assms by (cases p) (auto split: if_splits status.splits slot.splits joiner.splits)

lemma setter_effect6:
  assumes st: "(sh, pc) \<in> set (setter_step sh0 p)" and p: "setter_ok sh0 v p"
  shows "bits sh0 = 7 \<longrightarrow> bits sh = 7 \<and> slot sh = slot sh0"
  using assms by (cases p) (auto split: if_splits status.splits slot.splits joiner.splits)

lemma setter_effect7:
  assumes st: "(sh, pc) \<in> set (setter_step sh0 p)" and p: "setter_ok sh0 v p"
  shows "p \<noteq> SOk t"
  using assms by (cases p) (auto split: if_splits status.splits slot.splits joiner.splits)

lemmas setter_step_effect = setter_effect1 setter_effect2 setter_effect3 setter_effect4 setter_effect5 setter_effect6 setter_effect7

lemma owner_step_setters:
  assumes st: "(sh, pc) \<in> set (owner_step sh0 ow)" and o: "owner_ok sh0 ow"
    and q: "setter_ok sh0 u q" and none: "bits sh0 \<in> {0, 4, 5} \<longrightarrow> \<not> winner q"
  shows "setter_ok sh u q"
  using assms by (cases ow; cases q) (auto split: if_splits status.splits slot.splits)

lemma owner_step_self:
  assumes st: "(sh, pc) \<in> set (owner_step sh0 ow)" and o: "owner_ok sh0 ow"
    and take: "ow = JTake \<or> ow = DTake \<longrightarrow> (\<exists>v. slot sh0 = SlotValue v)"
    and five: "bits sh0 = 5 \<longrightarrow> (\<exists>j. slot sh0 = SlotJoiner j)"
  shows "owner_ok sh pc"
  using assms by (cases ow) (auto split: if_splits status.splits slot.splits)

lemma owner_effect1:
  assumes st: "(sh, pc) \<in> set (owner_step sh0 ow)" and o: "owner_ok sh0 ow"
  shows "bits sh \<in> {0, 4, 5} \<longrightarrow> bits sh0 \<in> {0, 4}\<or> bits sh0 = bits sh"
  using assms by (cases ow) (auto split: if_splits status.splits slot.splits)

lemma owner_effect2:
  assumes st: "(sh, pc) \<in> set (owner_step sh0 ow)" and o: "owner_ok sh0 ow"
  shows "bits sh \<in> {2, 3} \<longrightarrow> bits sh = bits sh0 \<and> slot sh = slot sh0"
  using assms by (cases ow) (auto split: if_splits status.splits slot.splits)

lemma owner_effect3:
  assumes st: "(sh, pc) \<in> set (owner_step sh0 ow)" and o: "owner_ok sh0 ow"
  shows "bits sh = 5 \<longrightarrow> (\<exists>j. slot sh = SlotJoiner j) \<or> bits sh0 = 5 \<and> slot sh = slot sh0"
  using assms by (cases ow) (auto split: if_splits status.splits slot.splits)

lemma owner_effect4:
  assumes st: "(sh, pc) \<in> set (owner_step sh0 ow)" and o: "owner_ok sh0 ow"
  shows "pc = JTake \<or> pc = DTake \<longrightarrow> bits sh0 = 3 \<and> slot sh = slot sh0"
  using assms by (cases ow) (auto split: if_splits status.splits slot.splits)

lemma owner_effect5:
  assumes st: "(sh, pc) \<in> set (owner_step sh0 ow)" and o: "owner_ok sh0 ow"
  shows "pc = JDone w \<longrightarrow> ow = JTake \<and> slot sh0 = SlotValue w"
  using assms by (cases ow) (auto split: if_splits status.splits slot.splits)

lemmas owner_step_effect = owner_effect1 owner_effect2 owner_effect3 owner_effect4 owner_effect5

lemma setter_step_inv:
  assumes inv: "sys_inv vals s" and st: "(sh, pc) \<in> set (setter_step (joint s) (setters s i))"
  shows "sys_inv vals (s\<lparr>joint := sh, setters := (setters s)(i := pc)\<rparr>)"
proof -
  have ok: "setter_ok (joint s) (vals j) (setters s j)" for j using inv by (simp add: sys_inv_def)
  have own: "owner_ok (joint s) (owner s)" and w: "one_winner s" and c: "cell_ok vals s"
    using inv by (simp_all add: sys_inv_def)
  note eff = setter_step_effect [OF st ok]
  have five: "bits (joint s) = 5 \<longrightarrow> (\<exists>j. slot (joint s) = SlotJoiner j)"
    using c by (simp add: cell_ok_def)
  have self: "setter_ok sh (vals i) pc"
    using setter_step_self [OF st ok owner_ok_bits [OF own] five] .
  have "setter_ok sh (vals j) (setters s j)" if "j \<noteq> i" for j
    using setter_step_others [OF st ok ok] one_winnerD(1,2) [OF w] that by blast
  with self have setters: "\<forall>j. setter_ok sh (vals j) (((setters s)(i := pc)) j)" by simp
  have own': "owner_ok sh (owner s)" using setter_step_owner [OF st ok own] .
  have "one_winner (s\<lparr>joint := sh, setters := (setters s)(i := pc)\<rparr>)"
  proof (rule one_winnerI)
    fix k l
    let ?s = "s\<lparr>joint := sh, setters := (setters s)(i := pc)\<rparr>"
    have old: "k = l" if "winner (setters s k)" "winner (setters s l)" for k l
      using one_winnerD(1) [OF w] that by blast
    have new: "winner (setters s i) \<or> (\<forall>l. \<not> winner (setters s l))" if "winner pc"
      using that eff(2) one_winnerD(2) [OF w] by blast
    show "k = l" if "winner (setters ?s k)" "winner (setters ?s l)"
      using that old new by (cases "k = i"; cases "l = i") auto
    show "\<not> winner (setters ?s k)" if "bits (joint ?s) \<in> {0, 4, 5}"
      using that eff(3) one_winnerD(2) [OF w] by auto
    show "\<exists>k. winner (setters ?s k)" if "bits (joint ?s) \<in> {2, 3}"
    proof (cases "winner pc")
      case False
      then have "\<not> winner (setters s i)" using eff(1) by blast
      moreover have "bits (joint s) \<in> {2, 3}" using that False eff(4,5) by auto
      ultimately obtain k where "winner (setters s k)" "k \<noteq> i" using one_winnerD(3) [OF w] by blast
      then show ?thesis by (intro exI [of _ k]) simp
    qed (auto intro: exI [of _ i])
  qed
  moreover have "cell_ok vals (s\<lparr>joint := sh, setters := (setters s)(i := pc)\<rparr>)"
  proof -
    have keep: "((setters s)(i := pc)) j = SOk t" if "setters s j = SOk t" for j t
      using that eff(7) by auto
    have seven: "owner s = JTake \<or> owner s = DTake \<Longrightarrow> slot sh = slot (joint s)"
      using own eff(6) by auto
    have three: "\<exists>k t. ((setters s)(i := pc)) k = SOk t \<and> slot sh = SlotValue (vals k)" if "bits sh = 3"
      using eff(5) that
    proof (elim impE disjE)
      assume "bits (joint s) = 3 \<and> slot sh = slot (joint s)"
      then show ?thesis using cell_okD(4) [OF c] keep by metis
    next
      assume "(\<exists>t. pc = SOk t) \<and> slot sh = SlotValue (vals i)"
      then show ?thesis by (metis fun_upd_same)
    qed
    have taking: "\<exists>k t. ((setters s)(i := pc)) k = SOk t \<and> slot sh = SlotValue (vals k)"
      if "owner s = JTake \<or> owner s = DTake"
      using cell_okD(1) [OF c that] seven [OF that] keep by metis
    have finished: "\<exists>k t. ((setters s)(i := pc)) k = SOk t \<and> v = vals k" if "owner s = JDone v" for v
      using cell_okD(2) [OF c that] keep by metis
    show ?thesis
      unfolding cell_ok_def using taking finished three eff(3) five by auto
  qed
  ultimately show ?thesis using setters own' by (simp add: sys_inv_def)
qed

lemma owner_step_inv:
  assumes inv: "sys_inv vals s" and st: "(sh, pc) \<in> set (owner_step (joint s) (owner s))"
  shows "sys_inv vals (s\<lparr>joint := sh, owner := pc\<rparr>)"
proof -
  have ok: "setter_ok (joint s) (vals j) (setters s j)" for j using inv by (simp add: sys_inv_def)
  have own: "owner_ok (joint s) (owner s)" and w: "one_winner s" and c: "cell_ok vals s"
    using inv by (simp_all add: sys_inv_def)
  note eff = owner_step_effect [OF st own]
  have none: "bits (joint s) \<in> {0, 4, 5} \<longrightarrow> \<not> winner (setters s j)" for j
    using one_winnerD(2) [OF w] by blast
  have "\<forall>j. setter_ok sh (vals j) (setters s j)"
    by (intro allI owner_step_setters [OF st own ok none])
  moreover have "owner_ok sh pc"
  proof (rule owner_step_self [OF st own])
    show "owner s = JTake \<or> owner s = DTake \<longrightarrow> (\<exists>v. slot (joint s) = SlotValue v)"
      using c by (auto simp: cell_ok_def)
    show "bits (joint s) = 5 \<longrightarrow> (\<exists>j. slot (joint s) = SlotJoiner j)"
      using c by (simp add: cell_ok_def)
  qed
  moreover have "one_winner (s\<lparr>joint := sh, owner := pc\<rparr>)"
  proof (rule one_winnerI)
    fix k l
    let ?s = "s\<lparr>joint := sh, owner := pc\<rparr>"
    show "k = l" if "winner (setters ?s k)" "winner (setters ?s l)"
      using one_winnerD(1) [OF w] that by simp
    show "\<not> winner (setters ?s k)" if "bits (joint ?s) \<in> {0, 4, 5}"
    proof -
      have "bits (joint s) \<in> {0, 4, 5}" using that eff(1) by auto
      then show ?thesis using none by simp
    qed
    show "\<exists>k. winner (setters ?s k)" if "bits (joint ?s) \<in> {2, 3}"
      using that eff(2) one_winnerD(3) [OF w] by simp
  qed
  moreover have "cell_ok vals (s\<lparr>joint := sh, owner := pc\<rparr>)"
  proof -
    have three: "\<exists>k t. setters s k = SOk t \<and> slot sh = SlotValue (vals k)" if "bits sh = 3"
      using cell_okD(4) [OF c] eff(2) that by auto
    have taking: "\<exists>k t. setters s k = SOk t \<and> slot sh = SlotValue (vals k)" if "pc = JTake \<or> pc = DTake"
      using cell_okD(4) [OF c] eff(4) that by auto
    have finished: "\<exists>k t. setters s k = SOk t \<and> v = vals k" if "pc = JDone v" for v
      using cell_okD(1) [OF c] owner_effect5 [OF st own, of v] that by auto
    show ?thesis
      unfolding cell_ok_def using taking finished three eff(3) cell_okD(3) [OF c] by auto
  qed
  ultimately show ?thesis by (simp add: sys_inv_def)
qed

lemma sys_step_inv: "sys_step s s' \<Longrightarrow> sys_inv vals s \<Longrightarrow> sys_inv vals s'"
  by (auto elim!: sys_stepE intro: setter_step_inv owner_step_inv)

lemma sys_reach_inv: "sys_reach ow vals s \<Longrightarrow> owner_start ow \<Longrightarrow> sys_inv vals s"
  by (induction rule: sys_reach.induct) (auto intro: sys_inv_init sys_step_inv)


section \<open>The joint as a wake cell\<close>

text \<open>
  Between calls the joint is quiescent: empty, joining, holding a released value, or joined. The
  abstraction onto a cell, and the interpretation of the wake contract by \<open>set_value\<close>.
\<close>

fun slot_cell :: "'v slot \<Rightarrow> 'v session_value cell" where
  "slot_cell (SlotValue v) = Woken v"
| "slot_cell _ = Dead"

definition joint_cell :: "'v shared \<Rightarrow> 'v session_value cell" where
  "joint_cell sh = (case from_bits (bits sh) of Empty \<Rightarrow> Pending | Joining \<Rightarrow> Pending
     | Value \<Rightarrow> slot_cell (slot sh) | Joined \<Rightarrow> Dead)"

definition quiescent :: "'v shared \<Rightarrow> bool" where
  "quiescent sh \<longleftrightarrow> bits sh = 0 \<or> bits sh = 7 \<or>
     bits sh = 5 \<and> (\<exists>j. slot sh = SlotJoiner j) \<or> bits sh = 3 \<and> (\<exists>v. slot sh = SlotValue v)"

lemma run_setter_pos:
  "0 < n \<Longrightarrow> run_setter n sh pc =
    (case setter_step sh pc of [] \<Rightarrow> (sh, pc) | x # _ \<Rightarrow> run_setter (n - 1) (fst x) (snd x))"
  using run_setter.simps(2) [of "n - 1" sh pc] by simp

lemmas run_setter_numeral [simp] = run_setter_pos [of 5, simplified] run_setter_pos [of 4, simplified]
  run_setter_pos [of 3, simplified] run_setter_pos [of 2, simplified]

lemma set_value_cell:
  "quiescent sh \<Longrightarrow>
    (fst (set_value v sh), joint_cell (snd (set_value v sh))) = cell_wake v (joint_cell sh) \<and>
    quiescent (snd (set_value v sh))"
  by (auto simp: quiescent_def set_value_def joint_cell_def split: joiner.split)

interpretation joint: one_shot set_value joint_cell quiescent
  using set_value_cell by unfold_locales auto

text \<open>A \<open>SessionWaker\<close> as a cell of its messages: what a waker sets is a value.\<close>

fun session_value_cell :: "'v session_value cell \<Rightarrow> 'v cell" where
  "session_value_cell Pending = Pending"
| "session_value_cell (Woken (SValue v)) = Woken v"
| "session_value_cell (Woken (SPanic e)) = Dead"
| "session_value_cell Dead = Dead"

lemma session_wake_cell:
  "(b, c') = cell_wake (SValue v) c \<Longrightarrow> (b, session_value_cell c') = cell_wake v (session_value_cell c)"
proof (cases c)
  case (Woken w)
  then show "(b, c') = cell_wake (SValue v) c \<Longrightarrow> ?thesis" by (cases w) auto
qed auto

interpretation session_cell: one_shot session_wake "\<lambda>s. session_value_cell (joint_cell (sess_joint s))"
  "\<lambda>s. quiescent (sess_joint s)"
proof unfold_locales
  fix s :: "'v session" and v
  assume q: "quiescent (sess_joint s)"
  show "(fst (session_wake v s), session_value_cell (joint_cell (sess_joint (snd (session_wake v s))))) =
    cell_wake v (session_value_cell (joint_cell (sess_joint s)))"
    using session_wake_cell joint.view_wake [OF q, of "SValue v"]
    by (simp add: session_wake_def case_prod_beta Let_def)
  show "quiescent (sess_joint (snd (session_wake v s)))"
    using joint.invar_wake [OF q] by (simp add: session_wake_def case_prod_beta Let_def)
qed

end
