(* ===== verification/Session_Delivery.thy ===== *)
theory Session_Delivery
  imports Session_Protocol
begin

text \<open>
  What the session protocol gives its users: exclusive access to the shared cell, delivery of
  exactly the value whose setter was told \<open>Ok\<close>, notification of a registered joiner, progress of
  the join, and the promise the handles make that a session is never forgotten.
\<close>

section \<open>Schedules\<close>

text \<open>
  A schedule says who moves next, the owner (\<open>None\<close>) or a setter, each step taking its first
  outcome; whatever a schedule reaches is reachable.
\<close>

fun sched_step :: "nat option \<Rightarrow> 'v sys \<Rightarrow> 'v sys" where
  "sched_step None s = (case owner_step (joint s) (owner s) of [] \<Rightarrow> s
     | x # _ \<Rightarrow> s\<lparr>joint := fst x, owner := snd x\<rparr>)"
| "sched_step (Some i) s = (case setter_step (joint s) (setters s i) of [] \<Rightarrow> s
     | x # _ \<Rightarrow> s\<lparr>joint := fst x, setters := (setters s)(i := snd x)\<rparr>)"

definition sched_run :: "nat option list \<Rightarrow> 'v sys \<Rightarrow> 'v sys" where
  "sched_run ms s = fold sched_step ms s"

lemma sched_step_reach: "sys_reach ow vals s \<Longrightarrow> sys_reach ow vals (sched_step m s)"
proof (cases m)
  case None
  assume "sys_reach ow vals s"
  then show ?thesis using None
    by (auto split: list.split intro!: sys_reach.step [of ow vals s] sys_step.owner)
next
  case (Some i)
  assume "sys_reach ow vals s"
  then show ?thesis using Some
    by (auto split: list.split intro!: sys_reach.step [of ow vals s] sys_step.setter)
qed

lemma sched_run_reach: "sys_reach ow vals s \<Longrightarrow> sys_reach ow vals (sched_run ms s)"
  unfolding sched_run_def by (induction ms arbitrary: s) (auto intro: sched_step_reach)

lemma sched_run_simps [simp]:
  "sched_run [] s = s" "sched_run (m # ms) s = sched_run ms (sched_step m s)"
  by (simp_all add: sched_run_def)

section \<open>Exclusive access\<close>

fun setter_accesses :: "'v spc \<Rightarrow> bool" where
  "setter_accesses (SWrite v) = True"
| "setter_accesses (STake v) = True"
| "setter_accesses _ = False"

fun owner_accesses :: "'v opc \<Rightarrow> bool" where
  "owner_accesses (JWrite j) = True"
| "owner_accesses JTake = True"
| "owner_accesses DTake = True"
| "owner_accesses _ = False"

lemma setter_accesses_bits: "setter_ok sh v p \<Longrightarrow> setter_accesses p \<Longrightarrow> bits sh = 2 \<and> winner p"
  by (cases p) auto

lemma owner_accesses_bits: "owner_ok sh p \<Longrightarrow> owner_accesses p \<Longrightarrow> bits sh = 4 \<or> bits sh = 7"
  by (cases p) auto

text \<open>
  C1. No interleaving of any number of \<open>set_value\<close> calls with the owner's \<open>join_value\<close> or
  \<open>drop_value\<close> reads the cell as the wrong variant or twice, reaches the \<open>unreachable!\<close>, or lets
  two parties be at an access of the cell at the same time; and while a setter is about to unpark
  a joining thread that thread has not left \<open>join_value\<close>, so its handle is alive.
\<close>

theorem session_race_free:
  assumes "owner_start ow" and "sys_reach ow vals s"
  shows "owner s \<noteq> OUndef \<and> owner s \<noteq> JUnreachable \<and> (\<forall>i. setters s i \<noteq> SUndef) \<and>
    (\<forall>i. \<not> (owner_accesses (owner s) \<and> setter_accesses (setters s i))) \<and>
    (\<forall>i j. \<not> (i \<noteq> j \<and> setter_accesses (setters s i) \<and> setter_accesses (setters s j))) \<and>
    (\<forall>i v th. \<not> (setters s i = SUnpark (JThread th) \<and> owner s = JDone v))"
proof -
  have inv: "sys_inv vals s" using sys_reach_inv assms by blast
  then have ok: "\<And>i. setter_ok (joint s) (vals i) (setters s i)" and own: "owner_ok (joint s) (owner s)"
    and one: "one_winner s" by (simp_all add: sys_inv_def)
  have "owner s \<noteq> OUndef \<and> owner s \<noteq> JUnreachable" using own by auto
  moreover have "setters s i \<noteq> SUndef" for i using ok [of i] by auto
  moreover have "\<not> (owner_accesses (owner s) \<and> setter_accesses (setters s i))" for i
    using setter_accesses_bits [OF ok [of i]] owner_accesses_bits [OF own] by auto
  moreover have "\<not> (i \<noteq> j \<and> setter_accesses (setters s i) \<and> setter_accesses (setters s j))" for i j
    using setter_accesses_bits [OF ok] one_winnerD(1) [OF one] by blast
  moreover have "\<not> (setters s i = SUnpark (JThread th) \<and> owner s = JDone v)" for i v th
    using ok [of i] own by auto
  ultimately show ?thesis by blast
qed

lemma session_race_free_witness:
  "let s = sched_run [None, None, None, None, Some 0, Some 0, Some 0, Some 1]
      (sys_init (JLoad (JThread 7)) (\<lambda>i. SValue i)) in
   setters s 0 = SUnpark (JThread 7) \<and> (\<forall>v. owner s \<noteq> JDone v)"
proof -
  let ?s = "sched_run [None, None, None, None, Some 0, Some 0, Some 0, Some 1]
      (sys_init (JLoad (JThread 7)) (\<lambda>i. SValue (i :: nat)))"
  have "sys_reach (JLoad (JThread 7)) (\<lambda>i. SValue i) ?s" by (rule sched_run_reach [OF sys_reach.init])
  then have "\<forall>i v th. \<not> (setters ?s i = SUnpark (JThread th) \<and> owner ?s = JDone v)"
    using session_race_free [of "JLoad (JThread 7)" "\<lambda>i. SValue i" ?s] unfolding owner_start_def by blast
  moreover have "setters ?s 0 = SUnpark (JThread 7)" by (simp add: sys_init_def joint_new_def)
  ultimately show ?thesis unfolding Let_def by blast
qed

text \<open>
  C2. When \<open>join_value\<close> returns a value, exactly one \<open>set_value\<close> claims the session, that call has
  returned \<open>Ok\<close>, and the value is the one it was given: what the joiner obtains is what the one
  successful waker sent, and every other waker gets its own value back.
\<close>

theorem session_delivers_winner:
  assumes "owner_start ow" and "sys_reach ow vals s" and "owner s = JDone v"
  shows "\<exists>i. v = vals i \<and> (\<exists>t. setters s i = SOk t) \<and>
    (\<forall>k. k \<noteq> i \<longrightarrow> \<not> winner (setters s k) \<and> (\<forall>w. setters s k = SErr w \<longrightarrow> w = vals k))"
proof -
  have inv: "sys_inv vals s" using sys_reach_inv assms by blast
  then have ok: "\<And>i. setter_ok (joint s) (vals i) (setters s i)"
    and one: "one_winner s" and c: "cell_ok vals s" by (simp_all add: sys_inv_def)
  obtain i t where i: "setters s i = SOk t" "v = vals i" using cell_okD(2) [OF c assms(3)] by blast
  have "\<not> winner (setters s k) \<and> (\<forall>w. setters s k = SErr w \<longrightarrow> w = vals k)" if "k \<noteq> i" for k
  proof -
    have "winner (setters s i)" by (simp add: i)
    then have "\<not> winner (setters s k)" using one_winnerD(1) [OF one] that by blast
    moreover have "w = vals k" if "setters s k = SErr w" for w using ok [of k] that by simp
    ultimately show ?thesis by blast
  qed
  with i show ?thesis by blast
qed

lemma session_delivers_winner_witness:
  "owner (sched_run [None, None, None, None, Some 1, Some 1, Some 1, Some 1, Some 1, None, None, None]
    (sys_init (JLoad (JThread 7)) (\<lambda>i. SValue i))) = JDone (SValue 1)"
proof -
  let ?s = "sched_run [None, None, None, None, Some 1, Some 1, Some 1, Some 1, Some 1, None, None, None]
    (sys_init (JLoad (JThread 7)) (\<lambda>i. SValue (i :: nat)))"
  have s: "owner ?s = JDone (SValue 1)" by (simp add: sys_init_def joint_new_def)
  have r: "sys_reach (JLoad (JThread 7)) (\<lambda>i. SValue i) ?s" by (rule sched_run_reach [OF sys_reach.init])
  have o: "owner_start (JLoad (JThread 7) :: nat opc)" unfolding owner_start_def by blast
  from session_delivers_winner [OF o r s] s show ?thesis by blast
qed

section \<open>Progress\<close>

text \<open>The owner running alone: one outcome per step, exchanges succeeding when they can.\<close>

fun run_owner :: "nat \<Rightarrow> 'v shared \<Rightarrow> 'v opc \<Rightarrow> 'v shared \<times> 'v opc" where
  "run_owner 0 sh pc = (sh, pc)"
| "run_owner (Suc n) sh pc =
    (case owner_step sh pc of [] \<Rightarrow> (sh, pc) | x # _ \<Rightarrow> run_owner n (fst x) (snd x))"

lemma run_owner_pos:
  "0 < n \<Longrightarrow> run_owner n sh pc =
    (case owner_step sh pc of [] \<Rightarrow> (sh, pc) | x # _ \<Rightarrow> run_owner (n - 1) (fst x) (snd x))"
  using run_owner.simps(2) [of "n - 1" sh pc] by simp

lemmas run_owner_numeral [simp] = run_owner_pos [of 4, simplified]
  run_owner_pos [of 3, simplified] run_owner_pos [of 2, simplified]

lemma run_owner_reach: "sys_reach ow vals s \<Longrightarrow>
  sys_reach ow vals (s\<lparr>joint := fst (run_owner n (joint s) (owner s)), owner := snd (run_owner n (joint s) (owner s))\<rparr>)"
proof (induction n arbitrary: s)
  case (Suc n)
  show ?case
  proof (cases "owner_step (joint s) (owner s)")
    case (Cons x xs)
    let ?s = "s\<lparr>joint := fst x, owner := snd x\<rparr>"
    have "sys_step s ?s" using sys_step.owner [of "fst x" "snd x" s] Cons by simp
    then have "sys_reach ow vals ?s" using Suc.prems by (auto intro: sys_reach.step)
    from Suc.IH [OF this] show ?thesis by (simp add: Cons)
  qed (use Suc.prems in simp)
qed simp

fun joining :: "'v opc \<Rightarrow> bool" where
  "joining (JLoad j) = True"
| "joining (JCasEmpty j) = True"
| "joining (JWait j) = True"
| "joining JCasValue = True"
| "joining JTake = True"
| "joining _ = False"

text \<open>
  C13. Once some \<open>set_value\<close> has returned \<open>Ok\<close>, a joiner anywhere in \<open>join_value\<close> returns that
  setter's value within four steps of its own: a finished wake is never lost, whatever the two
  sides did before.
\<close>

theorem session_join_progress:
  assumes "owner_start ow" and "sys_reach ow vals s" and "setters s i = SOk t" and "joining (owner s)"
  shows "snd (run_owner 4 (joint s) (owner s)) = JDone (vals i)"
proof -
  have inv: "sys_inv vals s" using sys_reach_inv assms by blast
  then have ok: "setter_ok (joint s) (vals i) (setters s i)" and own: "owner_ok (joint s) (owner s)"
    and one: "one_winner s" and c: "cell_ok vals s" by (simp_all add: sys_inv_def)
  have b: "bits (joint s) = 3 \<and> slot (joint s) = SlotValue (vals i) \<or> bits (joint s) = 7"
    using ok assms(3) by simp
  show ?thesis
  proof (cases "owner s = JTake")
    case True
    then obtain k u where k: "setters s k = SOk u" "slot (joint s) = SlotValue (vals k)"
      using cell_okD(1) [OF c] by blast
    have "k = i" using one_winnerD(1) [OF one, of k i] k(1) assms(3) by simp
    then show ?thesis using True k by simp
  next
    case False
    then have "bits (joint s) = 3 \<and> slot (joint s) = SlotValue (vals i)"
      using b own assms(4) by (cases "owner s") auto
    then show ?thesis using False assms(4) by (cases "owner s") auto
  qed
qed

lemma session_join_progress_witness:
  "let s = sched_run [None, None, None, None, Some 1, Some 1, Some 1, Some 1, Some 1]
    (sys_init (JLoad (JThread 7)) (\<lambda>i. SValue i)) in
   snd (run_owner 4 (joint s) (owner s)) = JDone (SValue (1 :: nat))"
proof -
  let ?s = "sched_run [None, None, None, None, Some 1, Some 1, Some 1, Some 1, Some 1]
    (sys_init (JLoad (JThread 7)) (\<lambda>i. SValue (i :: nat)))"
  have s: "setters ?s 1 = SOk None" "joining (owner ?s)" by (simp_all add: sys_init_def joint_new_def)
  have r: "sys_reach (JLoad (JThread 7)) (\<lambda>i. SValue i) ?s" by (rule sched_run_reach [OF sys_reach.init])
  have o: "owner_start (JLoad (JThread 7) :: nat opc)" unfolding owner_start_def by blast
  from session_join_progress [OF o r s] show ?thesis unfolding Let_def .
qed

section \<open>Notification\<close>

text \<open>
  While a registered joiner waits, the winner carries that joiner, and is past the hand-over only
  once the joiner has been notified: an unpark token for a thread, the task given back to the
  caller of \<open>set_value\<close> (who wakes it) for a task.
\<close>

fun token :: "'v shared \<Rightarrow> joiner \<Rightarrow> bool" where
  "token sh (JThread th) \<longleftrightarrow> th \<in> unparked sh"
| "token sh (JTask t) \<longleftrightarrow> True"

fun joiner_task :: "joiner \<Rightarrow> session_task option" where
  "joiner_task (JTask t) = Some t"
| "joiner_task (JThread th) = None"

fun notifies :: "'v shared \<Rightarrow> joiner \<Rightarrow> 'v spc \<Rightarrow> bool" where
  "notifies sh j (SWrite v) \<longleftrightarrow> False"
| "notifies sh j SRelease \<longleftrightarrow> False"
| "notifies sh j (STake v) \<longleftrightarrow> slot sh = SlotJoiner j"
| "notifies sh j (SUnpark i) \<longleftrightarrow> i = j"
| "notifies sh j (SReleaseJoiner i) \<longleftrightarrow> i = j \<and> token sh j"
| "notifies sh j (SOk t) \<longleftrightarrow> t = joiner_task j \<and> token sh j"
| "notifies sh j _ \<longleftrightarrow> True"

definition notify_inv :: "'v sys \<Rightarrow> bool" where
  "notify_inv s \<longleftrightarrow> (\<forall>j. owner s = JWait j \<longrightarrow> (\<forall>i. notifies (joint s) j (setters s i)))"

lemma setter_step_notifies:
  assumes st: "(sh, pc) \<in> set (setter_step sh0 p)" and p: "setter_ok sh0 v p"
    and own: "owner_ok sh0 (JWait j)" and n: "notifies sh0 j p"
  shows "notifies sh j pc"
  using assms by (cases p) (auto split: if_splits status.splits slot.splits joiner.splits)

lemma setter_step_notifies_other:
  assumes st: "(sh, pc) \<in> set (setter_step sh0 p)" and p: "setter_ok sh0 v p"
    and q: "setter_ok sh0 u q" and excl: "winner p \<longrightarrow> \<not> winner q"
    and none: "bits sh0 \<in> {0, 4, 5} \<longrightarrow> \<not> winner q" and n: "notifies sh0 j q"
  shows "notifies sh j q"
  using assms by (cases p; cases q; cases j) (auto split: if_splits status.splits slot.splits joiner.splits)

lemma not_winner_notifies: "\<not> winner p \<Longrightarrow> notifies sh j p"
  by (cases p) auto

lemma owner_step_wait:
  assumes st: "(sh, JWait j) \<in> set (owner_step sh0 ow)" and o: "owner_ok sh0 ow"
  shows "bits sh0 = 4 \<or> ow = JWait j \<and> sh = sh0"
  using assms by (cases ow) (auto split: if_splits status.splits slot.splits)


lemma notify_inv_setter:
  assumes inv: "sys_inv vals s" and n: "notify_inv s"
    and st: "(sh, pc) \<in> set (setter_step (joint s) (setters s i))"
  shows "notify_inv (s\<lparr>joint := sh, setters := (setters s)(i := pc)\<rparr>)"
proof -
  have ok: "setter_ok (joint s) (vals k) (setters s k)" for k using inv by (simp add: sys_inv_def)
  have one: "one_winner s" and own: "owner_ok (joint s) (owner s)" using inv by (simp_all add: sys_inv_def)
  have "notifies sh j (((setters s)(i := pc)) k)" if w: "owner s = JWait j" for j k
  proof (cases "k = i")
    case True
    then show ?thesis
      using setter_step_notifies [OF st ok] own n w by (simp add: notify_inv_def)
  next
    case False
    have "notifies sh j (setters s k)"
    proof (rule setter_step_notifies_other [OF st ok ok])
      show "winner (setters s i) \<longrightarrow> \<not> winner (setters s k)"
        using one_winnerD(1) [OF one] False by blast
      show "bits (joint s) \<in> {0, 4, 5} \<longrightarrow> \<not> winner (setters s k)"
        using one_winnerD(2) [OF one] by blast
      show "notifies (joint s) j (setters s k)" using n w by (simp add: notify_inv_def)
    qed
    with False show ?thesis by simp
  qed
  then show ?thesis by (simp add: notify_inv_def)
qed

lemma notify_inv_owner:
  assumes inv: "sys_inv vals s" and n: "notify_inv s"
    and st: "(sh, pc) \<in> set (owner_step (joint s) (owner s))"
  shows "notify_inv (s\<lparr>joint := sh, owner := pc\<rparr>)"
proof -
  have one: "one_winner s" and own: "owner_ok (joint s) (owner s)" using inv by (simp_all add: sys_inv_def)
  have "notifies sh j (setters s k)" if "pc = JWait j" for j k
    using owner_step_wait [OF st [unfolded that] own]
  proof
    assume "bits (joint s) = 4"
    then have "\<not> winner (setters s k)" using one_winnerD(2) [OF one] by blast
    then show ?thesis by (rule not_winner_notifies)
  next
    assume "owner s = JWait j \<and> sh = joint s"
    then show ?thesis using n by (simp add: notify_inv_def)
  qed
  then show ?thesis by (simp add: notify_inv_def)
qed

lemma notify_inv_reach: "sys_reach ow vals s \<Longrightarrow> owner_start ow \<Longrightarrow> notify_inv s"
proof (induction rule: sys_reach.induct)
  case init
  then show ?case by (auto simp: notify_inv_def sys_init_def owner_start_def)
next
  case (step s s')
  then have "sys_inv vals s" "notify_inv s" using sys_reach_inv by blast+
  with step.hyps(2) show ?case
    by (auto elim!: sys_stepE intro: notify_inv_setter notify_inv_owner)
qed

text \<open>
  C14. No wake is lost on a joiner that already waits: when a \<open>set_value\<close> has returned \<open>Ok\<close> while
  the owner is blocked in \<open>join_value\<close>, the owner's thread holds an unpark token, or the call
  returned exactly the owner's task for its caller to resume.
\<close>

theorem session_notifies_joiner:
  assumes "owner_start ow" and "sys_reach ow vals s" and "setters s i = SOk t" and "owner s = JWait j"
  shows "case j of JThread th \<Rightarrow> t = None \<and> th \<in> unparked (joint s) | JTask tk \<Rightarrow> t = Some tk"
proof -
  have "notifies (joint s) j (setters s i)"
    using notify_inv_reach [OF assms(2,1)] assms(4) by (simp add: notify_inv_def)
  then show ?thesis using assms(3) by (cases j) auto
qed

lemma session_notifies_joiner_witness:
  "7 \<in> unparked (joint (sched_run [None, None, None, None, Some 1, Some 1, Some 1, Some 1, Some 1]
    (sys_init (JLoad (JThread 7)) (\<lambda>i. SValue (i :: nat)))))"
proof -
  let ?s = "sched_run [None, None, None, None, Some 1, Some 1, Some 1, Some 1, Some 1]
    (sys_init (JLoad (JThread 7)) (\<lambda>i. SValue (i :: nat)))"
  have s: "setters ?s 1 = SOk None" "owner ?s = JWait (JThread 7)" by (simp_all add: sys_init_def joint_new_def)
  have r: "sys_reach (JLoad (JThread 7)) (\<lambda>i. SValue i) ?s" by (rule sched_run_reach [OF sys_reach.init])
  have o: "owner_start (JLoad (JThread 7) :: nat opc)" unfolding owner_start_def by blast
  from session_notifies_joiner [OF o r s] show ?thesis unfolding joiner.case by blast
qed

section \<open>Handles\<close>

text \<open>
  The life of the \<open>SessionWaker\<close> handles of one session: each live handle may be cloned, used to
  wake (which consumes it), or dropped. \<open>handle_run\<close> carries the number of live handles.
\<close>

datatype 'v handle_op = HClone | HWake 'v | HDrop

fun handle_op_run :: "'v handle_op \<Rightarrow> nat \<times> 'v session \<Rightarrow> nat \<times> 'v session" where
  "handle_op_run HClone (live, s) = (live + 1, add_waker s)"
| "handle_op_run (HWake v) (live, s) = (live - 1, snd (session_wake v s))"
| "handle_op_run HDrop (live, s) = (live - 1, remove_waker s)"

fun handle_run :: "'v handle_op list \<Rightarrow> nat \<times> 'v session \<Rightarrow> (nat \<times> 'v session) option" where
  "handle_run [] ls = Some ls"
| "handle_run (x # xs) ls = (if fst ls = 0 then None else handle_run xs (handle_op_run x ls))"

fun first_wake :: "'v handle_op list \<Rightarrow> 'v session_value" where
  "first_wake [] = SPanic (Static ''session: no wakeup'')"
| "first_wake (HWake v # xs) = SValue v"
| "first_wake (_ # xs) = first_wake xs"

abbreviation session_cell_of :: "'v session \<Rightarrow> 'v session_value cell" where
  "session_cell_of s \<equiv> joint_cell (sess_joint s)"

lemma session_wake_parts:
  "snd (session_wake v s) = s\<lparr>sess_joint := snd (set_value (SValue v) (sess_joint s))\<rparr>"
  by (simp add: session_wake_def case_prod_beta Let_def)

lemma handle_run_set:
  assumes "quiescent (sess_joint s)" and "session_cell_of s \<noteq> Pending" and "handle_run ops (live, s) = Some (l', s')"
  shows "session_cell_of s' = session_cell_of s"
  using assms
proof (induction ops arbitrary: live s)
  case (Cons x xs)
  obtain l1 s1 where x: "handle_op_run x (live, s) = (l1, s1)" by fastforce
  have "quiescent (sess_joint s1) \<and> session_cell_of s1 = session_cell_of s"
    using x joint.wake_refused [OF Cons.prems(1,2)] joint.invar_wake [OF Cons.prems(1)] Cons.prems(1)
    by (cases x) (auto simp: session_wake_parts add_waker_def remove_waker_def fault_def Let_def)
  then show ?case using Cons x by (auto split: if_splits)
qed simp

lemma handle_run_pending:
  assumes "quiescent (sess_joint s)" and "session_cell_of s = Pending" and "wakers s = live" and "0 < live"
    and "handle_run ops (live, s) = Some (0, s')"
  shows "session_cell_of s' = Woken (first_wake ops)"
  using assms
proof (induction ops arbitrary: live s)
  case (Cons x xs)
  note q = Cons.prems(1,2)
  have run: "handle_run xs (handle_op_run x (live, s)) = Some (0, s')"
    using Cons.prems(4,5) by (simp split: if_splits)
  show ?case
  proof (cases x)
    case HClone
    then show ?thesis using run Cons.IH [of "add_waker s" "live + 1"] Cons.prems(1-3)
      by (simp add: add_waker_def)
  next
    case (HWake v)
    have "session_cell_of (snd (session_wake v s)) = Woken (SValue v)"
      "quiescent (sess_joint (snd (session_wake v s)))"
      using joint.wake_pending [OF q] joint.invar_wake [OF q(1)] by (simp_all add: session_wake_parts)
    then show ?thesis using run HWake handle_run_set by fastforce
  next
    case HDrop
    show ?thesis
    proof (cases "live = 1")
      case True
      have "session_cell_of (remove_waker s) = Woken (SPanic (Static ''session: no wakeup''))"
        "quiescent (sess_joint (remove_waker s))"
        using joint.wake_pending [OF q] joint.invar_wake [OF q(1)] True Cons.prems(3)
        by (simp_all add: remove_waker_def fault_def)
      moreover have "xs = []" using run HDrop True by (cases xs) auto
      ultimately show ?thesis using run HDrop by simp
    next
      case False
      then show ?thesis using run HDrop Cons.IH [of "remove_waker s" "live - 1"] Cons.prems(1-4)
        by (simp add: remove_waker_def)
    qed
  qed
qed simp

text \<open>
  C15. A session is never forgotten: once every waker handle of a session that nobody had woken is
  used up, the session holds the value of the first \<open>wake\<close>, or, when no handle was used to wake,
  the panic ``session: no wakeup''. It holds however the handles were cloned, and whether or not
  the joiner had registered before.
\<close>

theorem session_never_forgotten:
  assumes "quiescent (sess_joint s)" and "session_cell_of s = Pending" and "wakers s = 1"
    and "handle_run ops (1, s) = Some (0, s')"
  shows "session_cell_of s' = Woken (first_wake ops)"
  using handle_run_pending [OF assms(1-3) _ assms(4)] by simp

lemma session_never_forgotten_witness:
  "session_cell_of (snd (the (handle_run [HClone, HClone, HDrop, HWake 4, HWake 5] (1, session_new)))) =
    Woken (SValue (4 :: nat))"
proof -
  let ?r = "handle_run [HClone, HClone, HDrop, HWake 4, HWake (5 :: nat)] (1, session_new)"
  have "\<exists>s'. ?r = Some (0, s')"
    by (simp add: session_new_def joint_new_def add_waker_def remove_waker_def)
  then obtain s' where s': "?r = Some (0, s')" by blast
  have q: "quiescent (sess_joint (session_new :: nat session))"
    "session_cell_of (session_new :: nat session) = Pending" "wakers (session_new :: nat session) = 1"
    by (simp_all add: quiescent_def session_new_def joint_new_def joint_cell_def)
  show ?thesis using session_never_forgotten [OF q s'] s' by simp
qed

end
