(* ===== verification/Timer.thy ===== *)
theory Timer
  imports Prelude
begin

text \<open>
  The hierarchical timing wheel of \<open>src/src/time.rs\<close>: \<open>Node\<close>, \<open>List\<close>, \<open>Timer\<close> with its
  operations \<open>new_node\<close>, \<open>free_node\<close>, \<open>wake\<close>, \<open>tick\<close>, \<open>update\<close>, \<open>queue_list\<close>, \<open>queue_node\<close> and
  \<open>timeout\<close>, the message loop \<open>timer\<close>, and the request side of \<open>sleep\<close>.

  Intrusive singly linked lists are Isabelle lists, the arrays \<open>least\<close> and \<open>level\<close> are functions
  of the index with the bounds checks written out. A woken \<open>SessionWaker\<close> is an element of the
  list of woken sessions an operation returns, in the order in which the code wakes them.
\<close>

section \<open>The wheel\<close>

definition TIME_LEAST_SHIFT :: nat where "TIME_LEAST_SHIFT = 14"
definition TIME_LEAST_VALUE :: u64 where "TIME_LEAST_VALUE = push_bit TIME_LEAST_SHIFT 1"
definition TIME_LEAST_MASK :: u64 where "TIME_LEAST_MASK = TIME_LEAST_VALUE - 1"
definition TIME_LEVEL_COUNT :: nat where "TIME_LEVEL_COUNT = 5"
definition TIME_LEVEL_SHIFT :: nat where "TIME_LEVEL_SHIFT = 10"
definition TIME_LEVEL_VALUE :: u64 where "TIME_LEVEL_VALUE = push_bit TIME_LEVEL_SHIFT 1"
definition TIME_LEVEL_MASK :: u64 where "TIME_LEVEL_MASK = TIME_LEVEL_VALUE - 1"

record 's node =
  expire :: u64
  node_session :: "'s option"  \<comment> \<open>\<open>MaybeUninit\<close>: \<open>None\<close> is uninitialised\<close>

record 's timer =
  time :: u64
  least :: "nat \<Rightarrow> 's node list"
  level :: "nat \<Rightarrow> nat \<Rightarrow> 's node list"
  nodes :: "'s node list"      \<comment> \<open>free list\<close>

definition node_default :: "'s node" where
  "node_default = \<lparr>expire = 0, node_session = None\<rparr>"

definition timer_new :: "'s timer" where
  "timer_new = \<lparr>time = 0, least = (\<lambda>_. []), level = (\<lambda>_ _. []), nodes = []\<rparr>"

text \<open>\<open>List::insert\<close> appends at \<open>last\<close>; \<open>List::clear\<close> takes the whole chain.\<close>

definition list_insert :: "'s node \<Rightarrow> 's node list \<Rightarrow> 's node list" where
  "list_insert node l = l @ [node]"

definition new_node :: "'s timer \<Rightarrow> 's node \<times> 's timer" where
  "new_node t = (case nodes t of
      n # ns \<Rightarrow> (n, t\<lparr>nodes := ns\<rparr>)
    | [] \<Rightarrow> (node_default, t))"

definition free_node :: "'s node \<Rightarrow> 's timer \<Rightarrow> 's timer" where
  "free_node n t = t\<lparr>nodes := n # nodes t\<rparr>"

text \<open>\<open>Node::wake\<close> reads the session out of the node and marks the node unused.\<close>

definition node_wake :: "'s node \<Rightarrow> ('s node \<times> 's) option" where
  "node_wake n = map_option (\<lambda>s. (n\<lparr>expire := 0\<rparr>, s)) (node_session n)"

fun wake :: "'s timer \<Rightarrow> 's node list \<Rightarrow> ('s timer \<times> 's list) option" where
  "wake t [] = Some (t, [])"
| "wake t (n # list) = (case node_wake n of
      None \<Rightarrow> None
    | Some (n', s) \<Rightarrow> map_option (\<lambda>(t', ws). (t', s # ws)) (wake (free_node n' t) list))"

definition insert_least :: "nat \<Rightarrow> 's node \<Rightarrow> 's timer \<Rightarrow> 's timer option" where
  "insert_least i n t =
    (if i < 2 ^ TIME_LEAST_SHIFT then Some (t\<lparr>least := (least t)(i := list_insert n (least t i))\<rparr>)
     else None)"

definition insert_level :: "nat \<Rightarrow> nat \<Rightarrow> 's node \<Rightarrow> 's timer \<Rightarrow> 's timer option" where
  "insert_level l i n t =
    (if l < TIME_LEVEL_COUNT \<and> i < 2 ^ TIME_LEVEL_SHIFT
     then Some (t\<lparr>level := (level t)(l := (level t l)(i := list_insert n (level t l i)))\<rparr>)
     else None)"

text \<open>
  The loop of \<open>queue_node\<close>: \<open>exp2\<close> is shifted left once per level, so at level 4 it is \<open>1 << 64\<close>,
  which the fixed width turns into 0; \<open>exp2 - 1\<close> then underflows.
\<close>

function queue_level :: "bool \<Rightarrow> 's timer \<Rightarrow> 's node \<Rightarrow> nat \<Rightarrow> u64 \<Rightarrow> 's timer option" where
  "queue_level chk t n lv exp2 =
    (let exp2 = push_bit TIME_LEVEL_SHIFT exp2 in
     case sub_u64 chk exp2 1 of None \<Rightarrow> None | Some msk \<Rightarrow>
     if expire n OR msk = time t OR msk then
       (let shift = TIME_LEAST_SHIFT + lv * TIME_LEVEL_SHIFT;
            value = drop_bit shift (expire n) AND TIME_LEVEL_MASK in
        case sub_u64 chk value 1 of None \<Rightarrow> None | Some index \<Rightarrow>
        insert_level lv (unat index) n t)
     else if Suc lv \<le> TIME_LEVEL_COUNT then queue_level chk t n (Suc lv) exp2
     else None)"
  by pat_completeness auto
termination
  by (relation "measure (\<lambda>(chk, t, n, lv, exp2). Suc TIME_LEVEL_COUNT - lv)") auto

declare queue_level.simps [simp del]

definition queue_node :: "bool \<Rightarrow> 's timer \<Rightarrow> 's node \<Rightarrow> 's timer option" where
  "queue_node chk t n =
    (case sub_u64 chk (expire n) (time t) of None \<Rightarrow> None | Some d \<Rightarrow>
     if d < TIME_LEAST_VALUE then insert_least (unat (expire n AND TIME_LEAST_MASK)) n t
     else queue_level chk t n 0 (push_bit TIME_LEAST_SHIFT 1))"

fun queue_list :: "bool \<Rightarrow> 's timer \<Rightarrow> 's node list \<Rightarrow> 's timer option" where
  "queue_list chk t [] = Some t"
| "queue_list chk t (n # list) =
    (case queue_node chk t n of None \<Rightarrow> None | Some t' \<Rightarrow> queue_list chk t' list)"

text \<open>The loop of \<open>tick\<close>: find the lowest non-zero digit of the time and spread that slot.\<close>

function cascade :: "bool \<Rightarrow> 's timer \<Rightarrow> u64 \<Rightarrow> nat \<Rightarrow> 's timer option" where
  "cascade chk t tm lv =
    (let value = tm AND TIME_LEVEL_MASK in
     if value \<noteq> 0 then
       (case sub_u64 chk value 1 of None \<Rightarrow> None | Some index \<Rightarrow>
        if lv < TIME_LEVEL_COUNT \<and> unat index < 2 ^ TIME_LEVEL_SHIFT then
          queue_list chk (t\<lparr>level := (level t)(lv := (level t lv)(unat index := []))\<rparr>)
            (level t lv (unat index))
        else None)
     else if Suc lv \<le> TIME_LEVEL_COUNT then cascade chk t (drop_bit TIME_LEVEL_SHIFT tm) (Suc lv)
     else None)"
  by pat_completeness auto
termination
  by (relation "measure (\<lambda>(chk, t, tm, lv). Suc TIME_LEVEL_COUNT - lv)") auto

declare cascade.simps [simp del]

definition tick :: "bool \<Rightarrow> 's timer \<Rightarrow> ('s timer \<times> 's list) option" where
  "tick chk t =
    (case add_u64 chk (time t) 1 of None \<Rightarrow> None | Some now \<Rightarrow>
     let t1 = t\<lparr>time := now\<rparr> in
     case (if now AND TIME_LEAST_MASK = 0
           then cascade chk t1 (drop_bit TIME_LEAST_SHIFT now) 0 else Some t1) of
       None \<Rightarrow> None
     | Some t2 \<Rightarrow>
        (let index = unat (now AND TIME_LEAST_MASK) in
         wake (t2\<lparr>least := (least t2)(index := [])\<rparr>) (least t2 index)))"


text \<open>\<open>Timer::update\<close> ticks until the target time is reached.\<close>

lemma wake_time: "wake t l = Some (t', ws) \<Longrightarrow> time t' = time t"
proof (induction l arbitrary: t ws)
  case (Cons n l)
  then obtain n' s where w: "node_wake n = Some (n', s)"
    by (auto split: option.splits)
  with Cons.prems obtain ws' where "wake (free_node n' t) l = Some (t', ws')"
    by auto
  then show ?case using Cons.IH by (fastforce simp: free_node_def)
qed simp

lemma insert_time:
  "insert_least i n t = Some t' \<Longrightarrow> time t' = time t"
  "insert_level l i n t = Some t' \<Longrightarrow> time t' = time t"
  by (auto simp: insert_least_def insert_level_def split: if_splits)

lemma queue_level_time: "queue_level chk t n lv x = Some t' \<Longrightarrow> time t' = time t"
proof (induction chk t n lv x rule: queue_level.induct)
  case (1 chk t n lv x)
  from "1.prems" show ?case
    by (subst (asm) queue_level.simps)
      (auto simp: Let_def split: option.splits if_splits dest: insert_time intro: "1.IH")
qed

lemma queue_node_time: "queue_node chk t n = Some t' \<Longrightarrow> time t' = time t"
  by (auto simp: queue_node_def split: option.splits if_splits dest: insert_time queue_level_time)

lemma queue_list_time: "queue_list chk t l = Some t' \<Longrightarrow> time t' = time t"
  by (induction l arbitrary: t) (fastforce split: option.splits dest: queue_node_time)+

lemma cascade_time: "cascade chk t x lv = Some t' \<Longrightarrow> time t' = time t"
proof (induction chk t x lv rule: cascade.induct)
  case (1 chk t x lv)
  from "1.prems" show ?case
    by (subst (asm) cascade.simps)
      (auto simp: Let_def split: option.splits if_splits dest: queue_list_time intro: "1.IH")
qed

lemma tick_time:
  assumes "tick chk t = Some (t', ws)"
  shows "time t' = time t + 1"
proof -
  let ?t1 = "t\<lparr>time := time t + 1\<rparr>"
  from assms obtain t2 i where
    "(if (time t + 1) AND TIME_LEAST_MASK = 0
      then cascade chk ?t1 (drop_bit TIME_LEAST_SHIFT (time t + 1)) 0 else Some ?t1) = Some t2"
    and w: "wake (t2\<lparr>least := (least t2)(i := [])\<rparr>) (least t2 i) = Some (t', ws)"
    by (auto simp: tick_def add_u64_def Let_def split: if_split_asm option.splits)
  then have "time t2 = time t + 1" by (auto split: if_splits dest: cascade_time)
  with wake_time [OF w] show ?thesis by simp
qed

function update :: "bool \<Rightarrow> 's timer \<Rightarrow> u64 \<Rightarrow> ('s timer \<times> 's list) option" where
  "update chk t now =
    (if time t < now then
       (case tick chk t of None \<Rightarrow> None
        | Some (t', ws) \<Rightarrow>
            (case update chk t' now of None \<Rightarrow> None | Some (t'', ws') \<Rightarrow> Some (t'', ws @ ws')))
     else Some (t, []))"
  by pat_completeness auto
termination
proof (relation "measure (\<lambda>(chk, t, now). unat now - unat (time t))")
  fix chk and t :: "'s timer" and now x t' ws
  assume lt: "time t < now" and "tick chk t = Some x" and "(t', ws) = x"
  then have "time t' = time t + 1" using tick_time by blast
  moreover have "unat (time t + 1) = unat (time t) + 1"
    using lt unat_u64_Suc by (simp add: word_less_nat_alt)
  ultimately show "((chk, t', now), (chk, t, now)) \<in> measure (\<lambda>(chk, t, now). unat now - unat (time t))"
    using lt by (simp add: word_less_nat_alt)
qed simp

declare update.simps [simp del]

definition timeout :: "bool \<Rightarrow> 's timer \<Rightarrow> u64 \<Rightarrow> 's \<Rightarrow> 's timer option" where
  "timeout chk t d s =
    (let (n, t1) = new_node t in
     case add_u64 chk (time t1) d of None \<Rightarrow> None | Some e \<Rightarrow>
     queue_node chk t1 (n\<lparr>expire := e, node_session := Some s\<rparr>))"

section \<open>The timer task and its messages\<close>

datatype 's message = Timeout u64 's | UpdateTime u64 | Stop

text \<open>
  \<open>timer\<close> folds the messages it receives; \<open>Stop\<close> closes the receiver, after which the messages
  already buffered are still delivered, so the fold goes on over them.
\<close>

fun timer_msg :: "bool \<Rightarrow> 's timer \<Rightarrow> 's message \<Rightarrow> ('s timer \<times> 's list) option" where
  "timer_msg chk t (Timeout d s) =
    (case add_u64 chk d 1 of None \<Rightarrow> None
     | Some d' \<Rightarrow> map_option (\<lambda>t'. (t', [])) (timeout chk t d' s))"
| "timer_msg chk t (UpdateTime now) = update chk t now"
| "timer_msg chk t Stop = Some (t, [])"

fun timer_run :: "bool \<Rightarrow> 's timer \<Rightarrow> 's message list \<Rightarrow> ('s timer \<times> 's list) option" where
  "timer_run chk t [] = Some (t, [])"
| "timer_run chk t (m # ms) = (case timer_msg chk t m of None \<Rightarrow> None
    | Some (t', ws) \<Rightarrow> map_option (\<lambda>(t'', ws'). (t'', ws @ ws')) (timer_run chk t' ms))"

text \<open>
  \<open>sleep\<close> turns a duration, given here as its number of milliseconds (\<open>as_millis\<close>, a \<open>u128\<close>),
  into a message, or yields (\<open>None\<close>) when the truncated value is 0.
\<close>

definition sleep_request :: "nat \<Rightarrow> 's \<Rightarrow> 's message option" where
  "sleep_request as_millis s =
    (let millis = (of_nat as_millis :: u64) in if millis = 0 then None else Some (Timeout millis s))"

text \<open>
  \<open>tickr\<close> after one sleep: it has the elapsed milliseconds, sends them if they grew and adds
  them to the seed \<open>RAND\<close>.
\<close>

definition tickr_step :: "u64 \<Rightarrow> u64 \<Rightarrow> u64 \<Rightarrow> u64 \<times> u64 \<times> 's message option" where
  "tickr_step tm rand elapsed =
    (if elapsed > tm then (elapsed, elapsed + rand, Some (UpdateTime elapsed)) else (tm, rand, None))"

text \<open>\<open>init_rand\<close> adds the milliseconds of both clocks to the seed.\<close>

definition init_rand :: "nat \<Rightarrow> nat \<Rightarrow> u64 \<Rightarrow> u64" where
  "init_rand now epoch rand = of_nat now + of_nat epoch + rand"

end
