(* ===== verification/Timer_Correct.thy ===== *)
theory Timer_Correct
  imports Timer
begin

text \<open>
  The wheel invariant of the timer and what follows from it: every operation succeeds in both
  build profiles, keeps every pending node in the slot the time will reach in time, and a tick
  wakes exactly the sessions that expire at it. The abstract timer is a clock and a multiset of
  (expiry, session) pairs; the wheel refines it.
\<close>

section \<open>Digits of the clock\<close>

definition upper :: "nat \<Rightarrow> nat \<Rightarrow> nat" where
  "upper l x = x div 2 ^ (14 + 10 * l)"

lemma upper_Suc: "upper (Suc l) x = upper l x div 1024"
  by (simp add: upper_def div_mult2_eq [symmetric] power_add)

lemma upper_mono: "x \<le> y \<Longrightarrow> upper l x \<le> upper l y"
  by (simp add: upper_def div_le_mono)

lemma upper_tick:
  "upper l (Suc x) = (if 2 ^ (14 + 10 * l) dvd Suc x then Suc (upper l x) else upper l x)"
  by (simp add: upper_def div_Suc mod_eq_0_iff_dvd)

lemma dvd_level_mono: "k \<le> l \<Longrightarrow> (2::nat) ^ (14 + 10 * l) dvd x \<Longrightarrow> 2 ^ (14 + 10 * k) dvd x"
  by (rule dvd_trans [OF le_imp_power_dvd]) auto

lemma upper_dvd:
  assumes "2 ^ (14 + 10 * l) dvd x"
  shows "upper l x mod 1024 = 0 \<longleftrightarrow> (2::nat) ^ (14 + 10 * Suc l) dvd x"
proof -
  from assms obtain q where x: "x = 2 ^ (14 + 10 * l) * q" by (rule dvdE)
  have "(2::nat) ^ (14 + 10 * Suc l) = 2 ^ (14 + 10 * l) * 1024" by (simp add: power_add)
  then show ?thesis by (simp add: x upper_def mod_eq_0_iff_dvd)
qed

lemma upper_less_imp: "upper l x < upper l y \<Longrightarrow> x < y"
  by (metis leD leI upper_mono)

lemmas time_consts = TIME_LEAST_SHIFT_def TIME_LEAST_VALUE_def TIME_LEAST_MASK_def
  TIME_LEVEL_COUNT_def TIME_LEVEL_SHIFT_def TIME_LEVEL_VALUE_def TIME_LEVEL_MASK_def

lemma mask_least: "TIME_LEAST_MASK = mask 14"
  by (simp add: time_consts mask_eq_exp_minus_1)

lemma mask_level: "TIME_LEVEL_MASK = mask 10"
  by (simp add: time_consts mask_eq_exp_minus_1)

lemma unat_least_mask: "unat (x AND TIME_LEAST_MASK) = unat x mod 2 ^ 14"
  unfolding mask_least by (rule unat_and_mask)

lemma unat_level_mask: "unat (x AND TIME_LEVEL_MASK) = unat x mod 1024"
  unfolding mask_level by (subst unat_and_mask) simp

lemma unat_digit:
  "unat (drop_bit (TIME_LEAST_SHIFT + l * TIME_LEVEL_SHIFT) x AND TIME_LEVEL_MASK) = upper l (unat x) mod 1024"
  by (subst unat_level_mask)
    (simp add: unat_drop upper_def TIME_LEAST_SHIFT_def TIME_LEVEL_SHIFT_def mult.commute)

section \<open>The wheel invariant\<close>

text \<open>
  Where a node that expires at \<open>e\<close> may be while the clock shows \<open>now\<close>. In \<open>level l\<close> the node
  agrees with the clock above digit \<open>l\<close> and is ahead of it at digit \<open>l\<close>.
\<close>

definition least_place :: "nat \<Rightarrow> nat \<Rightarrow> nat \<Rightarrow> bool" where
  "least_place now i e \<longleftrightarrow> now \<le> e \<and> e < now + 2 ^ 14 \<and> e mod 2 ^ 14 = i"

definition level_place :: "nat \<Rightarrow> nat \<Rightarrow> nat \<Rightarrow> nat \<Rightarrow> bool" where
  "level_place now l i e \<longleftrightarrow>
     upper (Suc l) e = upper (Suc l) now \<and> upper l now < upper l e \<and> upper l e mod 1024 = Suc i"

definition horizon :: nat where "horizon = 2 ^ 54"

definition node_ok :: "'s node \<Rightarrow> bool" where
  "node_ok n \<longleftrightarrow> node_session n \<noteq> None \<and> unat (expire n) < horizon"

definition placed :: "nat \<Rightarrow> 's timer \<Rightarrow> bool" where
  "placed now t \<longleftrightarrow>
     (\<forall>i<2 ^ 14. \<forall>n\<in>set (least t i). node_ok n \<and> least_place now i (unat (expire n))) \<and>
     (\<forall>l<5. \<forall>i<1024. \<forall>n\<in>set (level t l i). node_ok n \<and> level_place now l i (unat (expire n)))"

definition level_nodes :: "(nat \<Rightarrow> 's node list) \<Rightarrow> 's node multiset" where
  "level_nodes f = (\<Sum>i<1024. mset (f i))"

definition wheel :: "'s timer \<Rightarrow> 's node multiset" where
  "wheel t = (\<Sum>i<2 ^ 14. mset (least t i)) + (\<Sum>l<5. level_nodes (level t l))"

definition wheel_ok :: "'s timer \<Rightarrow> bool" where
  "wheel_ok t \<longleftrightarrow> placed (unat (time t)) t \<and> (\<forall>n\<in>#wheel t. time t < expire n)"

subsection \<open>The contents of the wheel\<close>

lemma sum_update_at:
  fixes g :: "nat \<Rightarrow> 'b :: comm_monoid_add"
  assumes "l < k"
  shows "(\<Sum>j<k. (g(l := x)) j) + g l = (\<Sum>j<k. g j) + x"
proof -
  have fin: "finite {..<k}" "l \<in> {..<k}" using assms by auto
  have "(\<Sum>j\<in>{..<k} - {l}. (g(l := x)) j) = (\<Sum>j\<in>{..<k} - {l}. g j)"
    by (rule sum.cong) auto
  then show ?thesis
    using sum.remove [OF fin, of "g(l := x)"] sum.remove [OF fin, of g]
    by (simp add: ac_simps)
qed

lemma swap_contents:
  fixes a :: "'a multiset"
  assumes "b + c = d + e" and "e + m = c + x"
  shows "a + b + m = a + d + x"
proof -
  have "(b + m) + c = (b + c) + m" by (simp add: ac_simps)
  also have "\<dots> = d + (e + m)" by (simp add: assms(1) ac_simps)
  also have "\<dots> = (d + x) + c" by (simp add: assms(2) ac_simps)
  finally show ?thesis by (simp add: add.assoc)
qed

lemma wheel_least:
  assumes "i < 2 ^ 14"
  shows "wheel (t\<lparr>least := (least t)(i := xs)\<rparr>) + mset (least t i) = wheel t + mset xs"
  using sum_mset_update [OF assms, of "least t" xs] by (simp add: wheel_def ac_simps)

lemma wheel_level:
  assumes "l < 5" and "i < 1024"
  shows "wheel (t\<lparr>level := (level t)(l := (level t l)(i := xs))\<rparr>) + mset (level t l i) = wheel t + mset xs"
proof -
  let ?f = "(level t l)(i := xs)"
  have eq: "level_nodes (((level t)(l := ?f)) j) = ((\<lambda>j. level_nodes (level t j))(l := level_nodes ?f)) j" for j
    by auto
  have "(\<Sum>j<5. level_nodes (((level t)(l := ?f)) j)) + level_nodes (level t l)
      = (\<Sum>j<5. level_nodes (level t j)) + level_nodes ?f"
    unfolding eq by (rule sum_update_at [OF assms(1)])
  moreover have "level_nodes ?f + mset (level t l i) = level_nodes (level t l) + mset xs"
    unfolding level_nodes_def by (rule sum_mset_update [OF assms(2)])
  ultimately show ?thesis
    unfolding wheel_def by (subst swap_contents) simp_all
qed

lemma wheel_time [simp]: "wheel (t\<lparr>time := x\<rparr>) = wheel t"
  by (simp add: wheel_def)

lemma wheel_nodes [simp]: "wheel (t\<lparr>nodes := x\<rparr>) = wheel t"
  by (simp add: wheel_def)

lemma placed_time [simp]: "placed now (t\<lparr>time := x\<rparr>) = placed now t"
  by (simp add: placed_def)

lemma placed_nodes [simp]: "placed now (t\<lparr>nodes := x\<rparr>) = placed now t"
  by (simp add: placed_def)

lemma in_wheel:
  "n \<in># wheel t \<longleftrightarrow> (\<exists>i<2 ^ 14. n \<in> set (least t i)) \<or> (\<exists>l<5. \<exists>i<1024. n \<in> set (level t l i))"
  by (auto simp: wheel_def level_nodes_def set_mset_sum)


section \<open>Queueing a node\<close>

definition queued :: "'s timer \<Rightarrow> 's node \<Rightarrow> 's timer \<Rightarrow> bool" where
  "queued t n t' \<longleftrightarrow> wheel t' = add_mset n (wheel t) \<and> time t' = time t \<and> nodes t' = nodes t \<and>
     (placed (unat (time t)) t \<longrightarrow> placed (unat (time t)) t')"

lemma insert_least_ok:
  assumes "node_ok n" and "least_place (unat (time t)) i (unat (expire n))"
  shows "\<exists>t'. insert_least i n t = Some t' \<and> queued t n t'"
proof -
  have i: "i < 2 ^ 14" using assms(2) by (auto simp: least_place_def)
  have "wheel (t\<lparr>least := (least t)(i := least t i @ [n])\<rparr>) = add_mset n (wheel t)"
    using wheel_least [OF i, of t "least t i @ [n]"] by simp
  then show ?thesis
    using i assms by (auto simp: insert_least_def list_insert_def queued_def placed_def TIME_LEAST_SHIFT_def)
qed

lemma insert_level_ok:
  assumes "node_ok n" and "level_place (unat (time t)) l i (unat (expire n))" and "l < 5"
  shows "\<exists>t'. insert_level l i n t = Some t' \<and> queued t n t'"
proof -
  have "upper l (unat (expire n)) mod 1024 = Suc i" using assms(2) by (simp add: level_place_def)
  then have i: "i < 1024" using mod_less_divisor [of 1024 "upper l (unat (expire n))"] by linarith
  have "wheel (t\<lparr>level := (level t)(l := (level t l)(i := level t l i @ [n]))\<rparr>) = add_mset n (wheel t)"
    using wheel_level [OF assms(3) i, of t "level t l i @ [n]"] by simp
  then show ?thesis
    using i assms by (auto simp: insert_level_def list_insert_def queued_def placed_def
        TIME_LEVEL_COUNT_def TIME_LEVEL_SHIFT_def)
qed

lemma level_shift:
  assumes "lv < 4"
  shows "push_bit TIME_LEVEL_SHIFT (push_bit (14 + 10 * lv) 1 :: u64) = push_bit (14 + 10 * Suc lv) 1"
    and "sub_u64 chk (push_bit (14 + 10 * Suc lv) 1) 1 = Some (mask (14 + 10 * Suc lv) :: u64)"
proof -
  show "push_bit TIME_LEVEL_SHIFT (push_bit (14 + 10 * lv) 1 :: u64) = push_bit (14 + 10 * Suc lv) 1"
  proof -
    have "10 + (14 + 10 * lv) = 14 + 10 * Suc lv" by simp
    then show ?thesis by (simp only: TIME_LEVEL_SHIFT_def push_bit_push_bit)
  qed
  have "(14::nat) + 10 * Suc lv < 64" using assms by simp
  then have "(push_bit (14 + 10 * Suc lv) 1 :: u64) \<noteq> 0" by simp
  then show "sub_u64 chk (push_bit (14 + 10 * Suc lv) 1) 1 = Some (mask (14 + 10 * Suc lv) :: u64)"
    unfolding sub_u64_def mask_eq_exp_minus_1 by (simp add: unat_eq_zero)
qed

text \<open>
  The search for the level: it starts at a level below which the node is ahead of the clock and
  stops at the first level above which the two agree.
\<close>

lemma queue_level_ok:
  assumes "upper lv (unat (time t)) < upper lv (unat (expire n))"
    and "node_ok n" and "lv < 4" and "unat (time t) < horizon"
  shows "\<exists>t'. queue_level chk t n lv (push_bit (14 + 10 * lv) 1) = Some t' \<and> queued t n t'"
  using assms
proof (induction "4 - lv" arbitrary: lv)
  case 0
  then show ?case by simp
next
  case (Suc k)
  let ?now = "unat (time t)" and ?e = "unat (expire n)"
  let ?m = "mask (14 + 10 * Suc lv) :: u64"
  have agree: "expire n OR ?m = time t OR ?m \<longleftrightarrow> upper (Suc lv) ?e = upper (Suc lv) ?now"
    by (simp only: or_mask_eq_iff upper_def)
  show ?case
  proof (cases "upper (Suc lv) ?e = upper (Suc lv) ?now")
    case True
    let ?v = "drop_bit (TIME_LEAST_SHIFT + lv * TIME_LEVEL_SHIFT) (expire n) AND TIME_LEVEL_MASK"
    have "upper lv ?e = upper (Suc lv) ?e * 1024 + upper lv ?e mod 1024"
      and "upper lv ?now = upper (Suc lv) ?now * 1024 + upper lv ?now mod 1024"
      by (simp_all add: upper_Suc)
    with True Suc.prems(1) have pos: "0 < upper lv ?e mod 1024" by linarith
    then have v: "unat ?v = upper lv ?e mod 1024" "0 < unat ?v" by (simp_all add: unat_digit)
    then have sub: "sub_u64 chk ?v 1 = Some (?v - 1)" "unat (?v - 1) = unat ?v - 1"
      using sub_u64_no_underflow [of 1 ?v chk] by simp_all
    have "level_place ?now lv (unat (?v - 1)) ?e"
      using True Suc.prems(1) v sub by (simp add: level_place_def)
    then obtain t' where "insert_level lv (unat (?v - 1)) n t = Some t'" "queued t n t'"
      using insert_level_ok Suc.prems by force
    then show ?thesis
      using Suc.prems(3) True by (subst queue_level.simps)
        (simp only: Let_def level_shift option.case agree if_True sub, simp)
  next
    case False
    have "upper (Suc lv) ?now < upper (Suc lv) ?e"
      using False Suc.prems(1) by (metis le_neq_implies_less less_imp_le upper_mono upper_less_imp)
    moreover have "Suc lv < 4"
    proof (rule ccontr)
      assume "\<not> Suc lv < 4"
      with Suc.prems(3) have "lv = 3" by simp
      then have "upper (Suc lv) ?e = 0" "upper (Suc lv) ?now = 0"
        using Suc.prems(2,4) by (simp_all add: upper_def horizon_def node_ok_def)
      with False show False by simp
    qed
    moreover have "k = 4 - Suc lv" using Suc.hyps(2) by simp
    ultimately obtain t' where
      "queue_level chk t n (Suc lv) (push_bit (14 + 10 * Suc lv) 1) = Some t'" "queued t n t'"
      using Suc.hyps(1) Suc.prems(2,4) by blast
    then show ?thesis
      using Suc.prems(3) False by (subst queue_level.simps)
        (simp only: Let_def level_shift option.case agree if_False, simp add: TIME_LEVEL_COUNT_def)
  qed
qed

lemma queue_node_ok:
  assumes "time t \<le> expire n" and "node_ok n"
  shows "\<exists>t'. queue_node chk t n = Some t' \<and> queued t n t'"
proof -
  let ?now = "unat (time t)" and ?e = "unat (expire n)"
  have le: "?now \<le> ?e" using assms(1) by (simp add: word_le_nat_alt)
  then have d: "sub_u64 chk (expire n) (time t) = Some (expire n - time t)"
    "unat (expire n - time t) = ?e - ?now"
    using sub_u64_no_underflow by blast+
  have least_value: "unat TIME_LEAST_VALUE = 2 ^ 14" by (simp add: time_consts)
  show ?thesis
  proof (cases "?e - ?now < 2 ^ 14")
    case True
    then have "expire n - time t < TIME_LEAST_VALUE"
      by (simp add: word_less_nat_alt d(2) least_value)
    moreover have "least_place ?now (unat (expire n AND TIME_LEAST_MASK)) ?e"
      using True le by (simp add: least_place_def unat_least_mask)
    ultimately show ?thesis
      using insert_least_ok [OF assms(2)] by (simp add: queue_node_def d(1))
  next
    case False
    then have not_less: "\<not> expire n - time t < TIME_LEAST_VALUE"
      by (simp add: word_less_nat_alt d(2) least_value)
    have "upper 0 ?now < upper 0 ?e"
    proof -
      have "?now + 2 ^ 14 \<le> ?e" using False by simp
      then have "(?now + 2 ^ 14) div 2 ^ 14 \<le> ?e div 2 ^ 14" by (rule div_le_mono)
      then show ?thesis by (simp add: upper_def)
    qed
    moreover have "?now < horizon" using le assms(2) by (simp add: node_ok_def)
    ultimately have "\<exists>t'. queue_level chk t n 0 (push_bit (14 + 10 * 0) 1) = Some t' \<and> queued t n t'"
      using assms(2) by (intro queue_level_ok) auto
    then show ?thesis using not_less by (simp add: queue_node_def d(1) TIME_LEAST_SHIFT_def)
  qed
qed

lemma queue_list_ok:
  assumes "\<forall>n\<in>set l. time t \<le> expire n \<and> node_ok n" and "placed (unat (time t)) t"
  shows "\<exists>t'. queue_list chk t l = Some t' \<and> wheel t' = wheel t + mset l \<and> time t' = time t \<and>
    nodes t' = nodes t \<and> placed (unat (time t)) t'"
  using assms
proof (induction l arbitrary: t)
  case (Cons n l)
  then obtain t1 where t1: "queue_node chk t n = Some t1" "queued t n t1"
    using queue_node_ok by (metis list.set_intros(1))
  with Cons show ?case
    using Cons.IH [of t1] by (auto simp: queued_def)
qed simp


section \<open>A tick\<close>

text \<open>
  The clock moves from \<open>x\<close> to \<open>Suc x\<close>; \<open>k\<close> is the level of the lowest non-zero digit of the new
  time. A node stays well placed unless it is in the slot of that digit at that level.
\<close>

lemma level_place_lower_empty:
  assumes p: "level_place x l i e" and d: "2 ^ (14 + 10 * Suc l) dvd Suc x"
  shows False
proof -
  have d': "2 ^ (14 + 10 * l) dvd Suc x" using d by (rule dvd_level_mono [rotated]) simp
  have "upper (Suc l) (Suc x) = Suc (upper (Suc l) x)" using d by (simp only: upper_tick if_True)
  moreover have "upper l (Suc x) \<le> upper l e"
    using p d' by (simp only: upper_tick if_True level_place_def) linarith
  then have "upper (Suc l) (Suc x) \<le> upper (Suc l) e" unfolding upper_Suc by (rule div_le_mono)
  ultimately show False using p by (simp add: level_place_def)
qed

lemma level_place_tick:
  assumes p: "level_place x l i e"
    and d: "2 ^ (14 + 10 * k) dvd Suc x" and nd: "\<not> 2 ^ (14 + 10 * Suc k) dvd Suc x"
  shows "level_place (Suc x) l i e \<or> l = k \<and> Suc i = upper k (Suc x) mod 1024"
    and "Suc x \<le> e"
proof -
  have e: "Suc x \<le> e" using p by (meson Suc_leI level_place_def upper_less_imp)
  then show "Suc x \<le> e" .
  have above: "upper m (Suc x) = upper m x" if "k < m" for m
    using nd that dvd_level_mono [of "Suc k" m "Suc x"] by (simp only: upper_tick Suc_leI) auto
  consider "l < k" | "l = k" | "k < l" by linarith
  then show "level_place (Suc x) l i e \<or> l = k \<and> Suc i = upper k (Suc x) mod 1024"
  proof cases
    case 1
    then have "2 ^ (14 + 10 * Suc l) dvd Suc x" using d dvd_level_mono [of "Suc l" k] by simp
    then show ?thesis using level_place_lower_empty [OF p] by simp
  next
    case 2
    have "upper k (Suc x) = Suc (upper k x)" using d by (simp only: upper_tick if_True)
    then show ?thesis using p 2 above [of "Suc k"]
      by (cases "upper k e = Suc (upper k x)") (auto simp: level_place_def)
  next
    case 3
    then show ?thesis using p above [of l] above [of "Suc l"] by (simp add: level_place_def)
  qed
qed

lemma placed_no_cascade:
  assumes "placed x t" and "\<forall>n\<in>#wheel t. x < unat (expire n)" and "\<not> 2 ^ 14 dvd Suc x"
  shows "placed (Suc x) t"
proof -
  have "\<not> 2 ^ (14 + 10 * l) dvd Suc x" for l
    using assms(3) dvd_level_mono [of 0 l "Suc x"] by auto
  then have "upper l (Suc x) = upper l x" for l by (simp only: upper_tick if_False)
  then have "level_place x l i e \<Longrightarrow> level_place (Suc x) l i e" for l i e
    by (simp add: level_place_def)
  moreover have "least_place x i e \<Longrightarrow> x < e \<Longrightarrow> least_place (Suc x) i e" for i e
    by (simp add: least_place_def)
  moreover have "n \<in># wheel t" if "i < 2 ^ 14" "n \<in> set (least t i)" for i n
    using that by (auto simp: in_wheel)
  ultimately show ?thesis using assms(1,2) unfolding placed_def by blast
qed

lemma cascade_slot:
  assumes p: "placed x t" and later: "\<forall>n\<in>#wheel t. x < unat (expire n)"
    and now: "unat (time t) = Suc x" and lv: "lv < 5"
    and d: "2 ^ (14 + 10 * lv) dvd Suc x" and nz: "upper lv (Suc x) mod 1024 = Suc i"
  shows "\<exists>t'. queue_list chk (t\<lparr>level := (level t)(lv := (level t lv)(i := []))\<rparr>) (level t lv i) = Some t' \<and>
    wheel t' = wheel t \<and> time t' = time t \<and> nodes t' = nodes t \<and> placed (Suc x) t'"
proof -
  let ?t1 = "t\<lparr>level := (level t)(lv := (level t lv)(i := []))\<rparr>"
  have i: "i < 1024" using nz mod_less_divisor [of 1024 "upper lv (Suc x)"] by linarith
  have nd: "\<not> 2 ^ (14 + 10 * Suc lv) dvd Suc x" using upper_dvd [OF d] nz by simp
  note lev = level_place_tick [OF _ d nd]
  have w: "wheel ?t1 + mset (level t lv i) = wheel t"
    using wheel_level [OF lv i, of t "[]"] by simp
  have in_slot: "\<forall>n\<in>set (level t lv i). time ?t1 \<le> expire n \<and> node_ok n"
  proof
    fix n assume n: "n \<in> set (level t lv i)"
    then have "node_ok n" "level_place x lv i (unat (expire n))"
      using p lv i by (auto simp: placed_def)
    then show "time ?t1 \<le> expire n \<and> node_ok n"
      using lev(2) by (simp add: word_le_nat_alt now)
  qed
  have least: "least_place (Suc x) j (unat (expire n)) \<and> node_ok n"
    if "j < 2 ^ 14" "n \<in> set (least t j)" for j n
  proof -
    from that have "n \<in># wheel t" by (auto simp: in_wheel)
    with later have "x < unat (expire n)" by blast
    moreover have "node_ok n" "least_place x j (unat (expire n))"
      using p that by (auto simp: placed_def)
    ultimately show ?thesis by (simp add: least_place_def)
  qed
  have "level_place (Suc x) l j (unat (expire n)) \<and> node_ok n"
    if "l < 5" "j < 1024" "n \<in> set (level ?t1 l j)" for l j n
  proof -
    have n: "n \<in> set (level t l j)" and ne: "\<not> (l = lv \<and> j = i)"
      using that(3) by (auto split: if_splits)
    from n p that(1,2) have "level_place x l j (unat (expire n))" "node_ok n"
      by (auto simp: placed_def)
    with lev(1) ne nz show ?thesis by fastforce
  qed
  with least have "placed (unat (time ?t1)) ?t1" by (auto simp: placed_def now)
  from queue_list_ok [OF in_slot this] w now show ?thesis by auto
qed

lemma cascade_ok:
  assumes p: "placed x t" and later: "\<forall>n\<in>#wheel t. x < unat (expire n)"
    and now: "unat (time t) = Suc x"
    and lv: "lv < 5" and d: "2 ^ (14 + 10 * lv) dvd Suc x"
  shows "\<exists>t'. cascade chk t (drop_bit (14 + 10 * lv) (time t)) lv = Some t' \<and>
    wheel t' = wheel t \<and> time t' = time t \<and> nodes t' = nodes t \<and> placed (Suc x) t'"
  using lv d
proof (induction "5 - lv" arbitrary: lv)
  case (Suc k)
  let ?v = "drop_bit (14 + 10 * lv) (time t) AND TIME_LEVEL_MASK"
  have v: "unat ?v = upper lv (Suc x) mod 1024"
    by (simp only: unat_level_mask unat_drop upper_def now)
  show ?case
  proof (cases "upper lv (Suc x) mod 1024")
    case 0
    then have dvd: "2 ^ (14 + 10 * Suc lv) dvd Suc x" using upper_dvd [OF Suc.prems(2)] by simp
    have "Suc lv < 5"
    proof (rule ccontr)
      assume "\<not> Suc lv < 5"
      with Suc.prems(1) have "lv = 4" by simp
      with dvd have "2 ^ 64 dvd Suc x" by simp
      then have "2 ^ 64 \<le> Suc x" by (rule dvd_imp_le) simp
      then show False using unat_u64_lt [of "time t"] now by simp
    qed
    moreover have "?v = 0" using v 0 by (simp add: unat_eq_0)
    moreover have "drop_bit TIME_LEVEL_SHIFT (drop_bit (14 + 10 * lv) (time t)) =
        drop_bit (14 + 10 * Suc lv) (time t)"
    proof -
      have "10 + (14 + 10 * lv) = 14 + 10 * Suc lv" by simp
      then show ?thesis by (simp only: TIME_LEVEL_SHIFT_def drop_bit_drop_bit)
    qed
    moreover have "k = 5 - Suc lv" using Suc.hyps(2) by simp
    then have "\<exists>t'. cascade chk t (drop_bit (14 + 10 * Suc lv) (time t)) (Suc lv) = Some t' \<and>
        wheel t' = wheel t \<and> time t' = time t \<and> nodes t' = nodes t \<and> placed (Suc x) t'"
      using Suc.hyps(1) dvd \<open>Suc lv < 5\<close> by blast
    ultimately show ?thesis
      by (subst cascade.simps) (simp only: Let_def, simp add: TIME_LEVEL_COUNT_def)
  next
    case (Suc i)
    then have "?v \<noteq> 0" and sub: "sub_u64 chk ?v 1 = Some (?v - 1)" "unat (?v - 1) = i"
      using v sub_u64_no_underflow [of 1 ?v chk] by auto
    moreover have "i < 1024"
      using Suc mod_less_divisor [of 1024 "upper lv (Suc x)"] by linarith
    ultimately show ?thesis
      using cascade_slot [OF p later now Suc.prems(1,2) Suc] Suc.prems(1)
      by (subst cascade.simps) (simp only: Let_def, simp add: TIME_LEVEL_COUNT_def TIME_LEVEL_SHIFT_def)
  qed
qed simp


lemma wake_ok:
  assumes "\<forall>n\<in>set l. node_session n \<noteq> None"
  shows "\<exists>t'. wake t l = Some (t', map (\<lambda>n. the (node_session n)) l) \<and> time t' = time t \<and>
    least t' = least t \<and> level t' = level t"
  using assms
proof (induction l arbitrary: t)
  case (Cons n l)
  then obtain s where s: "node_session n = Some s" by auto
  with Cons.IH [of "free_node (n\<lparr>expire := 0\<rparr>) t"] Cons.prems show ?case
    by (auto simp: node_wake_def free_node_def)
qed simp

definition due :: "nat \<Rightarrow> 's timer \<Rightarrow> 's node multiset" where
  "due x t = filter_mset (\<lambda>n. unat (expire n) = x) (wheel t)"

lemma least_slot_due:
  assumes p: "placed x t"
  shows "mset (least t (x mod 2 ^ 14)) = due x t"
    and "\<forall>n\<in>#wheel (t\<lparr>least := (least t)(x mod 2 ^ 14 := [])\<rparr>). x < unat (expire n)"
proof -
  let ?i = "x mod 2 ^ 14" and ?t = "t\<lparr>least := (least t)(x mod 2 ^ 14 := [])\<rparr>"
  have i: "?i < 2 ^ 14" by simp
  have w: "wheel ?t + mset (least t ?i) = wheel t" using wheel_least [OF i, of t "[]"] by simp
  have slot: "unat (expire n) = x" if "n \<in> set (least t ?i)" for n
  proof -
    have "least_place x ?i (unat (expire n))" using p i that unfolding placed_def by blast
    then have "x \<le> unat (expire n)" "unat (expire n) < x + 2 ^ 14" "unat (expire n) mod 2 ^ 14 = x mod 2 ^ 14"
      by (simp_all only: least_place_def)
    then show ?thesis
      by (metis add_diff_inverse_nat add_less_cancel_left leD mod_eq_dvd_iff_nat nat_dvd_not_less
          zero_less_diff le_neq_implies_less)
  qed
  have rest: "x < unat (expire n)" if "n \<in># wheel ?t" for n
  proof -
    from that consider j where "j < 2 ^ 14" "j \<noteq> ?i" "n \<in> set (least t j)"
      | l j where "l < 5" "j < 1024" "n \<in> set (level t l j)"
      by (auto simp: in_wheel split: if_splits)
    then show ?thesis
    proof cases
      case 1
      then have "least_place x j (unat (expire n))" using p unfolding placed_def by blast
      with 1(2) show ?thesis by (auto simp: least_place_def le_less)
    next
      case 2
      then have "level_place x l j (unat (expire n))" using p unfolding placed_def by blast
      then show ?thesis by (meson level_place_def upper_less_imp)
    qed
  qed
  show "\<forall>n\<in>#wheel ?t. x < unat (expire n)" using rest by blast
  have "due x t = filter_mset (\<lambda>n. unat (expire n) = x) (wheel ?t) +
      filter_mset (\<lambda>n. unat (expire n) = x) (mset (least t ?i))"
    unfolding due_def by (simp only: w [symmetric] filter_union_mset)
  moreover have "filter_mset (\<lambda>n. unat (expire n) = x) (wheel ?t) = {#}"
    using rest by (auto simp: filter_mset_eq_conv)
  moreover have "filter_mset (\<lambda>n. unat (expire n) = x) (mset (least t ?i)) = mset (least t ?i)"
    using slot by (simp add: filter_mset_eq_conv)
  ultimately show "mset (least t ?i) = due x t" by simp
qed

lemma placed_clear_least: "placed x t \<Longrightarrow> placed x (t\<lparr>least := (least t)(i := [])\<rparr>)"
  by (auto simp: placed_def)

lemma placed_cong: "least t' = least t \<Longrightarrow> level t' = level t \<Longrightarrow> placed x t' = placed x t"
  by (simp add: placed_def)

lemma wheel_cong: "least t' = least t \<Longrightarrow> level t' = level t \<Longrightarrow> wheel t' = wheel t"
  by (simp add: wheel_def)

lemma tick_ok:
  assumes ok: "wheel_ok t" and bound: "Suc (unat (time t)) < 2 ^ 64"
  shows "\<exists>t' ws. tick chk t = Some (t', ws) \<and> wheel_ok t' \<and> unat (time t') = Suc (unat (time t)) \<and>
    wheel t = wheel t' + due (Suc (unat (time t))) t \<and>
    mset ws = image_mset (\<lambda>n. the (node_session n)) (due (Suc (unat (time t))) t)"
proof -
  let ?x = "unat (time t)" and ?now = "time t + 1"
  let ?t1 = "t\<lparr>time := ?now\<rparr>"
  have now: "add_u64 chk (time t) 1 = Some ?now" "unat ?now = Suc ?x"
    using add_u64_no_overflow [of "time t" 1 chk] bound by simp_all
  have p: "placed ?x ?t1" and later: "\<forall>n\<in>#wheel ?t1. ?x < unat (expire n)"
    using ok by (simp_all add: wheel_ok_def word_less_nat_alt)
  have now_idx: "unat (?now AND TIME_LEAST_MASK) = Suc ?x mod 2 ^ 14"
    by (simp only: unat_least_mask now)
  have zero: "?now AND TIME_LEAST_MASK = 0 \<longleftrightarrow> 2 ^ 14 dvd Suc ?x"
    using now_idx by (simp add: unat_eq_0 [symmetric] dvd_eq_mod_eq_0)
  obtain t2 where t2: "(if ?now AND TIME_LEAST_MASK = 0
      then cascade chk ?t1 (drop_bit TIME_LEAST_SHIFT ?now) 0 else Some ?t1) = Some t2"
    and w2: "wheel t2 = wheel t" and p2: "placed (Suc ?x) t2" and time2: "time t2 = ?now"
  proof (cases "2 ^ 14 dvd Suc ?x")
    case True
    then have "\<exists>t'. cascade chk ?t1 (drop_bit (14 + 10 * 0) (time ?t1)) 0 = Some t' \<and>
      wheel t' = wheel ?t1 \<and> time t' = time ?t1 \<and> nodes t' = nodes ?t1 \<and> placed (Suc ?x) t'"
      by (intro cascade_ok [OF p later]) (simp_all add: now)
    then show ?thesis using that zero True by (auto simp: TIME_LEAST_SHIFT_def)
  next
    case False
    have "placed (Suc ?x) ?t1" using placed_no_cascade [OF p later False] .
    then show ?thesis using that [of ?t1] zero False by simp
  qed
  let ?i = "Suc ?x mod 2 ^ 14"
  let ?t3 = "t2\<lparr>least := (least t2)(?i := [])\<rparr>"
  note slot = least_slot_due [OF p2]
  have "?i < 2 ^ 14" by simp
  then have sess: "\<forall>n\<in>set (least t2 ?i). node_session n \<noteq> None"
    using p2 unfolding placed_def node_ok_def by blast
  obtain t' where t': "wake ?t3 (least t2 ?i) = Some (t', map (\<lambda>n. the (node_session n)) (least t2 ?i))"
    "time t' = ?now" "least t' = least ?t3" "level t' = level ?t3"
    using wake_ok [OF sess, of ?t3] time2 by auto
  have "placed (Suc ?x) t'"
    using placed_clear_least [OF p2] placed_cong [OF t'(3,4)] by simp
  moreover have w': "wheel t' = wheel ?t3" by (rule wheel_cong [OF t'(3,4)])
  ultimately have "wheel_ok t'"
    using slot(2) by (simp add: wheel_ok_def t'(2) now word_less_nat_alt)
  moreover have "wheel t = wheel t' + due (Suc ?x) t"
  proof -
    have "wheel ?t3 + mset (least t2 ?i) = wheel t2"
      using wheel_least [of ?i t2 "[]"] by simp
    then show ?thesis using slot(1) w' w2 by (simp add: due_def)
  qed
  moreover have "mset (map (\<lambda>n. the (node_session n)) (least t2 ?i))
      = image_mset (\<lambda>n. the (node_session n)) (due (Suc ?x) t)"
    using slot(1) w2 by (simp add: due_def)
  moreover have "tick chk t = Some (t', map (\<lambda>n. the (node_session n)) (least t2 ?i))"
    using now(1) t2 t'(1) by (simp add: tick_def Let_def now_idx)
  ultimately show ?thesis using t'(2) now(2) by auto
qed


section \<open>The abstract timer and the refinement\<close>

text \<open>
  The abstract timer: what the clock shows and, for each pending timeout, when it is due and
  whom it wakes. Setting the clock forward wakes what is due by then.
\<close>

type_synonym 's abs_timer = "nat \<times> (nat \<times> 's) multiset"

definition due_entry :: "'s node \<Rightarrow> nat \<times> 's" where
  "due_entry n = (unat (expire n), the (node_session n))"

definition pending :: "'s timer \<Rightarrow> (nat \<times> 's) multiset" where
  "pending t = image_mset due_entry (wheel t)"

definition timer_abs :: "'s timer \<Rightarrow> 's abs_timer" where
  "timer_abs t = (unat (time t), pending t)"

definition due_by :: "nat \<Rightarrow> (nat \<times> 's) multiset \<Rightarrow> (nat \<times> 's) multiset" where
  "due_by now P = filter_mset (\<lambda>p. fst p \<le> now) P"

definition due_after :: "nat \<Rightarrow> (nat \<times> 's) multiset \<Rightarrow> (nat \<times> 's) multiset" where
  "due_after now P = filter_mset (\<lambda>p. now < fst p) P"

fun spec_msg :: "'s abs_timer \<Rightarrow> 's message \<Rightarrow> 's abs_timer \<times> 's multiset" where
  "spec_msg (now, P) (Timeout d s) = ((now, add_mset (now + unat d + 1, s) P), {#})"
| "spec_msg (now, P) (UpdateTime x) =
     ((max now (unat x), due_after (unat x) P), image_mset snd (due_by (unat x) P))"
| "spec_msg (now, P) Stop = ((now, P), {#})"

fun spec_run :: "'s abs_timer \<Rightarrow> 's message list \<Rightarrow> 's abs_timer \<times> 's multiset" where
  "spec_run a [] = (a, {#})"
| "spec_run a (m # ms) = (let (a', W) = spec_msg a m; (a'', W') = spec_run a' ms in (a'', W + W'))"

lemma pending_time [simp]: "pending (t\<lparr>time := x\<rparr>) = pending t"
  by (simp add: pending_def)

lemma wheel_ok_future: "wheel_ok t \<Longrightarrow> p \<in># pending t \<Longrightarrow> unat (time t) < fst p"
  by (auto simp: wheel_ok_def pending_def due_entry_def word_less_nat_alt)

lemma due_entries:
  "image_mset due_entry (due x t) = image_mset (Pair x) (image_mset (\<lambda>n. the (node_session n)) (due x t))"
  by (auto simp: due_def due_entry_def image_mset.compositionality comp_def intro!: image_mset_cong)

lemma filter_image_Pair:
  "filter_mset (\<lambda>p. Q (fst p)) (image_mset (Pair x) M) = (if Q x then image_mset (Pair x) M else {#})"
  by (induction M) auto

lemma update_ok:
  assumes "wheel_ok t"
  shows "\<exists>t' ps. update chk t now = Some (t', map snd ps) \<and> wheel_ok t' \<and>
    timer_abs t' = (max (unat (time t)) (unat now), due_after (unat now) (pending t)) \<and>
    sorted (map fst ps) \<and> mset ps = due_by (unat now) (pending t)"
  using assms
proof (induction "unat now - unat (time t)" arbitrary: t)
  case 0
  then have ge: "unat now \<le> unat (time t)" by simp
  then have "\<forall>p\<in>#pending t. unat now < fst p"
    using wheel_ok_future [OF "0.prems"] by fastforce
  then have "due_by (unat now) (pending t) = {#}" "due_after (unat now) (pending t) = pending t"
    by (auto simp: due_by_def due_after_def filter_mset_eq_conv)
  moreover have "update chk t now = Some (t, [])"
    using ge by (simp add: update.simps word_less_nat_alt)
  ultimately show ?case using "0.prems" ge
    by (intro exI [of _ t] exI [of _ "[]"]) (auto simp: timer_abs_def max_def)
next
  case (Suc k)
  let ?x = "Suc (unat (time t))"
  have lt: "unat (time t) < unat now" using Suc.hyps(2) by linarith
  then have "?x < 2 ^ 64" using unat_u64_lt [of now] by linarith
  from tick_ok [OF Suc.prems this, of chk] obtain t1 ws where t1:
    "tick chk t = Some (t1, ws)" "wheel_ok t1" "unat (time t1) = ?x" "wheel t = wheel t1 + due ?x t"
    "mset ws = image_mset (\<lambda>n. the (node_session n)) (due ?x t)" by blast
  have "k = unat now - unat (time t1)" using Suc.hyps(2) t1(3) by simp
  from Suc.hyps(1) [OF this t1(2)] obtain t2 ps where t2:
    "update chk t1 now = Some (t2, map snd ps)" "wheel_ok t2"
    "timer_abs t2 = (max (unat (time t1)) (unat now), due_after (unat now) (pending t1))"
    "sorted (map fst ps)" "mset ps = due_by (unat now) (pending t1)" by blast
  let ?ps = "map (Pair ?x) ws @ ps"
  have split: "pending t = pending t1 + image_mset (Pair ?x) (mset ws)"
    unfolding t1(5) due_entries [symmetric] by (simp add: pending_def t1(4))
  have "update chk t now = Some (t2, map snd ?ps)"
    using lt t1(1) t2(1) by (subst update.simps) (simp add: word_less_nat_alt comp_def)
  moreover have "timer_abs t2 = (max (unat (time t)) (unat now), due_after (unat now) (pending t))"
    using t2(3) t1(3) lt by (simp add: split due_after_def filter_image_Pair [where Q = "\<lambda>e. unat now < e"])
  moreover have "\<forall>p\<in>set ps. ?x \<le> fst p"
  proof
    fix p assume "p \<in> set ps"
    then have "p \<in># mset ps" by simp
    then have "p \<in># pending t1" unfolding t2(5) by (simp add: due_by_def)
    then show "?x \<le> fst p" using wheel_ok_future [OF t1(2)] t1(3) by fastforce
  qed
  then have "sorted (map fst ?ps)"
    using t2(4) by (auto simp: sorted_append comp_def map_replicate_const)
  moreover have "mset ?ps = due_by (unat now) (pending t)"
    using lt t2(5) by (simp add: split due_by_def filter_image_Pair [where Q = "\<lambda>e. e \<le> unat now"])
  ultimately show ?case using t2(2) by blast
qed

lemma new_node_frame:
  "time (snd (new_node t)) = time t" "wheel (snd (new_node t)) = wheel t"
  "placed x (snd (new_node t)) = placed x t"
  by (auto simp: new_node_def split: list.splits)

lemma timeout_ok:
  assumes ok: "wheel_ok t" and pos: "0 < unat d" and bound: "unat (time t) + unat d < horizon"
  shows "\<exists>t'. timeout chk t d s = Some t' \<and> wheel_ok t' \<and>
    timer_abs t' = (unat (time t), add_mset (unat (time t) + unat d, s) (pending t))"
proof -
  obtain n t1 where n: "new_node t = (n, t1)" "time t1 = time t" "wheel t1 = wheel t"
      "placed (unat (time t)) t1 = placed (unat (time t)) t"
    by (rule that [of "fst (new_node t)" "snd (new_node t)"]) (simp_all add: new_node_frame)
  have e: "add_u64 chk (time t) d = Some (time t + d)" "unat (time t + d) = unat (time t) + unat d"
    using add_u64_no_overflow [of "time t" d chk] bound by (simp_all add: horizon_def)
  let ?n = "n\<lparr>expire := time t + d, node_session := Some s\<rparr>"
  have "time t1 \<le> expire ?n" by (simp add: word_le_nat_alt e n(2))
  moreover have "node_ok ?n" using bound by (simp add: node_ok_def e)
  ultimately obtain t' where t': "queue_node chk t1 ?n = Some t'" "queued t1 ?n t'"
    using queue_node_ok by blast
  have w: "wheel t' = add_mset ?n (wheel t)" and p: "placed (unat (time t)) t'" and tm: "time t' = time t"
    using t'(2) ok n by (simp_all add: queued_def wheel_ok_def)
  have "wheel_ok t'"
    using ok p pos by (auto simp: wheel_ok_def w tm word_less_nat_alt e)
  moreover have "timer_abs t' = (unat (time t), add_mset (unat (time t) + unat d, s) (pending t))"
    by (simp add: timer_abs_def pending_def w tm due_entry_def e)
  moreover have "timeout chk t d s = Some t'"
    using t'(1) e(1) n(2) by (simp add: timeout_def n(1))
  ultimately show ?thesis by blast
qed

text \<open>
  Bounds under which no build overflows: the clock and every requested timeout stay below
  \<open>2 ^ 53\<close> milliseconds (some 285 thousand years), so every expiry is below the horizon.
\<close>

fun msg_ok :: "'s message \<Rightarrow> bool" where
  "msg_ok (Timeout d s) \<longleftrightarrow> unat d + 1 < 2 ^ 53"
| "msg_ok (UpdateTime x) \<longleftrightarrow> unat x < 2 ^ 53"
| "msg_ok Stop \<longleftrightarrow> True"

definition timer_ok :: "'s timer \<Rightarrow> bool" where
  "timer_ok t \<longleftrightarrow> wheel_ok t \<and> unat (time t) < 2 ^ 53"

lemma timer_ok_new [simp]: "timer_ok timer_new"
  by (simp add: timer_ok_def wheel_ok_def placed_def timer_new_def wheel_def level_nodes_def)

lemma timer_msg_ok:
  assumes "timer_ok t" and "msg_ok m"
  shows "\<exists>t' ws. timer_msg chk t m = Some (t', ws) \<and> timer_ok t' \<and>
    (timer_abs t', mset ws) = spec_msg (timer_abs t) m"
proof (cases m)
  case (Timeout d s)
  have d: "add_u64 chk d 1 = Some (d + 1)" "unat (d + 1) = unat d + 1"
    using add_u64_no_overflow [of d 1 chk] assms(2) Timeout by simp_all
  then have "0 < unat (d + 1)" "unat (time t) + unat (d + 1) < horizon"
    using assms Timeout by (simp_all add: timer_ok_def horizon_def)
  with timeout_ok [of t "d + 1" chk s] assms(1) obtain t' where
      "timeout chk t (d + 1) s = Some t'" "wheel_ok t'"
      "timer_abs t' = (unat (time t), add_mset (unat (time t) + unat (d + 1), s) (pending t))"
    unfolding timer_ok_def by blast
  then show ?thesis using d Timeout assms(1) by (auto simp: timer_abs_def timer_ok_def)
next
  case (UpdateTime x)
  from update_ok [of t chk x] assms(1) obtain t' ps where u:
    "update chk t x = Some (t', map snd ps)" "wheel_ok t'"
    "timer_abs t' = (max (unat (time t)) (unat x), due_after (unat x) (pending t))"
    "mset ps = due_by (unat x) (pending t)" by (auto simp: timer_ok_def)
  have "mset (map snd ps) = image_mset snd (due_by (unat x) (pending t))" by (simp add: u(4))
  then show ?thesis using u UpdateTime assms by (auto simp: timer_abs_def timer_ok_def)
next
  case Stop
  then show ?thesis using assms by (simp add: timer_abs_def)
qed

lemma timer_run_ok:
  assumes "timer_ok t" and "\<forall>m\<in>set ms. msg_ok m"
  shows "\<exists>t' ws. timer_run chk t ms = Some (t', ws) \<and> timer_ok t' \<and>
    (timer_abs t', mset ws) = spec_run (timer_abs t) ms"
  using assms
proof (induction ms arbitrary: t)
  case (Cons m ms)
  then obtain t1 ws where t1: "timer_msg chk t m = Some (t1, ws)" "timer_ok t1"
      "(timer_abs t1, mset ws) = spec_msg (timer_abs t) m"
    using timer_msg_ok by (metis list.set_intros(1))
  with Cons.IH [of t1] Cons.prems(2) obtain t2 ws' where r:
    "timer_run chk t1 ms = Some (t2, ws')" "timer_ok t2"
    "(timer_abs t2, mset ws') = spec_run (timer_abs t1) ms" by auto
  with t1 show ?case by (simp add: t1(3) [symmetric] r(3) [symmetric])
qed simp

end
