(* ===== verification/Timer_Contract.thy ===== *)
theory Timer_Contract
  imports Timer_Correct
begin

text \<open>
  What the timer promises, over whole message histories: it refines the abstract timer in both
  build profiles, an advance wakes exactly what is due and in order of expiry, and a requested
  timeout wakes its session exactly once, never before its time. Also where the arithmetic gives
  out: timeouts near the top of \<open>u64\<close>, and durations that \<open>sleep\<close> truncates.
\<close>

section \<open>Counting wakes in the abstract timer\<close>

fun clock_of :: "nat \<Rightarrow> 's message list \<Rightarrow> nat" where
  "clock_of now [] = now"
| "clock_of now (UpdateTime x # ms) = clock_of (max now (unat x)) ms"
| "clock_of now (m # ms) = clock_of now ms"

fun requests :: "'s \<Rightarrow> 's message \<Rightarrow> bool" where
  "requests s (Timeout d s') \<longleftrightarrow> s' = s"
| "requests s m \<longleftrightarrow> False"

definition future :: "'s abs_timer \<Rightarrow> bool" where
  "future a \<longleftrightarrow> (\<forall>p\<in>#snd a. fst a < fst p)"

definition booked :: "'s \<Rightarrow> 's abs_timer \<Rightarrow> bool" where
  "booked s a \<longleftrightarrow> (\<exists>p\<in>#snd a. snd p = s)"

lemma clock_ge: "now \<le> clock_of now ms"
  by (induction now ms rule: clock_of.induct) auto

lemma spec_run_append:
  "spec_run a (ms @ ms') = (let (a', W) = spec_run a ms; (a'', W') = spec_run a' ms' in (a'', W + W'))"
  by (induction ms arbitrary: a) (auto simp: Let_def case_prod_beta add.assoc)

lemma spec_run_clock: "fst (fst (spec_run a ms)) = clock_of (fst a) ms"
proof (induction ms arbitrary: a)
  case (Cons m ms)
  then show ?case by (cases a; cases m) (auto simp: Let_def case_prod_beta)
qed simp

lemma spec_msg_future: "future a \<Longrightarrow> future (fst (spec_msg a m))"
  by (cases a; cases m) (auto simp: future_def due_after_def)

lemma spec_run_future: "future a \<Longrightarrow> future (fst (spec_run a ms))"
  by (induction ms arbitrary: a) (auto simp: Let_def case_prod_beta spec_msg_future)

lemma spec_msg_unbooked:
  "\<not> booked s a \<Longrightarrow> \<not> requests s m \<Longrightarrow>
    \<not> booked s (fst (spec_msg a m)) \<and> count (snd (spec_msg a m)) s = 0"
  by (cases a; cases m) (auto simp: booked_def due_after_def due_by_def count_eq_zero_iff)

lemma spec_run_unbooked:
  "\<not> booked s a \<Longrightarrow> \<forall>m\<in>set ms. \<not> requests s m \<Longrightarrow>
    \<not> booked s (fst (spec_run a ms)) \<and> count (snd (spec_run a ms)) s = 0"
proof (induction ms arbitrary: a)
  case (Cons m ms)
  then have "\<not> booked s (fst (spec_msg a m)) \<and> count (snd (spec_msg a m)) s = 0"
    using spec_msg_unbooked [of s a m] by simp
  with Cons.IH [of "fst (spec_msg a m)"] Cons.prems(2) show ?case
    by (simp add: Let_def case_prod_beta)
qed simp

lemma count_due_unbooked: "\<forall>p\<in>#P. snd p \<noteq> s \<Longrightarrow> count (image_mset snd (due_by x P)) s = 0"
  by (auto simp: due_by_def count_eq_zero_iff)

lemma spec_run_booked_once:
  "now < e \<Longrightarrow> \<not> booked s (now, P) \<Longrightarrow> \<forall>m\<in>set ms. \<not> requests s m \<Longrightarrow>
    count (snd (spec_run (now, add_mset (e, s) P) ms)) s = (if e \<le> clock_of now ms then 1 else 0)"
proof (induction ms arbitrary: now P)
  case (Cons m ms)
  have rest: "\<forall>m\<in>set ms. \<not> requests s m" using Cons.prems(3) by simp
  show ?case
  proof (cases m)
    case (Timeout d s')
    then have "\<not> booked s (now, add_mset (now + unat d + 1, s') P)"
      using Cons.prems by (auto simp: booked_def)
    from Cons.IH [OF Cons.prems(1) this rest] Timeout show ?thesis
      by (simp add: Let_def case_prod_beta add_mset_commute)
  next
    case (UpdateTime x)
    have none: "count (image_mset snd (due_by (unat x) P)) s = 0"
      using Cons.prems(2) by (intro count_due_unbooked) (auto simp: booked_def)
    have nb: "\<not> booked s (max now (unat x), due_after (unat x) P)"
      using Cons.prems(2) by (auto simp: booked_def due_after_def)
    show ?thesis
    proof (cases "e \<le> unat x")
      case True
      then have "e \<le> clock_of (max now (unat x)) ms" using clock_ge [of "max now (unat x)" ms] by linarith
      with True none spec_run_unbooked [OF nb rest] UpdateTime show ?thesis
        by (simp add: Let_def case_prod_beta due_by_def due_after_def)
    next
      case False
      then have "max now (unat x) < e" using Cons.prems(1) by simp
      from Cons.IH [OF this nb rest] none False UpdateTime show ?thesis
        by (simp add: Let_def case_prod_beta due_by_def due_after_def)
    qed
  next
    case Stop
    with Cons.IH [OF Cons.prems(1,2) rest] show ?thesis by (simp add: Let_def case_prod_beta)
  qed
qed simp

section \<open>The contract\<close>

abbreviation idle :: "'s abs_timer" where
  "idle \<equiv> (0, {#})"

lemma timer_abs_new: "timer_abs timer_new = idle"
  by (simp add: timer_abs_def pending_def wheel_def level_nodes_def timer_new_def)

text \<open>
  C16. The timing wheel implements the abstract timer. For every history of messages whose
  durations and times stay below \<open>2 ^ 53\<close> ms, with and without overflow checks, the timer task
  never panics (no array access is out of bounds, no assertion on the level fails, no arithmetic
  overflows), and the sessions it wakes and the timeouts it still holds are exactly those of a
  clock with a multiset of expiries.
\<close>

theorem timer_refines:
  assumes "\<forall>m\<in>set ms. msg_ok m"
  shows "\<exists>t ws. timer_run chk timer_new ms = Some (t, ws) \<and> (timer_abs t, mset ws) = spec_run idle ms"
  using timer_run_ok [OF timer_ok_new assms, of chk] by (auto simp: timer_abs_new)

lemma timer_refines_witness:
  "\<exists>t ws. timer_run True timer_new [Timeout 20000 ''a'', UpdateTime 20001] = Some (t, ws) \<and>
    (timer_abs t, mset ws) = ((20001, {#}), {#''a''#})"
  using timer_refines [of "[Timeout 20000 ''a'', UpdateTime 20001]" True]
  by (simp add: due_by_def due_after_def)

text \<open>
  C17. Advancing the time of a timer in any state its messages can bring about wakes exactly the
  sessions that expire by then, in non-decreasing order of expiry, and keeps the others: the
  cascade between the levels of the wheel neither loses, duplicates, delays nor reorders one.
\<close>

theorem update_wakes_due_in_order:
  assumes "\<forall>m\<in>set ms. msg_ok m" and "timer_run chk timer_new ms = Some (t, ws)"
  shows "\<exists>t' ps. update chk t now = Some (t', map snd ps) \<and> sorted (map fst ps) \<and>
    mset ps = filter_mset (\<lambda>p. fst p \<le> unat now) (pending t) \<and>
    pending t' = filter_mset (\<lambda>p. unat now < fst p) (pending t)"
proof -
  have "wheel_ok t" using timer_run_ok [OF timer_ok_new assms(1), of chk] assms(2)
    by (auto simp: timer_ok_def)
  from update_ok [OF this, of chk now] show ?thesis
    by (auto simp: timer_abs_def due_by_def due_after_def)
qed

lemma update_wakes_due_in_order_witness:
  "\<exists>t ws t' ps. timer_run False timer_new [Timeout 5 ''a''] = Some (t, ws) \<and>
    update False t 6 = Some (t', map snd ps) \<and> mset ps = {#(6, ''a'')#}"
proof -
  have ok: "\<forall>m\<in>set [Timeout 5 ''a'']. msg_ok m" by simp
  obtain t ws where t: "timer_run False timer_new [Timeout 5 ''a''] = Some (t, ws)"
    "(timer_abs t, mset ws) = spec_run idle [Timeout 5 ''a'']"
    using timer_run_ok [OF timer_ok_new ok, of False] by (auto simp: timer_abs_new)
  then have "pending t = {#(6, ''a'')#}" by (simp add: timer_abs_def)
  then show ?thesis using update_wakes_due_in_order [OF ok t(1), of 6] t(1) by fastforce
qed

text \<open>
  C18. A timeout requested for a session that nothing else refers to wakes that session exactly
  once when the clock reaches one millisecond more than the request, and not at all before that:
  sleepers are neither lost, woken early (as the timer counts time) nor woken twice.
\<close>

theorem timeout_wakes_once:
  assumes "\<forall>m\<in>set (before @ Timeout d s # after). msg_ok m"
    and "\<forall>m\<in>set (before @ after). \<not> requests s m"
  shows "\<exists>t ws. timer_run chk timer_new (before @ Timeout d s # after) = Some (t, ws) \<and>
    count (mset ws) s =
      (if clock_of 0 before + unat d + 1 \<le> clock_of 0 (before @ after) then 1 else 0)"
proof -
  let ?ms = "before @ Timeout d s # after"
  obtain t ws where t: "timer_run chk timer_new ?ms = Some (t, ws)" "mset ws = snd (spec_run idle ?ms)"
    using timer_run_ok [OF timer_ok_new assms(1), of chk] by (metis timer_abs_new snd_conv)
  obtain now P where a: "fst (spec_run idle before) = (now, P)" by fastforce
  have now: "now = clock_of 0 before" using spec_run_clock [of idle before] a by simp
  have nb: "\<not> booked s idle" by (simp add: booked_def)
  have b: "\<not> booked s (now, P)" "count (snd (spec_run idle before)) s = 0"
    using spec_run_unbooked [OF nb, of before] assms(2) a by auto
  have rest: "\<forall>m\<in>set after. \<not> requests s m" using assms(2) by simp
  have "count (snd (spec_run idle ?ms)) s
      = count (snd (spec_run (now, add_mset (now + unat d + 1, s) P) after)) s"
    using b(2) a by (simp add: spec_run_append Let_def case_prod_beta)
  also have "\<dots> = (if now + unat d + 1 \<le> clock_of now after then 1 else 0)"
    by (rule spec_run_booked_once [OF _ b(1) rest]) simp
  also have "clock_of now after = clock_of 0 (before @ after)"
    using spec_run_clock [of idle "before @ after"] spec_run_clock [of "(now, P)" after] a
    by (simp add: spec_run_append Let_def case_prod_beta)
  finally show ?thesis using t now by auto
qed

lemma timeout_wakes_once_witness:
  "\<exists>t ws. timer_run True timer_new ([UpdateTime 3] @ Timeout 10 ''a'' # [UpdateTime 13, Timeout 1 ''b'', UpdateTime 14])
     = Some (t, ws) \<and> count (mset ws) ''a'' = 1"
  using timeout_wakes_once [of "[UpdateTime 3]" 10 "''a''" "[UpdateTime 13, Timeout 1 ''b'', UpdateTime 14]" True]
  by simp

section \<open>Where the arithmetic gives out\<close>

text \<open>
  The extra millisecond overflows on the longest timeout a \<open>u64\<close> can ask for: with overflow
  checks the timer task panics, whatever its state; without them the timeout is taken for one of
  0 ms, and a new timer files it as expiring at the current time, the furthest from what was asked.
\<close>

theorem longest_timeout_overflows:
  "timer_msg True t (Timeout (- 1) s) = None \<and>
   timer_msg False t (Timeout (- 1) s) = map_option (\<lambda>t'. (t', [])) (timeout False t 0 s) \<and>
   timer_msg False timer_new (Timeout (- 1) s) =
     Some (timer_new\<lparr>least := (\<lambda>_. [])(0 := [\<lparr>expire = 0, node_session = Some s\<rparr>])\<rparr>, [])"
proof -
  have "unat (- 1 :: u64) = 2 ^ 64 - 1"
    by (simp add: unsigned_minus_1_eq_mask mask_eq_exp_minus_1)
  then show ?thesis
    by (simp add: add_u64_def sub_u64_def timeout_def new_node_def node_default_def timer_new_def
        queue_node_def insert_least_def list_insert_def time_consts)
qed

text \<open>
  \<open>sleep\<close> sends the duration modulo \<open>2 ^ 64\<close> milliseconds, and sends nothing (it yields once)
  exactly when that is zero: for a duration of less than a millisecond and for every multiple of
  \<open>2 ^ 64\<close> ms.
\<close>

theorem sleep_request_truncates:
  "sleep_request ms s = (if 2 ^ 64 dvd ms then None else Some (Timeout (of_nat (ms mod 2 ^ 64)) s))"
proof -
  have "(of_nat ms :: u64) = 0 \<longleftrightarrow> 2 ^ 64 dvd ms"
    by (simp add: word_of_nat_eq_0_iff)
  moreover have "(of_nat (ms mod 2 ^ 64) :: u64) = of_nat ms"
    by (rule word_unat_eq_iff [THEN iffD2]) (simp add: unat_of_nat)
  ultimately show ?thesis by (simp add: sleep_request_def Let_def)
qed

end
