(* ===== verification/Selectors.thy ===== *)
theory Selectors
  imports Errors Wakers
begin

text \<open>
  What channels and \<open>select\<close> share: the permits of \<open>src/src/select.rs\<close> and of
  \<open>src/src/channel/shared.rs\<close> with the conversions between them, selectors and their identifiers,
  the enumerator that fixes the order in which a select visits its candidates, and the messages
  the waiters of a channel are woken with.
\<close>

section \<open>Permits\<close>

record select_permit =
  primitive :: nat
  attendant :: "nat option"

definition with_primitive :: "nat \<Rightarrow> select_permit" where
  "with_primitive p = \<lparr>primitive = p, attendant = None\<rparr>"

text \<open>The assertion of \<open>into_primitive\<close> and the \<open>expect\<close> of \<open>into_compound\<close> fail with \<open>None\<close>.\<close>

definition into_primitive :: "select_permit \<Rightarrow> nat option" where
  "into_primitive p = (if attendant p = None then Some (primitive p) else None)"

definition with_compound :: "nat \<Rightarrow> nat \<Rightarrow> select_permit" where
  "with_compound p a = \<lparr>primitive = p, attendant = Some a\<rparr>"

definition into_compound :: "select_permit \<Rightarrow> (nat \<times> nat) option" where
  "into_compound p = map_option (Pair (primitive p)) (attendant p)"

definition permit_default :: "select_permit" where
  "permit_default = with_primitive 0"

text \<open>The permits of a channel, and their encoding in the primitive of a select permit.\<close>

datatype permit = Closed | Consume

fun permit_bits :: "permit \<Rightarrow> nat" where
  "permit_bits Closed = 0"
| "permit_bits Consume = 1"

definition to_select :: "permit \<Rightarrow> select_permit" where
  "to_select p = with_primitive (permit_bits p)"

text \<open>
  \<open>from_unchecked\<close> of a primitive other than 0 and 1 is undefined behaviour; it and the failing
  assertion of \<open>into_primitive\<close> are \<open>None\<close>.
\<close>

definition of_select :: "select_permit \<Rightarrow> permit option" where
  "of_select p = (case into_primitive p of
      Some 0 \<Rightarrow> Some Closed
    | Some (Suc 0) \<Rightarrow> Some Consume
    | _ \<Rightarrow> None)"

lemma of_to_select [simp]: "of_select (to_select p) = Some p"
  by (cases p) (simp_all add: of_select_def to_select_def with_primitive_def into_primitive_def)

lemma to_select_eq [simp]: "to_select p = to_select q \<longleftrightarrow> p = q"
  by (metis of_to_select option.inject)

section \<open>Messages and selectors\<close>

text \<open>
  What a wake-up carries: the result of a blocked send, the permit given to a blocked receiver,
  the branch and permit of a select, the value handed to a blocked thread, or nothing.
\<close>

datatype 'a wake_msg =
    MSent "'a send_error + unit"
  | MPermit permit
  | MSelected nat select_permit
  | MReceived "'a option"
  | MResumed

text \<open>What a call that may block comes to at once: it returns, or it waits on its cell.\<close>

datatype 'r outcome = Return 'r | Waits

record selector =
  sel_index :: nat
  sel_waker :: nat
  sel_ident :: nat

text \<open>\<open>Selector::apply\<close> wakes the select; \<open>Waker::wake\<close> of all three kinds is a one-shot cell.\<close>

definition selector_apply ::
    "selector \<Rightarrow> select_permit \<Rightarrow> 'a wake_msg cells \<Rightarrow> bool \<times> 'a wake_msg cells" where
  "selector_apply sel p = store_wake (sel_waker sel) (MSelected (sel_index sel) p)"

definition identify :: "selector \<Rightarrow> nat \<Rightarrow> bool" where
  "identify sel ident \<longleftrightarrow> sel_ident sel = ident"

lemma selector_apply_pending [wake_simps]:
  "cs (sel_waker sel) = Pending \<Longrightarrow>
    selector_apply sel p cs = (True, cs(sel_waker sel := Woken (MSelected (sel_index sel) p)))"
  by (simp add: selector_apply_def wake_simps)

lemma selector_apply_refused [wake_simps]:
  "cs (sel_waker sel) \<noteq> Pending \<Longrightarrow> selector_apply sel p cs = (False, cs)"
  by (simp add: selector_apply_def wake_simps)

text \<open>\<open>TrySelectError\<close>: no permit now, or none ever again.\<close>

datatype try_select_error = WouldBlock | Completed

section \<open>The enumerator\<close>

text \<open>
  \<open>Enumerator\<close> starts at a pseudo-random offset. With no candidate at all the remainder divides
  by zero, a panic.
\<close>

definition enumerator_new :: "nat \<Rightarrow> nat \<Rightarrow> (nat \<times> nat) option" where
  "enumerator_new rand n =
    (if n = 0 then None else (let start = rand mod n in Some (start, start + n)))"

definition enumerator_next :: "nat \<Rightarrow> nat \<times> nat \<Rightarrow> (nat \<times> (nat \<times> nat)) option" where
  "enumerator_next n e =
    (if fst e \<ge> snd e then None else Some (fst e mod n, (fst e + 1, snd e)))"

text \<open>All the indices an enumerator yields.\<close>

function enumerate_from :: "nat \<Rightarrow> nat \<times> nat \<Rightarrow> nat list" where
  "enumerate_from n e = (case enumerator_next n e of None \<Rightarrow> [] | Some (i, e') \<Rightarrow> i # enumerate_from n e')"
  by pat_completeness auto
termination
  by (relation "measure (\<lambda>(n, e). snd e - fst e)") (auto simp: enumerator_next_def split: if_splits)

declare enumerate_from.simps [simp del]

definition enumeration :: "nat \<Rightarrow> nat \<Rightarrow> nat list option" where
  "enumeration rand n = map_option (enumerate_from n) (enumerator_new rand n)"

lemma enumerate_from_map: "enumerate_from n (a, a + k) = map (\<lambda>i. i mod n) [a..<a + k]"
proof (induction k arbitrary: a)
  case 0
  show ?case by (simp add: enumerate_from.simps enumerator_next_def)
next
  case (Suc k)
  from Suc.IH [of "Suc a"] show ?case
    by (subst enumerate_from.simps) (simp add: enumerator_next_def upt_conv_Cons del: upt_Suc)
qed

lemma rotate_upt_mod: "a < n \<Longrightarrow> map (\<lambda>i. i mod n) [a..<a + n] = rotate a [0..<n]"
proof -
  assume a: "a < n"
  have "map (\<lambda>i. i mod n) [a..<a + n] = [a..<n] @ [0..<a]"
    using a by (intro nth_equalityI) (auto simp: nth_append mod_if)
  also have "\<dots> = rotate a [0..<n]" using a by (simp add: rotate_drop_take)
  finally show ?thesis .
qed

lemma enumeration_rotate: "0 < n \<Longrightarrow> enumeration rand n = Some (rotate (rand mod n) [0..<n])"
  by (simp add: enumeration_def enumerator_new_def Let_def enumerate_from_map rotate_upt_mod)

text \<open>
  C30. A select visits every candidate exactly once, starting at an offset below their number; with
  no candidate the enumerator panics.
\<close>

theorem enumeration_visits_once:
  "case enumeration rand n of
     None \<Rightarrow> n = 0
   | Some order \<Rightarrow> 0 < n \<and> distinct order \<and> set order = {..<n} \<and> hd order = rand mod n"
proof (cases "n = 0")
  case True
  then show ?thesis by (simp add: enumeration_def enumerator_new_def)
next
  case False
  then have "hd (rotate (rand mod n) [0..<n]) = rand mod n"
    by (simp add: rotate_drop_take hd_append not_le)
  then show ?thesis using False by (auto simp: enumeration_rotate)
qed

end
