(* ===== verification/Parallel.thy ===== *)
theory Parallel
  imports Selectors
begin

text \<open>
  \<open>src/src/channel/parallel.rs\<close>: the channel between tasks and threads. \<open>State\<close> is behind one
  mutex and every method holds it for all it does to the state, so each method is one function
  on the state; a call that waits is a start, which enqueues a waiter and releases the mutex, and
  a finish, which runs once the waiter's cell is woken. \<open>None\<close> is a panic.
\<close>

section \<open>Waiters\<close>

text \<open>A waiter knows its wake cell by number; a blocked sender leaves its value with the waiter.\<close>

datatype 'a waiter = WTask nat 'a | WThread nat 'a | WSelector selector

datatype recv_waiter = RSelector selector | RTask nat | RThread nat

fun waiter_matches :: "nat \<Rightarrow> 'a waiter \<Rightarrow> bool" where
  "waiter_matches ident (WSelector sel) = identify sel ident"
| "waiter_matches ident _ = False"

fun recv_waiter_matches :: "nat \<Rightarrow> recv_waiter \<Rightarrow> bool" where
  "recv_waiter_matches ident (RSelector sel) = identify sel ident"
| "recv_waiter_matches ident _ = False"

text \<open>\<open>ThreadWaker::wake\<close> writes the result unconditionally; the mutex is held.\<close>

definition thread_wake :: "nat \<Rightarrow> 'm \<Rightarrow> 'm cells \<Rightarrow> 'm cells" where
  "thread_wake w m cs = cs(w := Woken m)"

section \<open>The state\<close>

record 'a state =
  closed :: bool
  send_permits :: nat
  recv_permits :: nat
  bound :: nat
  deque :: "'a list"
  senders :: "'a waiter list"
  receivers :: "recv_waiter list"
  cells :: "'a wake_msg cells"   \<comment> \<open>the wake cells of all waiters, past and present\<close>

definition recvable_len :: "'a state \<Rightarrow> nat" where
  "recvable_len s = length (deque s) + send_permits s"

definition is_full :: "'a state \<Rightarrow> bool" where
  "is_full s \<longleftrightarrow> recvable_len s = bound s"

definition is_empty :: "'a state \<Rightarrow> bool" where
  "is_empty s \<longleftrightarrow> recv_permits s \<ge> length (deque s)"

definition is_recvable :: "'a state \<Rightarrow> bool" where
  "is_recvable s \<longleftrightarrow> recvable_len s \<noteq> 0"

definition state_new :: "nat \<Rightarrow> 'a state" where
  "state_new b = \<lparr>closed = False, send_permits = 0, recv_permits = 0, bound = b, deque = [],
    senders = [], receivers = [], cells = (\<lambda>_. Pending)\<rparr>"

definition select_send_permit :: "'a state \<Rightarrow> permit option \<times> 'a state" where
  "select_send_permit s =
    (if closed s then (Some Closed, s)
     else if \<not> is_full s then (Some Consume, s\<lparr>send_permits := send_permits s + 1\<rparr>)
     else (None, s))"

definition select_recv_permit :: "'a state \<Rightarrow> permit option \<times> 'a state" where
  "select_recv_permit s =
    (if \<not> is_empty s then (Some Consume, s\<lparr>recv_permits := recv_permits s + 1\<rparr>)
     else if closed s then
       (if send_permits s \<noteq> 0 then (None, s)
        else if deque s = [] then (Some Closed, s)
        else (Some Consume, s\<lparr>recv_permits := recv_permits s + 1\<rparr>))
     else (None, s))"

text \<open>
  \<open>wake_sender\<close> and \<open>wake_receiver\<close> pop waiters until one takes the wake-up. The list argument is
  what is left of the queue.
\<close>

fun wake_senders :: "'a waiter list \<Rightarrow> 'a state \<Rightarrow> 'a state" where
  "wake_senders [] s = s\<lparr>senders := []\<rparr>"
| "wake_senders (WTask w v # ws) s =
    (case store_wake w (MSent (Inr ())) (cells s) of
       (True, cs) \<Rightarrow> s\<lparr>cells := cs, deque := deque s @ [v], senders := ws\<rparr>
     | (False, cs) \<Rightarrow> wake_senders ws (s\<lparr>cells := cs\<rparr>))"
| "wake_senders (WThread w v # ws) s =
    s\<lparr>deque := deque s @ [v], cells := thread_wake w (MSent (Inr ())) (cells s), senders := ws\<rparr>"
| "wake_senders (WSelector sel # ws) s =
    (case selector_apply sel (to_select Consume) (cells s) of
       (True, cs) \<Rightarrow> s\<lparr>cells := cs, send_permits := send_permits s + 1, senders := ws\<rparr>
     | (False, cs) \<Rightarrow> wake_senders ws (s\<lparr>cells := cs\<rparr>))"

definition wake_sender :: "'a state \<Rightarrow> 'a state" where
  "wake_sender s = wake_senders (senders s) s"

text \<open>The \<open>unwrap\<close> on the value for a waiting thread panics on an empty queue.\<close>

fun wake_receivers :: "recv_waiter list \<Rightarrow> 'a state \<Rightarrow> 'a state option" where
  "wake_receivers [] s = Some (s\<lparr>receivers := []\<rparr>)"
| "wake_receivers (RSelector sel # ws) s =
    (case selector_apply sel (to_select Consume) (cells s) of
       (True, cs) \<Rightarrow> Some (s\<lparr>cells := cs, recv_permits := recv_permits s + 1, receivers := ws\<rparr>)
     | (False, cs) \<Rightarrow> wake_receivers ws (s\<lparr>cells := cs\<rparr>))"
| "wake_receivers (RTask w # ws) s =
    (case store_wake w (MPermit Consume) (cells s) of
       (True, cs) \<Rightarrow> Some (s\<lparr>cells := cs, recv_permits := recv_permits s + 1, receivers := ws\<rparr>)
     | (False, cs) \<Rightarrow> wake_receivers ws (s\<lparr>cells := cs\<rparr>))"
| "wake_receivers (RThread w # ws) s =
    (case deque s of [] \<Rightarrow> None
     | v # vs \<Rightarrow> Some (s\<lparr>deque := vs, cells := thread_wake w (MReceived (Some v)) (cells s),
                          receivers := ws\<rparr>))"

definition wake_receiver :: "'a state \<Rightarrow> 'a state option" where
  "wake_receiver s = wake_receivers (receivers s) s"

fun close_sender :: "'a waiter \<Rightarrow> 'a wake_msg cells \<Rightarrow> 'a wake_msg cells" where
  "close_sender (WTask w v) cs = snd (store_wake w (MSent (Inl (SendClosed v))) cs)"
| "close_sender (WThread w v) cs = thread_wake w (MSent (Inl (SendClosed v))) cs"
| "close_sender (WSelector sel) cs = snd (selector_apply sel (to_select Closed) cs)"

definition close_senders :: "'a state \<Rightarrow> 'a state" where
  "close_senders s = s\<lparr>senders := [], cells := fold close_sender (senders s) (cells s)\<rparr>"

fun close_receiver :: "recv_waiter \<Rightarrow> 'a wake_msg cells \<Rightarrow> 'a wake_msg cells" where
  "close_receiver (RSelector sel) cs = snd (selector_apply sel (to_select Closed) cs)"
| "close_receiver (RTask w) cs = snd (store_wake w (MPermit Closed) cs)"
| "close_receiver (RThread w) cs = thread_wake w (MReceived None) cs"

definition close_receivers :: "'a state \<Rightarrow> 'a state" where
  "close_receivers s = s\<lparr>receivers := [], cells := fold close_receiver (receivers s) (cells s)\<rparr>"

definition state_close :: "'a state \<Rightarrow> 'a state" where
  "state_close s =
    (let s1 = close_senders (s\<lparr>closed := True\<rparr>) in
     if \<not> is_recvable s1 then close_receivers s1 else s1)"

section \<open>The channel\<close>

record 'a channel =
  chan_state :: "'a state"
  sender_count :: nat
  receiver_count :: nat

definition channel_new :: "nat \<Rightarrow> 'a channel" where
  "channel_new b = \<lparr>chan_state = state_new b, sender_count = 1, receiver_count = 1\<rparr>"

definition on_state :: "('a state \<Rightarrow> 'a state) \<Rightarrow> 'a channel \<Rightarrow> 'a channel" where
  "on_state f c = c\<lparr>chan_state := f (chan_state c)\<rparr>"

definition add_sender :: "'a channel \<Rightarrow> 'a channel" where
  "add_sender c = c\<lparr>sender_count := sender_count c + 1\<rparr>"

definition remove_sender :: "'a channel \<Rightarrow> 'a channel" where
  "remove_sender c =
    (let c' = c\<lparr>sender_count := sender_count c - 1\<rparr> in
     if sender_count c = 1 then on_state state_close c' else c')"

definition add_receiver :: "'a channel \<Rightarrow> 'a channel" where
  "add_receiver c = c\<lparr>receiver_count := receiver_count c + 1\<rparr>"

definition remove_receiver :: "'a channel \<Rightarrow> 'a channel" where
  "remove_receiver c =
    (let c' = c\<lparr>receiver_count := receiver_count c - 1\<rparr> in
     if receiver_count c = 1 then on_state state_close c' else c')"

definition channel_close :: "'a channel \<Rightarrow> 'a channel" where
  "channel_close = on_state state_close"

section \<open>Operations under the mutex\<close>

text \<open>
  Who calls a blocking operation: one that only tries, a task or a thread; the latter two bring
  the fresh cell they are going to wait on.
\<close>

datatype caller = Trying | InTask nat | OnThread nat

text \<open>\<open>consume_recv_permit\<close> subtracts from a \<open>usize\<close>: \<open>None\<close> when it has no permit to take.\<close>

definition consume_recv_permit :: "'a state \<Rightarrow> ('a option \<times> 'a state) option" where
  "consume_recv_permit s =
    (let full = is_full s in
     case dec_usize (recv_permits s) of None \<Rightarrow> None | Some rp \<Rightarrow>
     (case deque s of
        [] \<Rightarrow> Some (None, s\<lparr>recv_permits := rp\<rparr>)
      | v # vs \<Rightarrow>
        (let s1 = s\<lparr>recv_permits := rp, deque := vs\<rparr> in
         Some (Some v,
           if closed s1 then (if \<not> is_recvable s1 then close_receivers s1 else s1)
           else if full then wake_sender s1 else s1))))"

definition consume_send_permit :: "'a \<Rightarrow> 'a state \<Rightarrow> (('a send_error + unit) \<times> 'a state) option" where
  "consume_send_permit v s =
    (case dec_usize (send_permits s) of None \<Rightarrow> None | Some sp \<Rightarrow>
     (let s1 = s\<lparr>send_permits := sp\<rparr> in
      if is_full s1 then None
      else
        (let s2 = s1\<lparr>deque := deque s1 @ [v]\<rparr> in
         if \<not> closed s2 then map_option (Pair (Inr ())) (wake_receiver s2)
         else if \<not> is_recvable s2 then Some (Inr (), close_receivers s2)
         else Some (Inr (), s2))))"

text \<open>The last test of \<open>recv\<close> is its \<open>debug_assert!\<close>, on in a build with debug assertions (\<open>chk\<close>).\<close>

definition recv :: "bool \<Rightarrow> caller \<Rightarrow> 'a state \<Rightarrow> ((try_recv_error + 'a) outcome \<times> 'a state) option" where
  "recv chk who s =
    (if is_empty s then
       (if closed s \<and> \<not> is_recvable s then Some (Return (Inl RecvClosed), s)
        else case who of
          Trying \<Rightarrow> Some (Return (Inl RecvEmpty), s)
        | InTask w \<Rightarrow> Some (Waits, s\<lparr>receivers := receivers s @ [RTask w]\<rparr>)
        | OnThread w \<Rightarrow> Some (Waits, s\<lparr>receivers := receivers s @ [RThread w]\<rparr>))
     else
       (let s1 = wake_sender (s\<lparr>deque := tl (deque s)\<rparr>);
            r = (case deque s of [] \<Rightarrow> Inl RecvClosed | v # _ \<Rightarrow> Inr v) in
        if chk \<and> recvable_len s1 > bound s1 then None else Some (Return r, s1)))"

text \<open>
  The rest of a waiting \<open>recv\<close>, once its cell is woken: a task gets a permit, a thread the value.
  \<open>None\<close> when the cell is not woken with a message of its kind.
\<close>

definition recv_finish :: "nat \<Rightarrow> 'a state \<Rightarrow> ((try_recv_error + 'a) \<times> 'a state) option" where
  "recv_finish w s =
    (case cells s w of
       Woken (MPermit Closed) \<Rightarrow> Some (Inl RecvClosed, s)
     | Woken (MPermit Consume) \<Rightarrow>
         (case consume_recv_permit s of None \<Rightarrow> None
          | Some (None, s') \<Rightarrow> Some (Inl RecvClosed, s')
          | Some (Some v, s') \<Rightarrow> Some (Inr v, s'))
     | Woken (MReceived None) \<Rightarrow> Some (Inl RecvClosed, s)
     | Woken (MReceived (Some v)) \<Rightarrow> Some (Inr v, s)
     | _ \<Rightarrow> None)"

definition send :: "caller \<Rightarrow> 'a \<Rightarrow> 'a state \<Rightarrow> (('a try_send_error + unit) outcome \<times> 'a state) option" where
  "send who v s =
    (if closed s then Some (Return (Inl (TryClosed v)), s)
     else if \<not> is_full s then
       map_option (Pair (Return (Inr ()))) (wake_receiver (s\<lparr>deque := deque s @ [v]\<rparr>))
     else case who of
       Trying \<Rightarrow> Some (Return (Inl (Full v)), s)
     | InTask w \<Rightarrow> Some (Waits, s\<lparr>senders := senders s @ [WTask w v]\<rparr>)
     | OnThread w \<Rightarrow> Some (Waits, s\<lparr>senders := senders s @ [WThread w v]\<rparr>))"

definition send_finish :: "nat \<Rightarrow> 'a state \<Rightarrow> ('a try_send_error + unit) option" where
  "send_finish w s =
    (case cells s w of
       Woken (MSent (Inr ())) \<Rightarrow> Some (Inr ())
     | Woken (MSent (Inl e)) \<Rightarrow> Some (Inl (send_to_try e))
     | _ \<Rightarrow> None)"

definition watch_send_permit :: "selector \<Rightarrow> 'a state \<Rightarrow> (bool \<times> 'a state) option" where
  "watch_send_permit sel s =
    (case select_send_permit s of
       (Some p, s1) \<Rightarrow>
         (let (b, cs) = selector_apply sel (to_select p) (cells s1); s2 = s1\<lparr>cells := cs\<rparr> in
          if \<not> b \<and> p = Consume then
            map_option (\<lambda>n. (True, s2\<lparr>send_permits := n\<rparr>)) (dec_usize (send_permits s2))
          else Some (True, s2))
     | (None, s1) \<Rightarrow> Some (False, s1\<lparr>senders := senders s1 @ [WSelector sel]\<rparr>))"

definition watch_recv_permit :: "selector \<Rightarrow> 'a state \<Rightarrow> (bool \<times> 'a state) option" where
  "watch_recv_permit sel s =
    (case select_recv_permit s of
       (Some p, s1) \<Rightarrow>
         (let (b, cs) = selector_apply sel (to_select p) (cells s1); s2 = s1\<lparr>cells := cs\<rparr> in
          if \<not> b \<and> p = Consume then
            map_option (\<lambda>n. (True, s2\<lparr>recv_permits := n\<rparr>)) (dec_usize (recv_permits s2))
          else Some (True, s2))
     | (None, s1) \<Rightarrow> Some (False, s1\<lparr>receivers := receivers s1 @ [RSelector sel]\<rparr>))"

text \<open>
  A waiter removed from its queue is dropped. The waker of a blocked task is the only one of its
  session, so dropping it ends the session without a message: the task panics. A selector's waker
  is one of several clones and a thread's waker is shared with the thread: their cells stay.
\<close>

fun drop_recv_waiter :: "recv_waiter \<Rightarrow> 'a wake_msg cells \<Rightarrow> 'a wake_msg cells" where
  "drop_recv_waiter (RTask w) cs = (if cs w = Pending then cs(w := Dead) else cs)"
| "drop_recv_waiter _ cs = cs"

definition remove_receiver_at :: "nat \<Rightarrow> 'a state \<Rightarrow> 'a state" where
  "remove_receiver_at i s =
    (if i < length (receivers s)
     then s\<lparr>receivers := remove_at i (receivers s),
            cells := drop_recv_waiter (receivers s ! i) (cells s)\<rparr>
     else s)"

text \<open>The position is found among the senders, the removal is made among the receivers.\<close>

definition unwatch_send_permit :: "nat \<Rightarrow> 'a state \<Rightarrow> 'a state" where
  "unwatch_send_permit ident s =
    (case position (waiter_matches ident) (senders s) of
       None \<Rightarrow> s | Some i \<Rightarrow> remove_receiver_at i s)"

definition unwatch_recv_permit :: "nat \<Rightarrow> 'a state \<Rightarrow> 'a state" where
  "unwatch_recv_permit ident s =
    (case position (recv_waiter_matches ident) (receivers s) of
       None \<Rightarrow> s | Some i \<Rightarrow> remove_receiver_at i s)"

end
