(* ===== verification/Parallel_History.thy ===== *)
theory Parallel_History
  imports Parallel_Proofs
begin

text \<open>
  Histories of a parallel channel. Each operation is observed from outside: which permits it gives
  to callers and selectors, whose blocked send it completes, which value it returns or hands to
  a waiting thread. The observations are read off the results and the wake cells, and the
  invariant relates them to the counters and the queue of the state.
\<close>

section \<open>Observations\<close>

fun waiter_id :: "'a waiter \<Rightarrow> nat" where
  "waiter_id (WTask w v) = w"
| "waiter_id (WThread w v) = w"
| "waiter_id (WSelector sel) = sel_waker sel"

fun recv_waiter_id :: "recv_waiter \<Rightarrow> nat" where
  "recv_waiter_id (RSelector sel) = sel_waker sel"
| "recv_waiter_id (RTask w) = w"
| "recv_waiter_id (RThread w) = w"

fun grants :: "'a wake_msg cell \<Rightarrow> bool" where
  "grants (Woken (MPermit p)) \<longleftrightarrow> p = Consume"
| "grants (Woken (MSelected i p)) \<longleftrightarrow> p = to_select Consume"
| "grants _ \<longleftrightarrow> False"

text \<open>How many cells of a list got a permit to consume between two states.\<close>

definition granted :: "nat list \<Rightarrow> 'a state \<Rightarrow> 'a state \<Rightarrow> nat" where
  "granted ids s s' = card (set (filter (\<lambda>w. cells s w = Pending \<and> grants (cells s' w)) ids))"

definition send_grants :: "'a state \<Rightarrow> 'a state \<Rightarrow> nat" where
  "send_grants s s' = granted (map waiter_id (senders s)) s s'"

definition recv_grants :: "'a state \<Rightarrow> 'a state \<Rightarrow> nat" where
  "recv_grants s s' = granted (map recv_waiter_id (receivers s)) s s'"

text \<open>The values of blocked senders that are told that their send succeeded.\<close>

fun told_ok :: "'a wake_msg cells \<Rightarrow> 'a waiter \<Rightarrow> 'a list" where
  "told_ok cs (WTask w v) = (if cs w = Woken (MSent (Inr ())) then [v] else [])"
| "told_ok cs (WThread w v) = (if cs w = Woken (MSent (Inr ())) then [v] else [])"
| "told_ok cs (WSelector sel) = []"

definition accepts :: "'a state \<Rightarrow> 'a state \<Rightarrow> 'a list" where
  "accepts s s' = concat (map (told_ok (cells s')) (senders s))"

text \<open>The values put into the cells of waiting threads.\<close>

fun handed :: "'a wake_msg cells \<Rightarrow> recv_waiter \<Rightarrow> 'a list" where
  "handed cs (RThread w) = (case cs w of Woken (MReceived (Some v)) \<Rightarrow> [v] | _ \<Rightarrow> [])"
| "handed cs _ = []"

definition hands :: "'a state \<Rightarrow> 'a state \<Rightarrow> 'a list" where
  "hands s s' = concat (map (handed (cells s')) (receivers s))"

section \<open>Operations and runs\<close>

text \<open>
  A configuration has the state, the permits outstanding outside the channel, and the logs of
  values accepted from senders and taken by receivers.
\<close>

record 'a conf =
  chan :: "'a state"
  send_held :: nat
  recv_held :: nat
  accepted :: "'a list"
  taken :: "'a list"

datatype 'a op =
    OpSend caller 'a
  | OpConsumeSend 'a
  | OpSelectSend
  | OpWatchSend selector
  | OpUnwatchSend nat
  | OpRecv caller
  | OpRecvFinish nat
  | OpConsumeRecv
  | OpSelectRecv
  | OpWatchRecv selector
  | OpUnwatchRecv nat
  | OpClose
  | OpInterrupt nat    \<comment> \<open>the task waiting on a cell is aborted\<close>

definition conf_new :: "nat \<Rightarrow> 'a conf" where
  "conf_new b = \<lparr>chan = state_new b, send_held = 0, recv_held = 0, accepted = [], taken = []\<rparr>"

definition observe :: "'a state \<Rightarrow> nat \<Rightarrow> nat \<Rightarrow> 'a list \<Rightarrow> 'a list \<Rightarrow> 'a conf \<Rightarrow> 'a conf" where
  "observe s' sh rh ins outs c = \<lparr>chan = s', send_held = sh, recv_held = rh,
    accepted = accepted c @ ins, taken = taken c @ outs\<rparr>"

fun returned :: "(try_recv_error + 'a) outcome \<Rightarrow> 'a list" where
  "returned (Return (Inr v)) = [v]"
| "returned _ = []"

fun opt_list :: "'a option \<Rightarrow> 'a list" where
  "opt_list None = []"
| "opt_list (Some v) = [v]"

fun chan_op :: "bool \<Rightarrow> 'a op \<Rightarrow> 'a conf \<Rightarrow> 'a conf option" where
  "chan_op chk (OpSend who v) c = map_option (\<lambda>(r, s').
     observe s' (send_held c) (recv_held c + recv_grants (chan c) s')
       (if r = Return (Inr ()) then [v] else []) (hands (chan c) s') c) (send who v (chan c))"
| "chan_op chk (OpConsumeSend v) c = map_option (\<lambda>(r, s').
     observe s' (send_held c - 1) (recv_held c + recv_grants (chan c) s')
       (if r = Inr () then [v] else []) (hands (chan c) s') c) (consume_send_permit v (chan c))"
| "chan_op chk OpSelectSend c = (let (p, s') = select_send_permit (chan c) in
     Some (observe s' (send_held c + (if p = Some Consume then 1 else 0)) (recv_held c) [] [] c))"
| "chan_op chk (OpWatchSend sel) c = map_option (\<lambda>(b, s').
     observe s' (send_held c + granted [sel_waker sel] (chan c) s') (recv_held c) [] [] c)
     (watch_send_permit sel (chan c))"
| "chan_op chk (OpUnwatchSend i) c = Some (c\<lparr>chan := unwatch_send_permit i (chan c)\<rparr>)"
| "chan_op chk (OpRecv who) c = map_option (\<lambda>(r, s').
     observe s' (send_held c + send_grants (chan c) s') (recv_held c)
       (accepts (chan c) s') (returned r) c) (recv chk who (chan c))"
| "chan_op chk (OpRecvFinish w) c = map_option (\<lambda>(r, s').
     (if cells (chan c) w = Woken (MPermit Consume) then
        observe s' (send_held c + send_grants (chan c) s') (recv_held c - 1)
          (accepts (chan c) s') (returned (Return r)) c
      else c\<lparr>chan := s'\<rparr>)) (recv_finish w (chan c))"
| "chan_op chk OpConsumeRecv c = map_option (\<lambda>(r, s').
     observe s' (send_held c + send_grants (chan c) s') (recv_held c - 1)
       (accepts (chan c) s') (opt_list r) c) (consume_recv_permit (chan c))"
| "chan_op chk OpSelectRecv c = (let (p, s') = select_recv_permit (chan c) in
     Some (observe s' (send_held c) (recv_held c + (if p = Some Consume then 1 else 0)) [] [] c))"
| "chan_op chk (OpWatchRecv sel) c = map_option (\<lambda>(b, s').
     observe s' (send_held c) (recv_held c + granted [sel_waker sel] (chan c) s') [] [] c)
     (watch_recv_permit sel (chan c))"
| "chan_op chk (OpUnwatchRecv i) c = Some (c\<lparr>chan := unwatch_recv_permit i (chan c)\<rparr>)"
| "chan_op chk OpClose c = Some (c\<lparr>chan := state_close (chan c)\<rparr>)"
| "chan_op chk (OpInterrupt w) c = Some (c\<lparr>chan := (chan c)\<lparr>cells :=
     (if cells (chan c) w = Pending then (cells (chan c))(w := Dead) else cells (chan c))\<rparr>\<rparr>)"

text \<open>
  What callers may do: wait on a fresh cell, use a selector whose waker is not that of a blocked
  call, consume a permit they hold, finish a receive once woken.
\<close>

definition fresh :: "nat \<Rightarrow> 'a state \<Rightarrow> bool" where
  "fresh w s \<longleftrightarrow> cells s w = Pending \<and> w \<notin> set (map waiter_id (senders s)) \<and>
     w \<notin> set (map recv_waiter_id (receivers s))"

fun blocked_sender :: "'a waiter \<Rightarrow> bool" where
  "blocked_sender (WSelector sel) = False"
| "blocked_sender _ = True"

fun blocked_receiver :: "recv_waiter \<Rightarrow> bool" where
  "blocked_receiver (RSelector sel) = False"
| "blocked_receiver _ = True"

definition blocked :: "'a state \<Rightarrow> nat list" where
  "blocked s = map waiter_id (filter blocked_sender (senders s)) @
     map recv_waiter_id (filter blocked_receiver (receivers s))"

fun caller_ok :: "caller \<Rightarrow> 'a state \<Rightarrow> bool" where
  "caller_ok Trying s = True"
| "caller_ok (InTask w) s = fresh w s"
| "caller_ok (OnThread w) s = fresh w s"

fun finishes :: "'a wake_msg cell \<Rightarrow> bool" where
  "finishes (Woken (MPermit p)) = True"
| "finishes (Woken (MReceived r)) = True"
| "finishes _ = False"

fun allowed :: "'a op \<Rightarrow> 'a conf \<Rightarrow> bool" where
  "allowed (OpSend who v) c = caller_ok who (chan c)"
| "allowed (OpRecv who) c = caller_ok who (chan c)"
| "allowed (OpConsumeSend v) c = (0 < send_held c)"
| "allowed OpConsumeRecv c = (0 < recv_held c)"
| "allowed (OpRecvFinish w) c =
     (finishes (cells (chan c) w) \<and> (cells (chan c) w = Woken (MPermit Consume) \<longrightarrow> 0 < recv_held c))"
| "allowed (OpWatchSend sel) c = (sel_waker sel \<notin> set (blocked (chan c)))"
| "allowed (OpWatchRecv sel) c = (sel_waker sel \<notin> set (blocked (chan c)))"
| "allowed _ c = True"

fun allowed_run :: "bool \<Rightarrow> 'a op list \<Rightarrow> 'a conf \<Rightarrow> bool" where
  "allowed_run chk [] c = True"
| "allowed_run chk (x # xs) c =
    (allowed x c \<and> (case chan_op chk x c of None \<Rightarrow> True | Some c' \<Rightarrow> allowed_run chk xs c'))"

fun chan_run :: "bool \<Rightarrow> 'a op list \<Rightarrow> 'a conf \<Rightarrow> 'a conf option" where
  "chan_run chk [] c = Some c"
| "chan_run chk (x # xs) c = (case chan_op chk x c of None \<Rightarrow> None | Some c' \<Rightarrow> chan_run chk xs c')"

section \<open>The invariant\<close>

definition chan_ok :: "'a state \<Rightarrow> bool" where
  "chan_ok s \<longleftrightarrow> 0 < bound s \<and> recvable_len s \<le> bound s \<and> (closed s \<longrightarrow> senders s = []) \<and>
     (\<not> closed s \<longrightarrow> recv_permits s \<le> length (deque s))"

definition selecting :: "'a state \<Rightarrow> nat set" where
  "selecting s = waiter_id ` {x \<in> set (senders s). \<not> blocked_sender x} \<union>
     recv_waiter_id ` {x \<in> set (receivers s). \<not> blocked_receiver x}"

definition ids_ok :: "'a state \<Rightarrow> bool" where
  "ids_ok s \<longleftrightarrow> distinct (blocked s) \<and> (\<forall>w\<in>set (blocked s). cells s w = Pending \<or> cells s w = Dead) \<and>
     set (blocked s) \<inter> selecting s = {}"

definition conf_ok :: "'a conf \<Rightarrow> bool" where
  "conf_ok c \<longleftrightarrow> chan_ok (chan c) \<and> ids_ok (chan c) \<and> send_held c = send_permits (chan c) \<and>
     recv_held c = recv_permits (chan c) \<and> accepted c = taken c @ deque (chan c)"

section \<open>Observing the wakes\<close>

lemma granted_same: "cells s' = cells s \<Longrightarrow> granted ids s s' = 0"
proof -
  assume "cells s' = cells s"
  then have "set (filter (\<lambda>w. cells s w = Pending \<and> grants (cells s' w)) ids) = {}" by auto
  then show ?thesis unfolding granted_def by (simp only: card.empty)
qed

lemma granted_upd:
  assumes "cells s' = (cells s)(i := Woken m)"
  shows "granted ids s s' = (if i \<in> set ids \<and> cells s i = Pending \<and> grants (Woken m) then 1 else 0)"
proof -
  have "set (filter (\<lambda>w. cells s w = Pending \<and> grants (cells s' w)) ids) =
    (if i \<in> set ids \<and> cells s i = Pending \<and> grants (Woken m) then {i} else {})"
    using assms by auto
  then show ?thesis by (simp add: granted_def)
qed

section \<open>Effects of the wakes\<close>

lemma blocked_subseq:
  assumes "subseq (senders s') (senders s)" and "subseq (receivers s') (receivers s)"
  shows "subseq (blocked s') (blocked s)"
  unfolding blocked_def
  by (intro list_emb_append_mono subseq_map subseq_filter assms)

lemma ids_ok_shrink:
  assumes ok: "ids_ok s" and sub: "subseq (senders s') (senders s)" "subseq (receivers s') (receivers s)"
    and cs: "\<And>w. w \<in> set (blocked s') \<Longrightarrow> cells s' w = cells s w \<or> cells s' w = Dead"
  shows "ids_ok s'"
proof -
  note b = blocked_subseq [OF sub]
  have "distinct (blocked s')" using subseq_distinct [OF b] ok by (simp add: ids_ok_def)
  moreover have "cells s' w = Pending \<or> cells s' w = Dead" if "w \<in> set (blocked s')" for w
    using cs [OF that] subseq_set [OF b] ok that by (auto simp: ids_ok_def)
  moreover have "selecting s' \<subseteq> selecting s"
    using subseq_set [OF sub(1)] subseq_set [OF sub(2)] unfolding selecting_def by blast
  ultimately show ?thesis using subseq_set [OF b] ok unfolding ids_ok_def by blast
qed

lemma blocked_cell:
  "ids_ok s \<Longrightarrow> y \<in> set (senders s) \<Longrightarrow> blocked_sender y \<Longrightarrow> cells s (waiter_id y) \<in> {Pending, Dead}"
  "ids_ok s \<Longrightarrow> z \<in> set (receivers s) \<Longrightarrow> blocked_receiver z \<Longrightarrow> cells s (recv_waiter_id z) \<in> {Pending, Dead}"
  by (auto simp: ids_ok_def blocked_def)

lemma other_sender_id:
  assumes ok: "ids_ok s" and split: "senders s = pre @ x # ws" and y: "y \<in> set (pre @ ws)" "blocked_sender y"
  shows "waiter_id y \<noteq> waiter_id x"
proof (cases "blocked_sender x")
  case True
  have "distinct (map waiter_id (filter blocked_sender (senders s)))"
    using ok by (simp add: ids_ok_def blocked_def)
  then show ?thesis using split y True by (auto simp: image_iff)
next
  case False
  then have "waiter_id x \<in> selecting s" using split by (auto simp: selecting_def)
  moreover have "waiter_id y \<in> set (blocked s)" using split y by (auto simp: blocked_def)
  ultimately show ?thesis using ok unfolding ids_ok_def by auto
qed

lemma other_receiver_id:
  assumes ok: "ids_ok s" and split: "receivers s = pre @ x # ws" and y: "y \<in> set (pre @ ws)" "blocked_receiver y"
  shows "recv_waiter_id y \<noteq> recv_waiter_id x"
proof (cases "blocked_receiver x")
  case True
  have "distinct (map recv_waiter_id (filter blocked_receiver (receivers s)))"
    using ok by (simp add: ids_ok_def blocked_def)
  then show ?thesis using split y True by (auto simp: image_iff)
next
  case False
  then have "recv_waiter_id x \<in> selecting s" using split by (auto simp: selecting_def)
  moreover have "recv_waiter_id y \<in> set (blocked s)" using split y by (auto simp: blocked_def)
  ultimately show ?thesis using ok unfolding ids_ok_def by auto
qed

lemma sender_receiver_id:
  assumes ok: "ids_ok s" and x: "x \<in> set (senders s)" and y: "y \<in> set (receivers s)"
    and b: "blocked_sender x \<or> blocked_receiver y"
  shows "waiter_id x \<noteq> recv_waiter_id y"
proof
  assume eq: "waiter_id x = recv_waiter_id y"
  let ?A = "set (map waiter_id (filter blocked_sender (senders s)))"
  let ?B = "set (map recv_waiter_id (filter blocked_receiver (receivers s)))"
  have dis: "?A \<inter> ?B = {}" "(?A \<union> ?B) \<inter> selecting s = {}"
    using ok by (auto simp: ids_ok_def blocked_def)
  have "waiter_id x \<in> (if blocked_sender x then ?A else selecting s)"
    using x by (auto simp: selecting_def)
  moreover have "recv_waiter_id y \<in> (if blocked_receiver y then ?B else selecting s)"
    using y by (auto simp: selecting_def)
  ultimately show False using dis b eq by (auto split: if_splits)
qed

lemma told_ok_before: "ids_ok s \<Longrightarrow> y \<in> set (senders s) \<Longrightarrow> told_ok (cells s) y = []"
  using blocked_cell(1) [of s y] by (cases y) auto

lemma handed_before: "ids_ok s \<Longrightarrow> y \<in> set (receivers s) \<Longrightarrow> handed (cells s) y = []"
  using blocked_cell(2) [of s y] by (cases y) auto

lemma told_ok_upd: "waiter_id y \<noteq> i \<or> \<not> blocked_sender y \<Longrightarrow> told_ok (cs(i := m)) y = told_ok cs y"
  by (cases y) auto

lemma handed_upd: "recv_waiter_id y \<noteq> i \<or> \<not> blocked_receiver y \<Longrightarrow> handed (cs(i := m)) y = handed cs y"
  by (cases y) auto

lemma accepts_same: "ids_ok s \<Longrightarrow> cells s' = cells s \<Longrightarrow> accepts s s' = []"
  unfolding accepts_def by (rule concat_map_none) (simp add: told_ok_before)

lemma hands_same: "ids_ok s \<Longrightarrow> cells s' = cells s \<Longrightarrow> hands s s' = []"
  unfolding hands_def by (rule concat_map_none) (simp add: handed_before)

text \<open>What waking one sender does, as seen from outside.\<close>

definition sender_woken :: "'a state \<Rightarrow> 'a state \<Rightarrow> bool" where
  "sender_woken s s' \<longleftrightarrow> deque s' = deque s @ accepts s s' \<and>
     send_permits s' = send_permits s + send_grants s s' \<and>
     recv_permits s' = recv_permits s \<and> bound s' = bound s \<and> closed s' = closed s \<and>
     receivers s' = receivers s \<and> subseq (senders s') (senders s) \<and> ids_ok s' \<and>
     recvable_len s' \<le> Suc (recvable_len s) \<and>
     (senders s' \<noteq> [] \<longrightarrow> recvable_len s' = Suc (recvable_len s))"

lemma wake_sender_woken:
  assumes ok: "ids_ok s"
  shows "sender_woken s (wake_sender s)"
proof (cases rule: wake_sender_cases [of s])
  case none
  then have "ids_ok (wake_sender s)" by (intro ids_ok_shrink [OF ok]) auto
  then show ?thesis using none accepts_same [OF ok, of "wake_sender s"]
    by (simp add: sender_woken_def send_grants_def granted_same recvable_len_def)
next
  case (some pre x ws)
  let ?s = "wake_sender s"
  obtain m where cs: "cells ?s = (cells s)(waiter_id x := Woken m)"
    and m: "m = MSent (Inr ()) \<and> blocked_sender x \<or> grants (Woken m) \<and> \<not> blocked_sender x"
    using some(4) by (cases x) auto
  have others: "\<forall>y\<in>set (pre @ ws). told_ok (cells ?s) y = []"
  proof
    fix y assume y: "y \<in> set (pre @ ws)"
    then have "waiter_id y \<noteq> waiter_id x \<or> \<not> blocked_sender y"
      using other_sender_id [OF ok some(1) y] by blast
    then show "told_ok (cells ?s) y = []"
      using told_ok_before [OF ok, of y] y some(1) by (simp add: cs told_ok_upd)
  qed
  then have "accepts s ?s = told_ok (cells ?s) x"
    unfolding accepts_def some(1) by (intro concat_map_single) auto
  moreover have "ids_ok ?s"
  proof (rule ids_ok_shrink [OF ok])
    show sub: "subseq (senders ?s) (senders s)" using some by (cases x) auto
    show rsub: "subseq (receivers ?s) (receivers s)" using some by (cases x) auto
    fix w assume "w \<in> set (blocked ?s)"
    moreover have "senders ?s = ws" "receivers ?s = receivers s" using some(4) by (cases x; simp)+
    ultimately consider y where "y \<in> set ws" "blocked_sender y" "w = waiter_id y"
      | z where "z \<in> set (receivers s)" "blocked_receiver z" "w = recv_waiter_id z"
      by (auto simp: blocked_def)
    then have "w \<noteq> waiter_id x"
    proof cases
      case 1
      then show ?thesis using other_sender_id [OF ok some(1), of y] by simp
    next
      case 2
      then show ?thesis using sender_receiver_id [OF ok, of x z] some(1) by auto
    qed
    then show "cells ?s w = cells s w \<or> cells ?s w = Dead" by (simp add: cs)
  qed
  moreover have "send_grants s ?s = (if blocked_sender x then 0 else 1)"
    unfolding send_grants_def granted_upd [OF cs] using some(1,3) m by (cases x) auto
  ultimately show ?thesis using some(1,4) by (cases x) (auto simp: sender_woken_def recvable_len_def)
qed

text \<open>What waking one receiver does.\<close>

definition receiver_woken :: "'a state \<Rightarrow> 'a state \<Rightarrow> bool" where
  "receiver_woken s s' \<longleftrightarrow> deque s = hands s s' @ deque s' \<and>
     recv_permits s' = recv_permits s + recv_grants s s' \<and>
     send_permits s' = send_permits s \<and> bound s' = bound s \<and> closed s' = closed s \<and>
     senders s' = senders s \<and> subseq (receivers s') (receivers s) \<and> ids_ok s' \<and>
     recv_permits s' + length (hands s s') \<le> Suc (recv_permits s) \<and>
     (receivers s' \<noteq> [] \<longrightarrow> recv_permits s' + length (hands s s') = Suc (recv_permits s))"

lemma wake_receiver_woken:
  assumes ok: "ids_ok s" and ne: "deque s \<noteq> []"
  shows "\<exists>s'. wake_receiver s = Some s' \<and> receiver_woken s s'"
proof (cases rule: wake_receiver_cases [OF ne, case_names none some])
  case none
  let ?s = "s\<lparr>receivers := []\<rparr>"
  have "ids_ok ?s" by (intro ids_ok_shrink [OF ok]) auto
  then have "receiver_woken s ?s" using hands_same [OF ok, of ?s]
    by (simp add: receiver_woken_def recv_grants_def granted_same)
  then show ?thesis using none(1) by blast
next
  case (some pre x ws)
  let ?s = "(hand x s)\<lparr>receivers := ws\<rparr>"
  obtain m where cs: "cells ?s = (cells s)(recv_waiter_id x := Woken m)"
    and m: "(\<forall>w. x \<noteq> RThread w) \<and> grants (Woken m) \<or> (\<exists>w. x = RThread w) \<and> m = MReceived (Some (hd (deque s)))"
    by (cases x) auto
  have others: "\<forall>y\<in>set (pre @ ws). handed (cells ?s) y = []"
  proof
    fix y assume y: "y \<in> set (pre @ ws)"
    then have "recv_waiter_id y \<noteq> recv_waiter_id x \<or> \<not> blocked_receiver y"
      using other_receiver_id [OF ok some(1) y] by blast
    then show "handed (cells ?s) y = []"
      using handed_before [OF ok, of y] y some(1) by (simp add: cs handed_upd)
  qed
  then have h: "hands s ?s = handed (cells ?s) x"
    unfolding hands_def some(1) by (intro concat_map_single) auto
  have ids: "ids_ok ?s"
  proof (rule ids_ok_shrink [OF ok])
    show "subseq (senders ?s) (senders s)" by (cases x) auto
    show "subseq (receivers ?s) (receivers s)" using some(1) by auto
    fix w assume "w \<in> set (blocked ?s)"
    moreover have "senders ?s = senders s" by (cases x) auto
    ultimately consider y where "y \<in> set (senders s)" "blocked_sender y" "w = waiter_id y"
      | z where "z \<in> set ws" "blocked_receiver z" "w = recv_waiter_id z"
      by (auto simp: blocked_def)
    then have "w \<noteq> recv_waiter_id x"
    proof cases
      case 1
      then show ?thesis using sender_receiver_id [OF ok, of y x] some(1) by auto
    next
      case 2
      then show ?thesis using other_receiver_id [OF ok some(1), of z] by simp
    qed
    then show "cells ?s w = cells s w \<or> cells ?s w = Dead" by (simp add: cs)
  qed
  have g: "recv_grants s ?s = (if \<exists>w. x = RThread w then 0 else 1)"
    unfolding recv_grants_def granted_upd [OF cs] using some(1,3) m by (cases x) auto
  have "receiver_woken s ?s"
    using ids some(1) h g ne by (cases x) (auto simp: receiver_woken_def)
  then show ?thesis using some(4) by blast
qed

end
