(* ===== verification/Parallel_Correct.thy ===== *)
theory Parallel_Correct
  imports Parallel_History
begin

text \<open>
  Every operation of the parallel channel, from every configuration that satisfies the invariant
  and allows it, returns without a panic and keeps the invariant; then what follows for whole
  histories.
\<close>

section \<open>Frames\<close>

lemma blocked_cong:
  "senders s' = senders s \<Longrightarrow> receivers s' = receivers s \<Longrightarrow> blocked s' = blocked s"
  by (simp add: blocked_def)

lemma selecting_cong:
  "senders s' = senders s \<Longrightarrow> receivers s' = receivers s \<Longrightarrow> selecting s' = selecting s"
  by (simp add: selecting_def)

lemma ids_ok_cong:
  "senders s' = senders s \<Longrightarrow> receivers s' = receivers s \<Longrightarrow> cells s' = cells s \<Longrightarrow> ids_ok s' = ids_ok s"
  by (simp add: ids_ok_def blocked_cong [of s' s] selecting_cong [of s' s])

lemma recv_obs_cong:
  "receivers s1 = receivers s \<Longrightarrow> cells s1 = cells s \<Longrightarrow> recv_grants s1 s' = recv_grants s s'"
  "receivers s1 = receivers s \<Longrightarrow> hands s1 s' = hands s s'"
  by (simp_all add: recv_grants_def granted_def hands_def)

lemma send_obs_cong:
  "senders s1 = senders s \<Longrightarrow> cells s1 = cells s \<Longrightarrow> send_grants s1 s' = send_grants s s'"
  "senders s1 = senders s \<Longrightarrow> accepts s1 s' = accepts s s'"
  by (simp_all add: send_grants_def granted_def accepts_def)

lemma recv_obs_same:
  "cells s' = cells s \<Longrightarrow> recv_grants s s' = 0" "ids_ok s \<Longrightarrow> cells s' = cells s \<Longrightarrow> hands s s' = []"
  by (simp_all add: recv_grants_def granted_same hands_same)

lemma send_obs_same:
  "cells s' = cells s \<Longrightarrow> send_grants s s' = 0" "ids_ok s \<Longrightarrow> cells s' = cells s \<Longrightarrow> accepts s s' = []"
  by (simp_all add: send_grants_def granted_same accepts_same)

text \<open>Enqueueing a waiter on a fresh cell, or a selector.\<close>

lemma selecting_enqueue:
  "selecting (s\<lparr>senders := senders s @ [x]\<rparr>) =
    (if blocked_sender x then selecting s else insert (waiter_id x) (selecting s))"
  "selecting (s\<lparr>receivers := receivers s @ [y]\<rparr>) =
    (if blocked_receiver y then selecting s else insert (recv_waiter_id y) (selecting s))"
  unfolding selecting_def by auto

lemma set_blocked_enqueue:
  "set (blocked (s\<lparr>senders := senders s @ [x]\<rparr>)) =
    (if blocked_sender x then insert (waiter_id x) (set (blocked s)) else set (blocked s))"
  "set (blocked (s\<lparr>receivers := receivers s @ [y]\<rparr>)) =
    (if blocked_receiver y then insert (recv_waiter_id y) (set (blocked s)) else set (blocked s))"
  unfolding blocked_def by auto

lemma distinct_mid: "distinct (xs @ y # ys) \<longleftrightarrow> y \<notin> set (xs @ ys) \<and> distinct (xs @ ys)"
  by auto

lemma distinct_blocked_enqueue:
  "distinct (blocked (s\<lparr>senders := senders s @ [x]\<rparr>)) \<longleftrightarrow>
    (blocked_sender x \<longrightarrow> waiter_id x \<notin> set (blocked s)) \<and> distinct (blocked s)"
  "distinct (blocked (s\<lparr>receivers := receivers s @ [y]\<rparr>)) \<longleftrightarrow>
    (blocked_receiver y \<longrightarrow> recv_waiter_id y \<notin> set (blocked s)) \<and> distinct (blocked s)"
  unfolding blocked_def by (simp_all add: distinct_mid del: distinct_append) auto

lemma freshD:
  assumes "fresh w s"
  shows "cells s w = Pending" "w \<notin> set (blocked s)" "w \<notin> selecting s"
  using assms unfolding fresh_def blocked_def selecting_def by auto

lemma ids_ok_enqueue_sender:
  assumes "ids_ok s" and "fresh (waiter_id x) s"
  shows "ids_ok (s\<lparr>senders := senders s @ [x]\<rparr>)"
  using assms(1) freshD [OF assms(2)] unfolding ids_ok_def
  by (simp only: selecting_enqueue set_blocked_enqueue distinct_blocked_enqueue) (cases "blocked_sender x"; simp)

lemma ids_ok_enqueue_receiver:
  assumes "ids_ok s" and "fresh (recv_waiter_id x) s"
  shows "ids_ok (s\<lparr>receivers := receivers s @ [x]\<rparr>)"
  using assms(1) freshD [OF assms(2)] unfolding ids_ok_def
  by (simp only: selecting_enqueue set_blocked_enqueue distinct_blocked_enqueue) (cases "blocked_receiver x"; simp)

lemma ids_ok_watch_send:
  assumes "ids_ok s" and "sel_waker sel \<notin> set (blocked s)"
  shows "ids_ok (s\<lparr>senders := senders s @ [WSelector sel]\<rparr>)"
  using assms unfolding ids_ok_def
  by (simp only: selecting_enqueue set_blocked_enqueue distinct_blocked_enqueue) simp

lemma ids_ok_watch_recv:
  assumes "ids_ok s" and "sel_waker sel \<notin> set (blocked s)"
  shows "ids_ok (s\<lparr>receivers := receivers s @ [RSelector sel]\<rparr>)"
  using assms unfolding ids_ok_def
  by (simp only: selecting_enqueue set_blocked_enqueue distinct_blocked_enqueue) simp

lemma ids_ok_cell:
  assumes ok: "ids_ok s" and w: "w \<notin> set (blocked s)" and sr: "senders s' = senders s" "receivers s' = receivers s"
    and cs: "cells s' = (cells s)(w := m)"
  shows "ids_ok s'"
proof -
  have "cells s' x = cells s x" if "x \<in> set (blocked s)" for x using cs w that by auto
  then show ?thesis using ok unfolding ids_ok_def blocked_cong [OF sr] selecting_cong [OF sr] by simp
qed

section \<open>Each operation\<close>

lemmas conf_unfold = conf_ok_def chan_ok_def observe_def

text \<open>Appending a value to an open channel and waking a receiver.\<close>

lemma push_ok:
  fixes s :: "'a state" and v :: 'a
  assumes ok: "chan_ok s" "ids_ok s" "\<not> closed s" and room: "length (deque s) + sp < bound s"
  defines "s1 \<equiv> s\<lparr>send_permits := sp, deque := deque s @ [v]\<rparr>"
  shows "\<exists>s'. wake_receiver s1 = Some s' \<and> chan_ok s' \<and> ids_ok s' \<and> send_permits s' = sp \<and>
    recv_permits s' = recv_permits s + recv_grants s s' \<and> deque s @ [v] = hands s s' @ deque s'"
proof -
  have sr: "senders s1 = senders s" "receivers s1 = receivers s" "cells s1 = cells s"
    by (simp_all add: s1_def)
  have "ids_ok s1" using ok(2) unfolding ids_ok_cong [OF sr] .
  moreover have "deque s1 \<noteq> []" by (simp add: s1_def)
  ultimately obtain s' where s': "wake_receiver s1 = Some s'" "receiver_woken s1 s'"
    using wake_receiver_woken by blast
  note obs = recv_obs_cong(1) [OF sr(2,3), of s'] recv_obs_cong(2) [OF sr(2), of s']
  note rw = s'(2) [unfolded receiver_woken_def obs]
  have d1: "deque s1 = deque s @ [v]" "send_permits s1 = sp" "bound s1 = bound s" "closed s1 = closed s"
    "recv_permits s1 = recv_permits s" by (simp_all add: s1_def)
  have w: "deque s @ [v] = hands s s' @ deque s'" "send_permits s' = sp" "bound s' = bound s"
      "closed s' = closed s" "senders s' = senders s" "ids_ok s'"
      "recv_permits s' = recv_permits s + recv_grants s s'"
      "recv_permits s' + length (hands s s') \<le> Suc (recv_permits s)"
    using rw unfolding d1 sr by blast+
  have len: "Suc (length (deque s)) = length (hands s s') + length (deque s')"
    using arg_cong [OF w(1), of length] by simp
  have "chan_ok s'" using ok(1,3) room w len by (auto simp: chan_ok_def recvable_len_def)
  then show ?thesis using s'(1) w by blast
qed

lemma send_ok:
  assumes ok: "conf_ok c" and al: "allowed (OpSend who v) c"
  shows "\<exists>c'. chan_op chk (OpSend who v) c = Some c' \<and> conf_ok c'"
proof -
  let ?s = "chan c"
  have ids: "ids_ok ?s" and co: "chan_ok ?s" using ok by (auto simp: conf_ok_def)
  show ?thesis
  proof (cases "closed ?s \<or> is_full ?s")
    case True
    then show ?thesis
      using ok al ids_ok_enqueue_sender [OF ids, of "WTask w v" for w]
        ids_ok_enqueue_sender [OF ids, of "WThread w v" for w]
      by (cases who) (auto simp: send_def conf_unfold recv_obs_same recvable_len_def)
  next
    case False
    then have open_s: "\<not> closed ?s" "\<not> is_full ?s" by auto
    then have "length (deque ?s) + send_permits ?s < bound ?s"
      using co by (auto simp: chan_ok_def is_full_def recvable_len_def)
    from push_ok [OF co ids open_s(1) this, of v] obtain s' where s':
      "wake_receiver (?s\<lparr>deque := deque ?s @ [v]\<rparr>) = Some s'" "chan_ok s'" "ids_ok s'"
      "send_permits s' = send_permits ?s" "recv_permits s' = recv_permits ?s + recv_grants ?s s'"
      "deque ?s @ [v] = hands ?s s' @ deque s'" by auto
    then show ?thesis using open_s ok by (auto simp: send_def conf_ok_def observe_def)
  qed
qed

lemma consume_send_ok:
  assumes ok: "conf_ok c" and al: "allowed (OpConsumeSend v) c"
  shows "\<exists>c'. chan_op chk (OpConsumeSend v) c = Some c' \<and> conf_ok c'"
proof -
  let ?s = "chan c"
  have ids: "ids_ok ?s" and co: "chan_ok ?s" and held: "send_held c = send_permits ?s"
      "recv_held c = recv_permits ?s" "accepted c = taken c @ deque ?s" and sp: "0 < send_permits ?s"
    using ok al by (simp_all add: conf_ok_def)
  let ?sp = "send_permits ?s - 1"
  have room: "length (deque ?s) + ?sp < bound ?s"
    using co sp by (auto simp: chan_ok_def recvable_len_def)
  then have nf: "\<not> is_full (?s\<lparr>send_permits := ?sp\<rparr>)"
    by (simp add: is_full_def recvable_len_def)
  obtain s' where s': "consume_send_permit v ?s = Some (Inr (), s')" "chan_ok s'" "ids_ok s'"
    "send_permits s' = ?sp" "recv_permits s' = recv_permits ?s + recv_grants ?s s'"
    "deque ?s @ [v] = hands ?s s' @ deque s'"
  proof (cases "closed ?s")
    case True
    let ?s' = "?s\<lparr>send_permits := ?sp, deque := deque ?s @ [v]\<rparr>"
    have "consume_send_permit v ?s = Some (Inr (), ?s')"
      using True nf sp by (simp add: consume_send_permit_def dec_usize_pos is_recvable_def recvable_len_def)
    moreover have "chan_ok ?s'" using co room True by (simp add: chan_ok_def recvable_len_def)
    moreover have "ids_ok ?s'" using ids ids_ok_cong [of ?s' ?s] by simp
    ultimately show ?thesis
      using that [of ?s'] ids recv_obs_same(1) [of ?s' ?s] recv_obs_same(2) [of ?s ?s'] by simp
  next
    case False
    from push_ok [OF co ids False room, of v] obtain s' where s':
      "wake_receiver (?s\<lparr>send_permits := ?sp, deque := deque ?s @ [v]\<rparr>) = Some s'" "chan_ok s'" "ids_ok s'"
      "send_permits s' = ?sp" "recv_permits s' = recv_permits ?s + recv_grants ?s s'"
      "deque ?s @ [v] = hands ?s s' @ deque s'" by blast
    then have "consume_send_permit v ?s = Some (Inr (), s')"
      using False nf sp by (simp add: consume_send_permit_def dec_usize_pos)
    then show ?thesis using s' that by blast
  qed
  then show ?thesis using held by (simp add: conf_ok_def observe_def)
qed

lemma select_send_ok:
  assumes ok: "conf_ok c"
  shows "\<exists>c'. chan_op chk OpSelectSend c = Some c' \<and> conf_ok c'"
proof -
  have "ids_ok (chan c\<lparr>send_permits := Suc (send_permits (chan c))\<rparr>) = ids_ok (chan c)"
    by (rule ids_ok_cong) simp_all
  then show ?thesis using ok
    by (simp add: select_send_permit_def conf_unfold is_full_def recvable_len_def)
qed

lemma select_recv_ok:
  assumes ok: "conf_ok c"
  shows "\<exists>c'. chan_op chk OpSelectRecv c = Some c' \<and> conf_ok c'"
proof -
  have "ids_ok (chan c\<lparr>recv_permits := Suc (recv_permits (chan c))\<rparr>) = ids_ok (chan c)"
    by (rule ids_ok_cong) simp_all
  then show ?thesis using ok
    by (simp add: select_recv_permit_def conf_unfold is_empty_def recvable_len_def)
qed

text \<open>Taking the first value and waking a sender.\<close>

lemma pull_ok:
  fixes s :: "'a state" and v :: 'a
  assumes ok: "chan_ok s" "ids_ok s" and dq: "deque s = v # vs" and rp: "\<not> closed s \<longrightarrow> rp \<le> length vs"
  defines "s1 \<equiv> s\<lparr>recv_permits := rp, deque := vs\<rparr>"
  shows "chan_ok (wake_sender s1)" "ids_ok (wake_sender s1)" "recv_permits (wake_sender s1) = rp"
    "send_permits (wake_sender s1) = send_permits s + send_grants s (wake_sender s1)"
    "deque (wake_sender s1) = vs @ accepts s (wake_sender s1)"
    "recvable_len (wake_sender s1) \<le> bound (wake_sender s1)"
proof -
  have sr: "senders s1 = senders s" "receivers s1 = receivers s" "cells s1 = cells s"
    by (simp_all add: s1_def)
  have "ids_ok s1" using ok(2) unfolding ids_ok_cong [OF sr] .
  note w = wake_sender_woken [OF this, unfolded sender_woken_def]
  note obs = send_obs_cong(1) [OF sr(1,3), of "wake_sender s1"] send_obs_cong(2) [OF sr(1), of "wake_sender s1"]
  have d1: "deque s1 = vs" "send_permits s1 = send_permits s" "bound s1 = bound s"
    "closed s1 = closed s" "recv_permits s1 = rp" by (simp_all add: s1_def)
  have sub: "senders s = [] \<Longrightarrow> senders (wake_sender s1) = []" using w sr(1) by auto
  have len: "Suc (recvable_len s1) = recvable_len s" by (simp add: recvable_len_def d1 dq)
  show "chan_ok (wake_sender s1)"
    unfolding chan_ok_def using w ok(1) len sub rp by (auto simp: chan_ok_def d1)
  show "ids_ok (wake_sender s1)" "recv_permits (wake_sender s1) = rp"
    "send_permits (wake_sender s1) = send_permits s + send_grants s (wake_sender s1)"
    "deque (wake_sender s1) = vs @ accepts s (wake_sender s1)"
    using w unfolding d1 obs by blast+
  show "recvable_len (wake_sender s1) \<le> bound (wake_sender s1)"
    using \<open>chan_ok (wake_sender s1)\<close> by (simp add: chan_ok_def)
qed

lemma recv_ok:
  assumes ok: "conf_ok c" and al: "allowed (OpRecv who) c"
  shows "\<exists>c'. chan_op chk (OpRecv who) c = Some c' \<and> conf_ok c'"
proof -
  let ?s = "chan c"
  have ids: "ids_ok ?s" and co: "chan_ok ?s" and held: "send_held c = send_permits ?s"
      "recv_held c = recv_permits ?s" "accepted c = taken c @ deque ?s"
    using ok by (simp_all add: conf_ok_def)
  show ?thesis
  proof (cases "is_empty ?s")
    case True
    then show ?thesis
      using ok al ids_ok_enqueue_receiver [OF ids, of "RTask w" for w]
        ids_ok_enqueue_receiver [OF ids, of "RThread w" for w]
      by (cases who) (auto simp: recv_def conf_unfold send_obs_same recvable_len_def)
  next
    case False
    then obtain v vs where dq: "deque ?s = v # vs" by (cases "deque ?s") (auto simp: is_empty_def)
    then have rp: "\<not> closed ?s \<longrightarrow> recv_permits ?s \<le> length vs"
      using False by (simp add: is_empty_def)
    let ?s' = "wake_sender (?s\<lparr>recv_permits := recv_permits ?s, deque := vs\<rparr>)"
    note p = pull_ok [OF co ids dq rp]
    have same: "?s\<lparr>recv_permits := recv_permits ?s, deque := vs\<rparr> = ?s\<lparr>deque := vs\<rparr>" by simp
    have "recv chk who ?s = Some (Return (Inr v), ?s')"
      using False p(6) by (simp add: recv_def dq same)
    then show ?thesis using p held dq by (simp add: conf_ok_def observe_def)
  qed
qed

text \<open>Consuming a receive permit, for a caller, a woken select or a woken task.\<close>

lemma consume_recv_state:
  assumes ids: "ids_ok s" and co: "chan_ok s" and rp: "0 < recv_permits s"
  shows "\<exists>r s'. consume_recv_permit s = Some (r, s') \<and> chan_ok s' \<and> ids_ok s' \<and>
    recv_permits s' = recv_permits s - 1 \<and> send_permits s' = send_permits s + send_grants s s' \<and>
    deque s @ accepts s s' = opt_list r @ deque s' \<and> (\<not> closed s \<longrightarrow> r \<noteq> None)"
proof (cases "deque s")
  case Nil
  then have "closed s" using co rp by (auto simp: chan_ok_def)
  let ?s' = "s\<lparr>recv_permits := recv_permits s - 1\<rparr>"
  have "consume_recv_permit s = Some (None, ?s')"
    using Nil rp by (simp add: consume_recv_permit_def dec_usize_pos)
  moreover have "ids_ok ?s'" using ids ids_ok_cong [of ?s' s] by simp
  moreover have "chan_ok ?s'" using co \<open>closed s\<close> by (simp add: chan_ok_def recvable_len_def)
  ultimately show ?thesis using Nil ids \<open>closed s\<close> by (simp add: send_obs_same)
next
  case (Cons v vs)
  let ?rp = "recv_permits s - 1"
  let ?s1 = "s\<lparr>recv_permits := ?rp, deque := vs\<rparr>"
  have sr: "senders ?s1 = senders s" "receivers ?s1 = receivers s" "cells ?s1 = cells s" by simp_all
  have ids1: "ids_ok ?s1" using ids unfolding ids_ok_cong [OF sr] .
  have rp1: "\<not> closed s \<longrightarrow> ?rp \<le> length vs" using co Cons rp by (auto simp: chan_ok_def)
  have co1: "chan_ok ?s1" using co Cons rp1 by (simp add: chan_ok_def recvable_len_def)
  consider (drain) "closed s" "\<not> is_recvable ?s1" | (wake) "\<not> closed s" "is_full s"
    | (quiet) "closed s \<and> is_recvable ?s1 \<or> \<not> closed s \<and> \<not> is_full s" by blast
  then show ?thesis
  proof cases
    case drain
    let ?s' = "close_receivers ?s1"
    have e: "consume_recv_permit s = Some (Some v, ?s')"
      using Cons rp drain by (simp add: consume_recv_permit_def dec_usize_pos)
    have ws: "senders s = []" using co drain(1) by (simp add: chan_ok_def)
    have "ids_ok ?s'" by (simp add: close_receivers_def ids_ok_def blocked_def selecting_def ws)
    moreover have "chan_ok ?s'" using co1 by (simp add: close_receivers_def chan_ok_def recvable_len_def)
    moreover have "accepts s ?s' = []" "send_grants s ?s' = 0"
      using ws by (simp_all add: accepts_def send_grants_def granted_def)
    ultimately show ?thesis using e Cons by (simp add: close_receivers_def)
  next
    case wake
    have e: "consume_recv_permit s = Some (Some v, wake_sender ?s1)"
      using Cons rp wake by (simp add: consume_recv_permit_def dec_usize_pos)
    note p = pull_ok [OF co ids Cons rp1]
    have "deque s @ accepts s (wake_sender ?s1) = opt_list (Some v) @ deque (wake_sender ?s1)"
      unfolding p(5) Cons by simp
    then show ?thesis using e p(1-4) by blast
  next
    case quiet
    then have e: "consume_recv_permit s = Some (Some v, ?s1)"
      using Cons rp by (auto simp: consume_recv_permit_def dec_usize_pos)
    have "send_grants s ?s1 = 0" "accepts s ?s1 = []" using ids by (simp_all add: send_obs_same)
    then show ?thesis using e ids1 co1 Cons by simp
  qed
qed

lemma consume_recv_ok:
  assumes ok: "conf_ok c" and al: "allowed OpConsumeRecv c"
  shows "\<exists>c'. chan_op chk OpConsumeRecv c = Some c' \<and> conf_ok c'"
proof -
  from ok al consume_recv_state [of "chan c"] obtain r s' where
    "consume_recv_permit (chan c) = Some (r, s')" "chan_ok s'" "ids_ok s'"
    "recv_permits s' = recv_permits (chan c) - 1"
    "send_permits s' = send_permits (chan c) + send_grants (chan c) s'"
    "deque (chan c) @ accepts (chan c) s' = opt_list r @ deque s'"
    by (auto simp: conf_ok_def)
  then show ?thesis using ok by (simp add: conf_ok_def observe_def)
qed

lemma recv_finish_ok:
  assumes ok: "conf_ok c" and al: "allowed (OpRecvFinish w) c"
  shows "\<exists>c'. chan_op chk (OpRecvFinish w) c = Some c' \<and> conf_ok c'"
proof (cases "cells (chan c) w = Woken (MPermit Consume)")
  case True
  from ok al True consume_recv_state [of "chan c"] obtain r s' where r:
    "consume_recv_permit (chan c) = Some (r, s')" "chan_ok s'" "ids_ok s'"
    "recv_permits s' = recv_permits (chan c) - 1"
    "send_permits s' = send_permits (chan c) + send_grants (chan c) s'"
    "deque (chan c) @ accepts (chan c) s' = opt_list r @ deque s'"
    by (auto simp: conf_ok_def)
  obtain q where "recv_finish w (chan c) = Some (q, s')" "returned (Return q) = opt_list r"
    using r(1) True by (cases r) (auto simp: recv_finish_def)
  then show ?thesis using r True ok by (simp add: conf_ok_def observe_def)
next
  case False
  then have "\<exists>q. recv_finish w (chan c) = Some (q, chan c)"
    using al by (auto simp: recv_finish_def split: cell.splits wake_msg.splits permit.splits option.splits)
  then show ?thesis using False ok by auto
qed

section \<open>Watching, closing, interruption\<close>

lemma granted_one:
  "cells s' = cells s \<Longrightarrow> granted [w] s s' = 0"
  "cells s' = (cells s)(w := Woken m) \<Longrightarrow> cells s w = Pending \<Longrightarrow> granted [w] s s' = (if grants (Woken m) then 1 else 0)"
  by (simp_all add: granted_same granted_upd)

lemma watch_send_ok:
  assumes ok: "conf_ok c" and al: "allowed (OpWatchSend sel) c"
  shows "\<exists>c'. chan_op chk (OpWatchSend sel) c = Some c' \<and> conf_ok c'"
proof -
  let ?s = "chan c" and ?w = "sel_waker sel"
  have ids: "ids_ok ?s" and co: "chan_ok ?s" and held: "send_held c = send_permits ?s"
      "recv_held c = recv_permits ?s" "accepted c = taken c @ deque ?s"
    and w: "?w \<notin> set (blocked ?s)" using ok al by (simp_all add: conf_ok_def)
  have full: "\<not> is_full ?s \<Longrightarrow> Suc (recvable_len ?s) \<le> bound ?s"
    using co by (simp add: chan_ok_def is_full_def)
  have "\<exists>b s'. watch_send_permit sel ?s = Some (b, s') \<and> ids_ok s' \<and> chan_ok s' \<and> deque s' = deque ?s \<and>
    recv_permits s' = recv_permits ?s \<and> send_permits s' = send_permits ?s + granted [?w] ?s s'"
  proof (cases "cells ?s ?w = Pending")
    case True
    have cell: "ids_ok (s'\<lparr>cells := (cells ?s)(?w := m)\<rparr>)"
      if "senders s' = senders ?s" "receivers s' = receivers ?s" for s' m
      by (rule ids_ok_cell [OF ids w]) (simp_all add: that)
    show ?thesis using True co full ids_ok_watch_send [OF ids w]
      by (auto simp: watch_send_permit_def select_send_permit_def wake_simps Let_def cell granted_one
          chan_ok_def recvable_len_def is_full_def)
  next
    case False
    then show ?thesis using co ids ids_ok_watch_send [OF ids w]
      by (auto simp: watch_send_permit_def select_send_permit_def wake_simps Let_def granted_one
          chan_ok_def recvable_len_def is_full_def)
  qed
  then show ?thesis using held by (auto simp: conf_ok_def observe_def)
qed

lemma watch_recv_ok:
  assumes ok: "conf_ok c" and al: "allowed (OpWatchRecv sel) c"
  shows "\<exists>c'. chan_op chk (OpWatchRecv sel) c = Some c' \<and> conf_ok c'"
proof -
  let ?s = "chan c" and ?w = "sel_waker sel"
  have ids: "ids_ok ?s" and co: "chan_ok ?s" and held: "send_held c = send_permits ?s"
      "recv_held c = recv_permits ?s" "accepted c = taken c @ deque ?s"
    and w: "?w \<notin> set (blocked ?s)" using ok al by (simp_all add: conf_ok_def)
  have "\<exists>b s'. watch_recv_permit sel ?s = Some (b, s') \<and> ids_ok s' \<and> chan_ok s' \<and> deque s' = deque ?s \<and>
    send_permits s' = send_permits ?s \<and> recv_permits s' = recv_permits ?s + granted [?w] ?s s'"
  proof (cases "cells ?s ?w = Pending")
    case True
    have cell: "ids_ok (s'\<lparr>cells := (cells ?s)(?w := m)\<rparr>)"
      if "senders s' = senders ?s" "receivers s' = receivers ?s" for s' m
      by (rule ids_ok_cell [OF ids w]) (simp_all add: that)
    show ?thesis using True co ids_ok_watch_recv [OF ids w]
      by (auto simp: watch_recv_permit_def select_recv_permit_def wake_simps Let_def cell granted_one
          chan_ok_def recvable_len_def is_empty_def)
  next
    case False
    then show ?thesis using co ids ids_ok_watch_recv [OF ids w]
      by (auto simp: watch_recv_permit_def select_recv_permit_def wake_simps Let_def granted_one
          chan_ok_def recvable_len_def is_empty_def)
  qed
  then show ?thesis using held by (auto simp: conf_ok_def observe_def)
qed

lemma drop_recv_waiter_cell: "drop_recv_waiter r cs w = cs w \<or> drop_recv_waiter r cs w = Dead"
  by (cases r) auto

lemma remove_receiver_ok:
  assumes "ids_ok s" and "chan_ok s"
  shows "ids_ok (remove_receiver_at i s)" "chan_ok (remove_receiver_at i s)"
proof -
  show "ids_ok (remove_receiver_at i s)"
    by (rule ids_ok_shrink [OF assms(1)])
      (auto simp: remove_receiver_at_def subseq_remove_at drop_recv_waiter_cell split: if_splits)
  show "chan_ok (remove_receiver_at i s)"
    using assms(2) by (simp add: remove_receiver_at_def chan_ok_def recvable_len_def)
qed

lemma remove_receiver_frame:
  "deque (remove_receiver_at i s) = deque s" "send_permits (remove_receiver_at i s) = send_permits s"
  "recv_permits (remove_receiver_at i s) = recv_permits s"
  by (simp_all add: remove_receiver_at_def)

lemma unwatch_send_ok:
  "conf_ok c \<Longrightarrow> \<exists>c'. chan_op chk (OpUnwatchSend i) c = Some c' \<and> conf_ok c'"
  by (simp add: conf_ok_def unwatch_send_permit_def remove_receiver_ok remove_receiver_frame split: option.split)

lemma unwatch_recv_ok:
  "conf_ok c \<Longrightarrow> \<exists>c'. chan_op chk (OpUnwatchRecv i) c = Some c' \<and> conf_ok c'"
  by (simp add: conf_ok_def unwatch_recv_permit_def remove_receiver_ok remove_receiver_frame split: option.split)

lemma close_sender_other: "w \<noteq> waiter_id x \<Longrightarrow> close_sender x cs w = cs w"
  by (cases x; cases "cs (waiter_id x) = Pending") (simp_all add: wake_simps thread_wake_def)

lemma close_senders_other: "w \<notin> waiter_id ` set ws \<Longrightarrow> fold close_sender ws cs w = cs w"
  by (induction ws arbitrary: cs) (simp_all add: close_sender_other)

lemma state_close_ok:
  assumes "ids_ok s" and "chan_ok s"
  shows "ids_ok (state_close s) \<and> chan_ok (state_close s) \<and> deque (state_close s) = deque s \<and>
    send_permits (state_close s) = send_permits s \<and> recv_permits (state_close s) = recv_permits s"
proof -
  let ?s = "close_senders (s\<lparr>closed := True\<rparr>)"
  have "ids_ok ?s"
  proof (rule ids_ok_shrink [OF assms(1)])
    fix w assume "w \<in> set (blocked ?s)"
    then obtain y where y: "y \<in> set (receivers s)" "blocked_receiver y" "w = recv_waiter_id y"
      by (auto simp: blocked_def close_senders_def)
    then have "w \<notin> waiter_id ` set (senders s)"
      using sender_receiver_id [OF assms(1)] by blast
    then show "cells ?s w = cells s w \<or> cells ?s w = Dead"
      by (simp add: close_senders_def close_senders_other)
  qed (simp_all add: close_senders_def)
  moreover have "ids_ok (close_receivers ?s)"
    by (simp add: close_receivers_def close_senders_def ids_ok_def blocked_def selecting_def)
  ultimately show ?thesis using assms(2)
    by (simp add: state_close_def Let_def)
      (simp add: close_receivers_def close_senders_def chan_ok_def recvable_len_def)
qed

lemma close_ok: "conf_ok c \<Longrightarrow> \<exists>c'. chan_op chk OpClose c = Some c' \<and> conf_ok c'"
  using state_close_ok [of "chan c"] by (simp add: conf_ok_def)

lemma interrupt_ok:
  assumes ok: "conf_ok c"
  shows "\<exists>c'. chan_op chk (OpInterrupt w) c = Some c' \<and> conf_ok c'"
proof -
  let ?cs = "if cells (chan c) w = Pending then (cells (chan c))(w := Dead) else cells (chan c)"
  have ids: "ids_ok (chan c)" using ok by (simp add: conf_ok_def)
  have "ids_ok (chan c\<lparr>cells := ?cs\<rparr>)" by (rule ids_ok_shrink [OF ids]) simp_all
  moreover have "chan_ok (chan c\<lparr>cells := ?cs\<rparr>)"
    using ok by (simp add: conf_ok_def chan_ok_def recvable_len_def)
  ultimately show ?thesis using ok by (simp add: conf_ok_def)
qed

lemmas chan_ops_ok = send_ok consume_send_ok select_send_ok watch_send_ok unwatch_send_ok recv_ok
  recv_finish_ok consume_recv_ok select_recv_ok watch_recv_ok unwatch_recv_ok close_ok interrupt_ok

lemma chan_op_ok: "conf_ok c \<Longrightarrow> allowed x c \<Longrightarrow> \<exists>c'. chan_op chk x c = Some c' \<and> conf_ok c'"
  by (cases x) (auto simp del: chan_op.simps allowed.simps intro!: chan_ops_ok)

lemma chan_run_ok: "conf_ok c \<Longrightarrow> allowed_run chk xs c \<Longrightarrow> \<exists>c'. chan_run chk xs c = Some c' \<and> conf_ok c'"
proof (induction xs arbitrary: c)
  case (Cons x xs)
  then obtain c1 where c1: "chan_op chk x c = Some c1" "conf_ok c1" using chan_op_ok by fastforce
  with Cons.prems(2) have "allowed_run chk xs c1" by simp
  from Cons.IH [OF c1(2) this] c1(1) show ?case by simp
qed simp

lemma conf_ok_new: "0 < b \<Longrightarrow> conf_ok (conf_new b)"
  by (simp add: conf_ok_def conf_new_def state_new_def chan_ok_def ids_ok_def blocked_def recvable_len_def)

end
