(* ===== verification/Parallel_Waiting.thy ===== *)
theory Parallel_Waiting
  imports Parallel_Correct
begin

text \<open>
  Who may be left waiting on a parallel channel. As long as no thread outside the runtime blocks in
  \<open>recv\<close>, a sender waits only while the channel is full; as long as no sender blocks in \<open>send\<close>, a
  receiver waits only while every value is reserved. The theory of the contract shows that neither
  side condition can be dropped.
\<close>

section \<open>Senders wait only on a full channel\<close>

definition senders_served :: "'a state \<Rightarrow> bool" where
  "senders_served s \<longleftrightarrow> (senders s \<noteq> [] \<longrightarrow> is_full s) \<and> (\<forall>w. RThread w \<notin> set (receivers s))"

lemma hands_none: "\<forall>w. RThread w \<notin> set (receivers s) \<Longrightarrow> hands s s' = []"
proof -
  assume no: "\<forall>w. RThread w \<notin> set (receivers s)"
  have "handed (cells s') y = []" if "y \<in> set (receivers s)" for y
  proof (cases y)
    case (RThread w)
    then show ?thesis using that no by blast
  qed simp_all
  then show ?thesis unfolding hands_def by (intro concat_map_none) blast
qed

lemma served_cong:
  "senders s' = senders s \<Longrightarrow> receivers s' = receivers s \<Longrightarrow> recvable_len s' = recvable_len s \<Longrightarrow>
    bound s' = bound s \<Longrightarrow> senders_served s' = senders_served s"
  by (simp add: senders_served_def is_full_def)

lemma push_served:
  assumes ids: "ids_ok s" and k: "senders_served s" and room: "senders s \<noteq> [] \<Longrightarrow> Suc sp = send_permits s"
    and w: "wake_receiver (s\<lparr>send_permits := sp, deque := deque s @ [v]\<rparr>) = Some s'"
  shows "senders_served s'"
proof -
  let ?s1 = "s\<lparr>send_permits := sp, deque := deque s @ [v]\<rparr>"
  have "ids_ok ?s1 = ids_ok s" by (rule ids_ok_cong) simp_all
  then obtain s2 where "wake_receiver ?s1 = Some s2" "receiver_woken ?s1 s2"
    using wake_receiver_woken [of ?s1] ids by auto
  with w have r: "receiver_woken ?s1 s'" by simp
  have h: "hands ?s1 s' = []" using k by (intro hands_none) (simp add: senders_served_def)
  have "\<forall>w. RThread w \<notin> set (receivers s')"
    using r k subseq_set [of "receivers s'" "receivers s"] by (auto simp: receiver_woken_def senders_served_def)
  moreover have d: "deque s' = deque s @ [v]" using r unfolding receiver_woken_def h by simp
  have "recvable_len s' = length (deque s) + Suc sp" "senders s' = senders s" "bound s' = bound s"
    using r by (simp_all add: receiver_woken_def recvable_len_def d)
  ultimately show ?thesis using k room by (auto simp: senders_served_def is_full_def recvable_len_def)
qed

lemma pull_served:
  assumes ids: "ids_ok s" and k: "senders_served s" and dq: "deque s = v # vs"
  shows "senders_served (wake_sender (s\<lparr>recv_permits := rp, deque := vs\<rparr>))"
proof -
  let ?s1 = "s\<lparr>recv_permits := rp, deque := vs\<rparr>"
  have "ids_ok ?s1 = ids_ok s" by (rule ids_ok_cong) simp_all
  then have w: "sender_woken ?s1 (wake_sender ?s1)" using ids by (intro wake_sender_woken) simp
  have "recvable_len s = Suc (recvable_len ?s1)" by (simp add: recvable_len_def dq)
  moreover have "senders (wake_sender ?s1) \<noteq> [] \<Longrightarrow> senders s \<noteq> []"
    using w by (auto simp: sender_woken_def)
  ultimately show ?thesis using w k by (auto simp: sender_woken_def senders_served_def is_full_def)
qed

lemma consume_recv_served:
  assumes ok: "conf_ok c" and k: "senders_served (chan c)"
    and r: "consume_recv_permit (chan c) = Some (r, s')"
  shows "senders_served s'"
proof -
  let ?s = "chan c" and ?rp = "recv_permits (chan c) - 1"
  have ids: "ids_ok ?s" and co: "chan_ok ?s" using ok by (simp_all add: conf_ok_def)
  show ?thesis
  proof (cases "deque ?s")
    case Nil
    then have "s' = ?s\<lparr>recv_permits := ?rp\<rparr>"
      using r by (auto simp: consume_recv_permit_def split: option.splits)
    then show ?thesis using k served_cong [of s' ?s] by (simp add: recvable_len_def)
  next
    case (Cons v vs)
    let ?s1 = "?s\<lparr>recv_permits := ?rp, deque := vs\<rparr>"
    have "s' = close_receivers ?s1 \<and> closed ?s \<or> s' = ?s1 \<and> (closed ?s \<or> \<not> is_full ?s) \<or> s' = wake_sender ?s1"
      using r Cons by (auto simp: consume_recv_permit_def Let_def split: option.splits if_splits)
    then show ?thesis using k co pull_served [OF ids k Cons, of ?rp]
      by (auto simp: senders_served_def close_receivers_def chan_ok_def)
  qed
qed

fun no_thread_recv :: "'a op \<Rightarrow> bool" where
  "no_thread_recv (OpRecv (OnThread w)) = False"
| "no_thread_recv _ = True"

lemma remove_served: "senders_served s \<Longrightarrow> senders_served (remove_receiver_at i s)"
  using subseq_set [OF subseq_remove_at [of i "receivers s"]]
  by (auto simp: senders_served_def remove_receiver_at_def is_full_def recvable_len_def)

lemma send_served:
  assumes ok: "conf_ok c" and k: "senders_served (chan c)"
    and r: "send who v (chan c) = Some (r, s')"
  shows "senders_served s'"
proof (cases "closed (chan c) \<or> is_full (chan c)")
  case True
  then show ?thesis using r k
    by (cases who) (auto simp: send_def senders_served_def is_full_def recvable_len_def split: if_splits)
next
  case False
  let ?s = "chan c"
  have ids: "ids_ok ?s" using ok by (simp add: conf_ok_def)
  have "wake_receiver (?s\<lparr>send_permits := send_permits ?s, deque := deque ?s @ [v]\<rparr>) = Some s'"
    using False r by (auto simp: send_def)
  moreover have "senders ?s = []" using False k by (auto simp: senders_served_def)
  ultimately show ?thesis using push_served [OF ids k, of "send_permits ?s" v s'] by simp
qed

lemma consume_send_served:
  assumes ok: "conf_ok c" and k: "senders_served (chan c)" and sp: "0 < send_permits (chan c)"
    and r: "consume_send_permit v (chan c) = Some (r, s')"
  shows "senders_served s'"
proof -
  let ?s = "chan c" and ?sp = "send_permits (chan c) - 1"
  let ?s2 = "?s\<lparr>send_permits := ?sp, deque := deque ?s @ [v]\<rparr>"
  have ids: "ids_ok ?s" and co: "chan_ok ?s" using ok by (simp_all add: conf_ok_def)
  have "wake_receiver ?s2 = Some s' \<or> closed ?s \<and> (s' = ?s2 \<or> s' = close_receivers ?s2)"
    using r by (auto simp: consume_send_permit_def Let_def split: option.splits if_splits)
  then show ?thesis
  proof
    assume "wake_receiver ?s2 = Some s'"
    then show ?thesis using push_served [OF ids k, of ?sp v s'] sp by simp
  next
    assume "closed ?s \<and> (s' = ?s2 \<or> s' = close_receivers ?s2)"
    then show ?thesis using k co by (auto simp: senders_served_def close_receivers_def chan_ok_def)
  qed
qed

lemma watch_send_served:
  assumes k: "senders_served s" and r: "watch_send_permit sel s = Some (b, s')"
  shows "senders_served s'"
  using r k
  by (cases "cells s (sel_waker sel) = Pending")
    (auto simp: watch_send_permit_def select_send_permit_def wake_simps Let_def senders_served_def
      is_full_def recvable_len_def split: if_splits)

lemma watch_recv_served:
  assumes k: "senders_served s" and r: "watch_recv_permit sel s = Some (b, s')"
  shows "senders_served s'"
  using r k
  by (cases "cells s (sel_waker sel) = Pending")
    (auto simp: watch_recv_permit_def select_recv_permit_def wake_simps Let_def senders_served_def
      is_full_def recvable_len_def split: if_splits)

lemma recv_served:
  assumes ok: "conf_ok c" and k: "senders_served (chan c)" and n: "no_thread_recv (OpRecv who)"
    and r: "recv chk who (chan c) = Some (x, s')"
  shows "senders_served s'"
proof (cases "is_empty (chan c)")
  case True
  then show ?thesis using r k n
    by (cases who) (auto simp: recv_def senders_served_def is_full_def recvable_len_def split: if_splits)
next
  case False
  let ?s = "chan c"
  have ids: "ids_ok ?s" using ok by (simp add: conf_ok_def)
  obtain v vs where dq: "deque ?s = v # vs" using False by (cases "deque ?s") (auto simp: is_empty_def)
  have "s' = wake_sender (?s\<lparr>recv_permits := recv_permits ?s, deque := vs\<rparr>)"
    using False r dq by (auto simp: recv_def Let_def split: if_splits)
  then show ?thesis using pull_served [OF ids k dq, of "recv_permits ?s"] by simp
qed

lemma state_close_waiters:
  "senders (state_close s) = []" "closed (state_close s)"
  "receivers (state_close s) = receivers s \<or> receivers (state_close s) = []"
  by (auto simp: state_close_def Let_def close_senders_def close_receivers_def)

lemma op_served:
  assumes ok: "conf_ok c" and al: "allowed x c" and k: "senders_served (chan c)" and n: "no_thread_recv x"
    and r: "chan_op chk x c = Some c'"
  shows "senders_served (chan c')"
proof (cases x)
  case (OpSend who v)
  then show ?thesis using r send_served [OF ok k] by (auto simp: observe_def)
next
  case (OpConsumeSend v)
  then show ?thesis using r al ok consume_send_served [OF ok k] by (auto simp: observe_def conf_ok_def)
next
  case OpSelectSend
  then show ?thesis using r k
    by (auto simp: observe_def select_send_permit_def senders_served_def is_full_def recvable_len_def
        split: if_splits)
next
  case (OpWatchSend sel)
  then show ?thesis using r watch_send_served [OF k] by (auto simp: observe_def)
next
  case (OpUnwatchSend i)
  then show ?thesis using r k by (auto simp: unwatch_send_permit_def remove_served split: option.splits)
next
  case (OpRecv who)
  then show ?thesis using r recv_served [OF ok k] n by (auto simp: observe_def)
next
  case (OpRecvFinish w)
  then show ?thesis using r k consume_recv_served [OF ok k]
    by (auto simp: observe_def recv_finish_def split: cell.splits wake_msg.splits permit.splits option.splits if_splits)
next
  case OpConsumeRecv
  then show ?thesis using r consume_recv_served [OF ok k] by (auto simp: observe_def)
next
  case OpSelectRecv
  then show ?thesis using r k
    by (auto simp: observe_def select_recv_permit_def senders_served_def is_full_def recvable_len_def
        split: if_splits)
next
  case (OpWatchRecv sel)
  then show ?thesis using r watch_recv_served [OF k] by (auto simp: observe_def)
next
  case (OpUnwatchRecv i)
  then show ?thesis using r k by (auto simp: unwatch_recv_permit_def remove_served split: option.splits)
next
  case OpClose
  then show ?thesis using r k
    using state_close_waiters [of "chan c"] by (auto simp: senders_served_def)
next
  case (OpInterrupt w)
  then show ?thesis using r k by (auto simp: senders_served_def is_full_def recvable_len_def)
qed

lemma run_served:
  "conf_ok c \<Longrightarrow> allowed_run chk xs c \<Longrightarrow> senders_served (chan c) \<Longrightarrow> \<forall>x\<in>set xs. no_thread_recv x \<Longrightarrow>
    chan_run chk xs c = Some c' \<Longrightarrow> senders_served (chan c')"
proof (induction xs arbitrary: c)
  case (Cons x xs)
  then obtain c1 where c1: "chan_op chk x c = Some c1" "chan_run chk xs c1 = Some c'"
    by (auto split: option.splits)
  have al: "allowed x c" "allowed_run chk xs c1" using Cons.prems(2) c1(1) by simp_all
  have "conf_ok c1" using chan_op_ok [OF Cons.prems(1) al(1), of chk] c1(1) by auto
  moreover have "senders_served (chan c1)"
    using op_served [OF Cons.prems(1) al(1) Cons.prems(3) _ c1(1)] Cons.prems(4) by simp
  ultimately show ?case using Cons.IH al(2) c1(2) Cons.prems(4) by simp
qed simp

section \<open>Receivers wait only while every value is reserved\<close>

definition receivers_served :: "'a state \<Rightarrow> bool" where
  "receivers_served s \<longleftrightarrow> (receivers s \<noteq> [] \<and> \<not> closed s \<longrightarrow> is_empty s) \<and>
     (\<forall>x\<in>set (senders s). \<not> blocked_sender x)"

lemma accepts_none: "\<forall>x\<in>set (senders s). \<not> blocked_sender x \<Longrightarrow> accepts s s' = []"
proof -
  assume no: "\<forall>x\<in>set (senders s). \<not> blocked_sender x"
  have "told_ok (cells s') y = []" if "y \<in> set (senders s)" for y
    using no that by (cases y) force+
  then show ?thesis unfolding accepts_def by (intro concat_map_none) blast
qed

lemma push_recv_served:
  assumes ids: "ids_ok s" and co: "chan_ok s" and k: "receivers_served s" and op: "\<not> closed s"
    and w: "wake_receiver (s\<lparr>send_permits := sp, deque := deque s @ [v]\<rparr>) = Some s'"
  shows "receivers_served s'"
proof -
  let ?s1 = "s\<lparr>send_permits := sp, deque := deque s @ [v]\<rparr>"
  have "ids_ok ?s1 = ids_ok s" by (rule ids_ok_cong) simp_all
  then obtain s2 where "wake_receiver ?s1 = Some s2" "receiver_woken ?s1 s2"
    using wake_receiver_woken [of ?s1] ids by auto
  with w have r: "receiver_woken ?s1 s'" by simp
  then have "length (deque s @ [v]) = length (hands ?s1 s' @ deque s')"
    unfolding receiver_woken_def by simp
  then have len: "Suc (length (deque s)) = length (hands ?s1 s') + length (deque s')" by simp
  have sub: "receivers s' \<noteq> [] \<Longrightarrow> receivers s \<noteq> []" using r by (auto simp: receiver_woken_def)
  have rp: "recv_permits s \<le> length (deque s)" using co op by (simp add: chan_ok_def)
  have "is_empty s'" if "receivers s' \<noteq> []"
  proof -
    have "recv_permits s = length (deque s)" using k op sub [OF that] rp
      by (simp add: receivers_served_def is_empty_def)
    moreover have "recv_permits s' + length (hands ?s1 s') = Suc (recv_permits s)"
      using r that by (simp add: receiver_woken_def)
    ultimately show ?thesis using len by (simp add: is_empty_def)
  qed
  moreover have "senders s' = senders s" using r by (simp add: receiver_woken_def)
  ultimately show ?thesis using k by (simp add: receivers_served_def)
qed

lemma pull_recv_served:
  assumes ids: "ids_ok s" and k: "receivers_served s" and dq: "deque s = v # vs"
    and rp: "is_empty s \<and> rp = recv_permits s - 1 \<or> \<not> is_empty s"
  shows "receivers_served (wake_sender (s\<lparr>recv_permits := rp, deque := vs\<rparr>))"
proof -
  let ?s1 = "s\<lparr>recv_permits := rp, deque := vs\<rparr>"
  have "ids_ok ?s1 = ids_ok s" by (rule ids_ok_cong) simp_all
  then have w: "sender_woken ?s1 (wake_sender ?s1)" using ids by (intro wake_sender_woken) simp
  have a: "accepts ?s1 (wake_sender ?s1) = []"
    using k by (intro accepts_none) (simp add: receivers_served_def)
  have w': "deque (wake_sender ?s1) = vs" "recv_permits (wake_sender ?s1) = rp"
      "closed (wake_sender ?s1) = closed s" "receivers (wake_sender ?s1) = receivers s"
      "subseq (senders (wake_sender ?s1)) (senders s)"
    using w unfolding sender_woken_def a by simp_all
  have "is_empty (wake_sender ?s1)" if "receivers s \<noteq> []" "\<not> closed s"
  proof -
    have "is_empty s" using k that by (simp add: receivers_served_def)
    then have "length vs \<le> rp" using rp dq by (auto simp: is_empty_def)
    then show ?thesis by (simp add: is_empty_def w')
  qed
  then show ?thesis using subseq_set [OF w'(5)] k by (auto simp: receivers_served_def w'(3,4))
qed

fun no_blocking_send :: "'a op \<Rightarrow> bool" where
  "no_blocking_send (OpSend who v) = (who = Trying)"
| "no_blocking_send _ = True"

lemma consume_recv_recv_served:
  assumes ok: "conf_ok c" and k: "receivers_served (chan c)"
    and r: "consume_recv_permit (chan c) = Some (r, s')"
  shows "receivers_served s'"
proof -
  let ?s = "chan c" and ?rp = "recv_permits (chan c) - 1"
  have ids: "ids_ok ?s" and co: "chan_ok ?s" using ok by (simp_all add: conf_ok_def)
  show ?thesis
  proof (cases "deque ?s")
    case Nil
    then have "s' = ?s\<lparr>recv_permits := ?rp\<rparr>"
      using r by (auto simp: consume_recv_permit_def split: option.splits)
    then show ?thesis using k Nil by (simp add: receivers_served_def is_empty_def)
  next
    case (Cons v vs)
    let ?s1 = "?s\<lparr>recv_permits := ?rp, deque := vs\<rparr>"
    have "s' = close_receivers ?s1 \<and> closed ?s \<or> s' = ?s1 \<or> s' = wake_sender ?s1"
      using r Cons by (auto simp: consume_recv_permit_def Let_def split: option.splits if_splits)
    moreover have "receivers_served ?s1"
      using k Cons by (auto simp: receivers_served_def is_empty_def)
    moreover have "receivers_served (wake_sender ?s1)"
      using pull_recv_served [OF ids k Cons, of ?rp] by blast
    ultimately show ?thesis using k by (auto simp: receivers_served_def close_receivers_def)
  qed
qed

lemma op_recv_served:
  assumes ok: "conf_ok c" and al: "allowed x c" and k: "receivers_served (chan c)" and n: "no_blocking_send x"
    and r: "chan_op chk x c = Some c'"
  shows "receivers_served (chan c')"
proof -
  let ?s = "chan c"
  have ids: "ids_ok ?s" and co: "chan_ok ?s" using ok by (simp_all add: conf_ok_def)
  have frame: "receivers_served s'" if "senders s' = senders s" "subseq (receivers s') (receivers s)"
    "closed s' = closed s" "is_empty s \<longrightarrow> is_empty s'" "receivers_served s" for s s' :: "'a state"
    using that by (auto simp: receivers_served_def)
  show ?thesis
  proof (cases x)
    case (OpSend who v)
    have "wake_receiver (?s\<lparr>send_permits := send_permits ?s, deque := deque ?s @ [v]\<rparr>) = Some s'
      \<and> \<not> closed ?s \<or> s' = ?s" if "send who v ?s = Some (q, s')" for q s'
      using that n OpSend by (auto simp: send_def split: if_splits)
    then show ?thesis
      using r OpSend k push_recv_served [OF ids co k, where sp = "send_permits ?s" and v = v] by (fastforce simp: observe_def)
  next
    case (OpConsumeSend v)
    let ?s2 = "?s\<lparr>send_permits := send_permits ?s - 1, deque := deque ?s @ [v]\<rparr>"
    have "wake_receiver ?s2 = Some s' \<and> \<not> closed ?s \<or> closed ?s \<and> (s' = ?s2 \<or> s' = close_receivers ?s2)"
      if "consume_send_permit v ?s = Some (q, s')" for q s'
      using that by (auto simp: consume_send_permit_def Let_def split: option.splits if_splits)
    moreover have "closed ?s \<Longrightarrow> receivers_served ?s2 \<and> receivers_served (close_receivers ?s2)"
      using k by (auto simp: receivers_served_def close_receivers_def)
    ultimately show ?thesis
      using r OpConsumeSend push_recv_served [OF ids co k, where sp = "send_permits ?s - 1" and v = v]
      by (fastforce simp: observe_def)
  next
    case (OpRecv who)
    have "receivers_served s'" if q: "recv chk who ?s = Some (q, s')" for q s'
    proof (cases "is_empty ?s")
      case True
      then show ?thesis using q k
        by (cases who) (auto simp: recv_def receivers_served_def is_empty_def split: if_splits)
    next
      case False
      then obtain v vs where dq: "deque ?s = v # vs" by (cases "deque ?s") (auto simp: is_empty_def)
      have "s' = wake_sender (?s\<lparr>recv_permits := recv_permits ?s, deque := vs\<rparr>)"
        using False q dq by (auto simp: recv_def Let_def split: if_splits)
      then show ?thesis using pull_recv_served [OF ids k dq, of "recv_permits ?s"] False by simp
    qed
    then show ?thesis using r OpRecv by (auto simp: observe_def)
  next
    case (OpRecvFinish w)
    then show ?thesis using r k consume_recv_recv_served [OF ok k]
      by (auto simp: observe_def recv_finish_def split: cell.splits wake_msg.splits permit.splits option.splits if_splits)
  next
    case OpConsumeRecv
    then show ?thesis using r consume_recv_recv_served [OF ok k] by (auto simp: observe_def)
  next
    case OpClose
    then show ?thesis using r k
      using state_close_waiters [of ?s] by (auto simp: receivers_served_def)
  next
    case OpSelectSend
    then show ?thesis using r k
      by (auto simp: observe_def select_send_permit_def receivers_served_def is_empty_def split: if_splits)
  next
    case OpSelectRecv
    then show ?thesis using r k
      by (auto simp: observe_def select_recv_permit_def receivers_served_def is_empty_def split: if_splits)
  next
    case (OpWatchSend sel)
    then show ?thesis using r k
      by (cases "cells ?s (sel_waker sel) = Pending")
        (auto simp: observe_def watch_send_permit_def select_send_permit_def wake_simps Let_def
          receivers_served_def is_empty_def split: if_splits)
  next
    case (OpWatchRecv sel)
    then show ?thesis using r k
      by (cases "cells ?s (sel_waker sel) = Pending")
        (auto simp: observe_def watch_recv_permit_def select_recv_permit_def wake_simps Let_def
          receivers_served_def is_empty_def split: if_splits)
  next
    case (OpUnwatchSend i)
    then show ?thesis using r k
      by (auto simp: unwatch_send_permit_def remove_receiver_at_def subseq_remove_at is_empty_def
          split: option.splits if_splits intro!: frame [of _ ?s])
  next
    case (OpUnwatchRecv i)
    then show ?thesis using r k
      by (auto simp: unwatch_recv_permit_def remove_receiver_at_def subseq_remove_at is_empty_def
          split: option.splits if_splits intro!: frame [of _ ?s])
  next
    case (OpInterrupt w)
    then show ?thesis using r k by (auto simp: receivers_served_def is_empty_def)
  qed
qed

lemma run_recv_served:
  "conf_ok c \<Longrightarrow> allowed_run chk xs c \<Longrightarrow> receivers_served (chan c) \<Longrightarrow> \<forall>x\<in>set xs. no_blocking_send x \<Longrightarrow>
    chan_run chk xs c = Some c' \<Longrightarrow> receivers_served (chan c')"
proof (induction xs arbitrary: c)
  case (Cons x xs)
  then obtain c1 where c1: "chan_op chk x c = Some c1" "chan_run chk xs c1 = Some c'"
    by (auto split: option.splits)
  have al: "allowed x c" "allowed_run chk xs c1" using Cons.prems(2) c1(1) by simp_all
  have "conf_ok c1" using chan_op_ok [OF Cons.prems(1) al(1), of chk] c1(1) by auto
  moreover have "receivers_served (chan c1)"
    using op_recv_served [OF Cons.prems(1) al(1) Cons.prems(3) _ c1(1)] Cons.prems(4) by simp
  ultimately show ?case using Cons.IH al(2) c1(2) Cons.prems(4) by simp
qed simp

end
