(* ===== verification/Parallel_Contract.thy ===== *)
theory Parallel_Contract
  imports Parallel_Waiting
begin

text \<open>
  What the parallel channel guarantees over all histories of allowed operations, and four histories
  in which it leaves a waiter behind.
\<close>

section \<open>The capacity never changes\<close>

lemma wake_senders_bound: "bound (wake_senders ws s) = bound s"
  by (induction ws s rule: wake_senders.induct) (auto split: prod.split bool.split)

lemma wake_receivers_bound: "wake_receivers ws s = Some s' \<Longrightarrow> bound s' = bound s"
  by (induction ws s rule: wake_receivers.induct) (auto split: prod.splits bool.splits list.splits)

lemmas wake_bounds = wake_senders_bound wake_receivers_bound

lemma op_bound: "chan_op chk x c = Some c' \<Longrightarrow> bound (chan c') = bound (chan c)"
proof (cases x)
  case (OpSend who v)
  then show "chan_op chk x c = Some c' \<Longrightarrow> ?thesis"
    by (cases who) (auto simp: observe_def send_def wake_receiver_def dest: wake_receivers_bound split: if_splits)
next
  case (OpConsumeSend v)
  then show "chan_op chk x c = Some c' \<Longrightarrow> ?thesis"
    by (auto simp: observe_def consume_send_permit_def wake_receiver_def Let_def close_receivers_def
        dest: wake_receivers_bound split: if_splits option.splits)
next
  case (OpRecv who)
  then show "chan_op chk x c = Some c' \<Longrightarrow> ?thesis"
    by (cases who) (auto simp: observe_def recv_def wake_sender_def Let_def wake_senders_bound split: if_splits)
next
  case (OpRecvFinish w)
  then show "chan_op chk x c = Some c' \<Longrightarrow> ?thesis"
    by (auto simp: observe_def recv_finish_def consume_recv_permit_def wake_sender_def Let_def
        close_receivers_def wake_senders_bound
        split: if_splits cell.splits wake_msg.splits permit.splits option.splits list.splits)
next
  case OpConsumeRecv
  then show "chan_op chk x c = Some c' \<Longrightarrow> ?thesis"
    by (auto simp: observe_def consume_recv_permit_def wake_sender_def Let_def
        close_receivers_def wake_senders_bound split: if_splits option.splits list.splits)
next
  case (OpWatchSend sel)
  then show "chan_op chk x c = Some c' \<Longrightarrow> ?thesis"
    by (auto simp: observe_def watch_send_permit_def select_send_permit_def Let_def
        split: if_splits prod.splits option.splits)
next
  case (OpWatchRecv sel)
  then show "chan_op chk x c = Some c' \<Longrightarrow> ?thesis"
    by (auto simp: observe_def watch_recv_permit_def select_recv_permit_def Let_def
        split: if_splits prod.splits option.splits)
qed (auto simp: observe_def select_send_permit_def select_recv_permit_def unwatch_send_permit_def
    unwatch_recv_permit_def remove_receiver_at_def state_close_def Let_def close_senders_def
    close_receivers_def split: option.splits if_splits)

lemma run_bound: "chan_run chk xs c = Some c' \<Longrightarrow> bound (chan c') = bound (chan c)"
  by (induction xs arbitrary: c) (auto split: option.splits dest: op_bound)

lemma bound_new: "bound (chan (conf_new b)) = b"
  by (simp add: conf_new_def state_new_def)

lemma history_ok:
  assumes "0 < b" and "allowed_run chk ops (conf_new b)"
  shows "\<exists>c. chan_run chk ops (conf_new b) = Some c \<and> conf_ok c \<and> bound (chan c) = b"
  using chan_run_ok [OF conf_ok_new [OF assms(1)] assms(2)] run_bound bound_new by metis

section \<open>Guarantees\<close>

text \<open>
  C3. No allowed history of a bounded channel panics: the assertions of \<open>consume_send_permit\<close>, the
  \<open>unwrap\<close> of the value for a waiting thread, the subtractions from the permit counters and the
  \<open>debug_assert!\<close> of \<open>recv\<close> all hold. Values and reserved slots together never exceed the
  capacity, and the two counters are exactly the permits given out and not yet consumed.
\<close>

theorem parallel_never_panics:
  assumes "0 < b" and "allowed_run chk ops (conf_new b)"
  shows "\<exists>c. chan_run chk ops (conf_new b) = Some c \<and>
    length (deque (chan c)) + send_permits (chan c) \<le> b \<and>
    send_permits (chan c) = send_held c \<and> recv_permits (chan c) = recv_held c"
  using history_ok [OF assms] by (auto simp: conf_ok_def chan_ok_def recvable_len_def)

text \<open>A history with a blocked sender, a waiting thread and a permit, for the witnesses.\<close>

definition busy_history :: "string op list" where
  "busy_history = [OpSelectSend, OpConsumeSend ''a'', OpSend (InTask 1) ''b'', OpSelectRecv,
    OpRecv (OnThread 2), OpConsumeRecv, OpSend Trying ''c'', OpRecv Trying]"

lemmas history_simps = conf_new_def state_new_def observe_def send_def recv_def consume_send_permit_def
  consume_recv_permit_def recv_finish_def select_send_permit_def select_recv_permit_def is_full_def
  is_empty_def is_recvable_def recvable_len_def fresh_def blocked_def wake_sender_def wake_receiver_def
  wake_simps thread_wake_def send_grants_def recv_grants_def granted_def accepts_def hands_def Let_def
  watch_send_permit_def watch_recv_permit_def unwatch_send_permit_def unwatch_recv_permit_def
  remove_receiver_at_def identify_def state_close_def close_senders_def close_receivers_def

lemma busy_history_allowed: "allowed_run True busy_history (conf_new 1)"
  by (simp add: busy_history_def history_simps)

lemma parallel_never_panics_witness:
  "\<exists>c. chan_run True busy_history (conf_new 1) = Some c \<and> length (deque (chan c)) + send_permits (chan c) \<le> 1"
  using parallel_never_panics [OF _ busy_history_allowed] by auto

text \<open>
  C4. The channel is a FIFO queue without loss, duplication or invention: in every allowed history
  the values accepted from senders (by \<open>send\<close>, by a consumed permit, or out of the hands of a
  blocked sender at the moment it is told \<open>Ok\<close>) are, in order, the values receivers have taken
  (returned, or handed to a waiting thread) followed by the values in the queue.
\<close>

theorem parallel_fifo:
  assumes "0 < b" and "allowed_run chk ops (conf_new b)" and "chan_run chk ops (conf_new b) = Some c"
  shows "accepted c = taken c @ deque (chan c)"
  using history_ok [OF assms(1,2)] assms(3) by (auto simp: conf_ok_def)

lemma parallel_fifo_witness:
  "\<exists>c. chan_run True busy_history (conf_new 1) = Some c \<and> accepted c = [''a'', ''b''] \<and>
    [''a'', ''b''] = taken c @ deque (chan c)"
proof -
  have "map_option accepted (chan_run True busy_history (conf_new 1)) = Some [''a'', ''b'']"
    by (simp add: busy_history_def history_simps)
  then obtain c where c: "chan_run True busy_history (conf_new 1) = Some c" "accepted c = [''a'', ''b'']"
    by blast
  then show ?thesis using parallel_fifo [OF _ busy_history_allowed c(1)] by auto
qed

text \<open>
  On an open channel a receive permit is backed by a value: whoever holds one, a selector, a
  woken task or a caller of \<open>select\<close>, gets a value when it consumes it.
\<close>

theorem open_permit_has_value:
  assumes "0 < b" and "allowed_run chk ops (conf_new b)" and "chan_run chk ops (conf_new b) = Some c"
    and "\<not> closed (chan c)" and "0 < recv_held c"
  shows "\<exists>v s'. consume_recv_permit (chan c) = Some (Some v, s')"
proof -
  have ok: "conf_ok c" using history_ok [OF assms(1,2)] assms(3) by auto
  then have "0 < recv_permits (chan c)" using assms(5) by (simp add: conf_ok_def)
  with ok consume_recv_state [of "chan c"] assms(4) show ?thesis by (fastforce simp: conf_ok_def)
qed

lemma open_permit_has_value_witness:
  "\<exists>c v s'. chan_run True [OpSend Trying ''a'', OpSelectRecv] (conf_new 1) = Some c \<and>
    consume_recv_permit (chan c) = Some (Some v, s')"
proof -
  let ?ops = "[OpSend Trying ''a'', OpSelectRecv]"
  have al: "allowed_run True ?ops (conf_new 1)" by (simp add: history_simps)
  have "map_option (\<lambda>c. (closed (chan c), recv_held c)) (chan_run True ?ops (conf_new 1)) = Some (False, 1)"
    by (simp add: history_simps)
  then obtain c where c: "chan_run True ?ops (conf_new 1) = Some c" "\<not> closed (chan c)" "0 < recv_held c"
    by auto
  from open_permit_has_value [OF _ al c] c(1) show ?thesis by auto
qed

lemma other_id:
  assumes ok: "ids_ok s" and split: "senders s = pre @ x # ws" and x: "blocked_sender x" and y: "y \<in> set (pre @ ws)"
  shows "waiter_id y \<noteq> waiter_id x"
proof (cases "blocked_sender y")
  case True
  then show ?thesis using other_sender_id [OF ok split y] by simp
next
  case False
  then have "waiter_id y \<in> selecting s" using y split by (auto simp: selecting_def)
  moreover have "waiter_id x \<in> set (blocked s)" using split x by (auto simp: blocked_def)
  ultimately show ?thesis using ok unfolding ids_ok_def by auto
qed

lemma close_senders_told:
  assumes ok: "ids_ok s" and x: "WTask w v \<in> set (senders s)" and cs: "cells s w = Pending"
  shows "fold close_sender (senders s) (cells s) w = Woken (MSent (Inl (SendClosed v)))"
proof -
  obtain pre ws where split: "senders s = pre @ WTask w v # ws" using x by (meson split_list)
  have "w \<notin> waiter_id ` set (pre @ ws)" using other_id [OF ok split] by force
  then have "w \<notin> waiter_id ` set pre" "w \<notin> waiter_id ` set ws" by auto
  then show ?thesis using cs by (simp add: split close_senders_other wake_simps)
qed

lemma close_receiver_other: "w \<noteq> recv_waiter_id x \<Longrightarrow> close_receiver x cs w = cs w"
  by (cases x; cases "cs (recv_waiter_id x) = Pending") (simp_all add: wake_simps thread_wake_def)

lemma close_receivers_other: "w \<notin> recv_waiter_id ` set ws \<Longrightarrow> fold close_receiver ws cs w = cs w"
  by (induction ws arbitrary: cs) (simp_all add: close_receiver_other)

text \<open>
  C20. Closing a channel leaves no sender waiting: every task blocked in \<open>send\<close> that is still there
  to be woken gets its own value back as \<open>Closed\<close>, and the values already accepted stay in the
  queue for receivers.
\<close>

theorem close_returns_values:
  assumes "0 < b" and "allowed_run chk ops (conf_new b)" and "chan_run chk ops (conf_new b) = Some c"
    and "WTask w v \<in> set (senders (chan c))" and "cells (chan c) w = Pending"
  shows "send_finish w (state_close (chan c)) = Some (Inl (TryClosed v)) \<and>
    senders (state_close (chan c)) = [] \<and> deque (state_close (chan c)) = deque (chan c)"
proof -
  let ?s = "chan c"
  have ids: "ids_ok ?s" using history_ok [OF assms(1,2)] assms(3) by (auto simp: conf_ok_def)
  have "w \<notin> recv_waiter_id ` set (receivers ?s)"
    using sender_receiver_id [OF ids assms(4)] by force
  then have "cells (state_close ?s) w = Woken (MSent (Inl (SendClosed v)))"
    using close_senders_told [OF ids assms(4,5)]
    by (simp add: state_close_def Let_def close_senders_def close_receivers_def close_receivers_other)
  moreover have "deque (state_close ?s) = deque ?s"
    by (simp add: state_close_def Let_def close_senders_def close_receivers_def)
  ultimately show ?thesis by (simp add: send_finish_def state_close_waiters)
qed

lemma close_returns_values_witness:
  "\<exists>c. chan_run True [OpSend Trying ''a'', OpSend (InTask 7) ''b''] (conf_new 1) = Some c \<and>
    send_finish 7 (state_close (chan c)) = Some (Inl (TryClosed ''b''))"
proof -
  let ?ops = "[OpSend Trying ''a'', OpSend (InTask 7) ''b'']"
  have al: "allowed_run True ?ops (conf_new 1)" by (simp add: history_simps)
  have "map_option (\<lambda>c. (senders (chan c), cells (chan c) 7)) (chan_run True ?ops (conf_new 1))
      = Some ([WTask 7 ''b''], Pending)"
    by (simp add: history_simps)
  then obtain c where c: "chan_run True ?ops (conf_new 1) = Some c" "WTask 7 ''b'' \<in> set (senders (chan c))"
      "cells (chan c) 7 = Pending" by auto
  from close_returns_values [OF _ al c] c(1) show ?thesis by auto
qed

section \<open>Who may be left waiting\<close>

text \<open>
  C21. As long as no thread outside the runtime blocks in \<open>recv\<close>, no sender, blocked or selecting,
  is ever left waiting while the channel has room.
\<close>

theorem senders_wait_only_when_full:
  assumes "0 < b" and "allowed_run chk ops (conf_new b)" and "\<forall>x\<in>set ops. no_thread_recv x"
    and "chan_run chk ops (conf_new b) = Some c" and "senders (chan c) \<noteq> []"
  shows "length (deque (chan c)) + send_permits (chan c) = b"
proof -
  have "senders_served (chan (conf_new b))" by (simp add: senders_served_def conf_new_def state_new_def)
  from run_served [OF conf_ok_new [OF assms(1)] assms(2) this assms(3,4)] assms(5)
  have "is_full (chan c)" by (simp add: senders_served_def)
  moreover have "bound (chan c) = b" using run_bound [OF assms(4)] by (simp add: bound_new)
  ultimately show ?thesis by (simp add: is_full_def recvable_len_def)
qed

lemma senders_wait_only_when_full_witness:
  "\<exists>c. chan_run True [OpSend Trying ''a'', OpSend (InTask 7) ''b''] (conf_new 1) = Some c \<and>
    length (deque (chan c)) + send_permits (chan c) = 1"
proof -
  let ?ops = "[OpSend Trying ''a'', OpSend (InTask 7) ''b'']"
  have al: "allowed_run True ?ops (conf_new 1)" by (simp add: history_simps)
  have nt: "\<forall>x\<in>set ?ops. no_thread_recv x" by simp
  have "map_option (\<lambda>c. senders (chan c)) (chan_run True ?ops (conf_new 1)) = Some [WTask 7 ''b'']"
    by (simp add: history_simps)
  then obtain c where c: "chan_run True ?ops (conf_new 1) = Some c" "senders (chan c) \<noteq> []" by auto
  from senders_wait_only_when_full [OF _ al nt c] c(1) show ?thesis by auto
qed

text \<open>
  C22. As long as senders use \<open>try_send\<close> or \<open>select\<close> and none blocks in \<open>send\<close>, no receiver of an open
  channel is ever left waiting while there is a value that no permit reserves.
\<close>

theorem receivers_wait_only_when_reserved:
  assumes "0 < b" and "allowed_run chk ops (conf_new b)" and "\<forall>x\<in>set ops. no_blocking_send x"
    and "chan_run chk ops (conf_new b) = Some c" and "receivers (chan c) \<noteq> []" and "\<not> closed (chan c)"
  shows "recv_held c = length (deque (chan c))"
proof -
  have "receivers_served (chan (conf_new b))" by (simp add: receivers_served_def conf_new_def state_new_def)
  from run_recv_served [OF conf_ok_new [OF assms(1)] assms(2) this assms(3,4)] assms(5,6)
  have "is_empty (chan c)" by (simp add: receivers_served_def)
  moreover have "conf_ok c" using history_ok [OF assms(1,2)] assms(4) by auto
  ultimately show ?thesis using assms(6) by (simp add: is_empty_def conf_ok_def chan_ok_def)
qed

lemma receivers_wait_only_when_reserved_witness:
  "\<exists>c. chan_run True [OpRecv (InTask 1), OpRecv (InTask 2), OpSend Trying ''a''] (conf_new 1) = Some c \<and>
    recv_held c = length (deque (chan c))"
proof -
  let ?ops = "[OpRecv (InTask 1), OpRecv (InTask 2), OpSend Trying ''a'']"
  have al: "allowed_run True ?ops (conf_new 1)" by (simp add: history_simps)
  have nb: "\<forall>x\<in>set ?ops. no_blocking_send x" by simp
  have "map_option (\<lambda>c. (receivers (chan c), closed (chan c))) (chan_run True ?ops (conf_new 1))
      = Some ([RTask 2], False)"
    by (simp add: history_simps)
  then obtain c where c: "chan_run True ?ops (conf_new 1) = Some c" "receivers (chan c) \<noteq> []"
      "\<not> closed (chan c)" by auto
  from receivers_wait_only_when_reserved [OF _ al nb c] c(1) show ?thesis by auto
qed

section \<open>Histories that leave a waiter behind\<close>

text \<open>
  The side condition on blocked senders is needed: two tasks wait to receive, a \<open>send\<close> wakes the
  first, a second \<open>send\<close> blocks, and when the first receiver makes room the blocked value is queued
  without waking the second receiver, which waits although a free value is in the queue.
\<close>

theorem blocked_send_strands_receiver:
  "let ops = [OpRecv (InTask 1), OpRecv (InTask 2), OpSend Trying v, OpSend (InTask 3) u, OpRecvFinish 1] in
   allowed_run chk ops (conf_new 1) \<and>
   (\<exists>c. chan_run chk ops (conf_new 1) = Some c \<and> receivers (chan c) = [RTask 2] \<and>
     cells (chan c) 2 = Pending \<and> deque (chan c) = [u] \<and> recv_held c = 0 \<and> \<not> closed (chan c))"
  by (simp add: history_simps)

text \<open>
  The side condition on threads is needed: a sender blocks while the only slot is reserved by a
  permit, a thread waits to receive, and when the permit is consumed the value goes straight to
  the thread; the slot is free, but the sender is not woken, and the next receive waits too.
\<close>

theorem thread_recv_strands_sender:
  "let ops = [OpSelectSend, OpSend (InTask 1) u, OpRecv (OnThread 2), OpConsumeSend v, OpRecvFinish 2,
      OpRecv (OnThread 3)] in
   allowed_run chk ops (conf_new 1) \<and>
   (\<exists>c. chan_run chk ops (conf_new 1) = Some c \<and> senders (chan c) = [WTask 1 u] \<and>
     receivers (chan c) = [RThread 3] \<and> cells (chan c) 1 = Pending \<and> cells (chan c) 3 = Pending \<and>
     deque (chan c) = [] \<and> send_held c = 0 \<and> recv_held c = 0 \<and> \<not> closed (chan c))"
  by (simp add: history_simps)

text \<open>
  A channel closed while a send permit is out can forget a waiting receiver: the close does not
  wake it because a value may still come, the consumption of the permit does not wake it because
  the channel is closed, and after another receiver has taken the value nothing ever will.
\<close>

theorem closed_permit_strands_receiver:
  "let ops = [OpSelectSend, OpRecv (InTask 1), OpClose, OpConsumeSend v, OpRecv Trying] in
   allowed_run chk ops (conf_new 1) \<and>
   (\<exists>c. chan_run chk ops (conf_new 1) = Some c \<and> receivers (chan c) = [RTask 1] \<and>
     cells (chan c) 1 = Pending \<and> closed (chan c) \<and> deque (chan c) = [] \<and>
     send_held c = 0 \<and> recv_held c = 0 \<and> taken c = [v])"
  by (simp add: history_simps)

text \<open>
  Giving up a select on a full channel's sender removes a receiver instead: the selector stays
  among the senders, and a task blocked in \<open>recv\<close> loses its waker, so its session ends without a
  message and the task panics.
\<close>

theorem unwatch_send_drops_receiver:
  "let sel = \<lparr>sel_index = 0, sel_waker = 5, sel_ident = 9\<rparr>;
       ops = [OpSelectSend, OpWatchSend sel, OpRecv (InTask 1), OpUnwatchSend 9] in
   allowed_run chk ops (conf_new 1) \<and>
   (\<exists>c. chan_run chk ops (conf_new 1) = Some c \<and> senders (chan c) = [WSelector sel] \<and>
     receivers (chan c) = [] \<and> cells (chan c) 1 = Dead)"
  by (simp add: history_simps)

end
