(* ===== verification/Serial.thy ===== *)
theory Serial
  imports Selectors
begin

text \<open>
  \<open>src/src/channel/serial.rs\<close>: the channel between the coroutines of one task. There is no lock:
  coroutines switch only where they suspend, so each function below, from a call or a resumption
  to the next suspension, is atomic. \<open>None\<close> is a panic.
\<close>

datatype swaker = SSelector selector | SResumption nat

text \<open>\<open>Waker::wake\<close>: resuming a coroutine always counts as a wake-up.\<close>

fun swake :: "swaker \<Rightarrow> 'a wake_msg cells \<Rightarrow> bool \<times> 'a wake_msg cells" where
  "swake (SSelector sel) cs = selector_apply sel (to_select Consume) cs"
| "swake (SResumption w) cs = (True, snd (store_wake w MResumed cs))"

fun smatches :: "nat \<Rightarrow> swaker \<Rightarrow> bool" where
  "smatches ident (SSelector sel) = identify sel ident"
| "smatches ident (SResumption w) = False"

record 'a sstate =
  sclosed :: bool
  sbound :: nat
  sdeque :: "'a list"
  ssenders :: "swaker list"
  sreceivers :: "swaker list"
  scells :: "'a wake_msg cells"

definition sstate_new :: "nat \<Rightarrow> 'a sstate" where
  "sstate_new b = \<lparr>sclosed = False, sbound = b, sdeque = [], ssenders = [], sreceivers = [],
    scells = (\<lambda>_. Pending)\<rparr>"

definition sfull :: "'a sstate \<Rightarrow> bool" where
  "sfull s \<longleftrightarrow> sbound s = length (sdeque s)"

definition sendable :: "'a sstate \<Rightarrow> bool" where
  "sendable s \<longleftrightarrow> sclosed s \<or> \<not> sfull s"

definition recvable :: "'a sstate \<Rightarrow> bool" where
  "recvable s \<longleftrightarrow> sdeque s \<noteq> [] \<or> sclosed s"

text \<open>Pop wakers until one wakes; what is left of the queue and the cells.\<close>

fun swake_first :: "swaker list \<Rightarrow> 'a wake_msg cells \<Rightarrow> swaker list \<times> 'a wake_msg cells" where
  "swake_first [] cs = ([], cs)"
| "swake_first (w # ws) cs =
    (case swake w cs of (True, cs') \<Rightarrow> (ws, cs') | (False, cs') \<Rightarrow> swake_first ws cs')"

definition swake_sender :: "'a sstate \<Rightarrow> 'a sstate" where
  "swake_sender s = (let (ws, cs) = swake_first (ssenders s) (scells s) in s\<lparr>ssenders := ws, scells := cs\<rparr>)"

definition swake_receiver :: "'a sstate \<Rightarrow> 'a sstate" where
  "swake_receiver s =
    (let (ws, cs) = swake_first (sreceivers s) (scells s) in s\<lparr>sreceivers := ws, scells := cs\<rparr>)"

definition swake_all :: "swaker list \<Rightarrow> 'a wake_msg cells \<Rightarrow> 'a wake_msg cells" where
  "swake_all ws cs = fold (\<lambda>w cs. snd (swake w cs)) ws cs"

definition sclose :: "'a sstate \<Rightarrow> 'a sstate" where
  "sclose s = s\<lparr>sclosed := True, ssenders := [], sreceivers := [],
    scells := swake_all (sreceivers s) (swake_all (ssenders s) (scells s))\<rparr>"

section \<open>The channel\<close>

record 'a schannel =
  schan_state :: "'a sstate"
  ssender_count :: nat
  sreceiver_count :: nat

definition schannel_new :: "nat \<Rightarrow> 'a schannel" where
  "schannel_new b = \<lparr>schan_state = sstate_new b, ssender_count = 1, sreceiver_count = 1\<rparr>"

definition sadd_sender :: "'a schannel \<Rightarrow> 'a schannel" where
  "sadd_sender c = c\<lparr>ssender_count := ssender_count c + 1\<rparr>"

definition sremove_sender :: "'a schannel \<Rightarrow> 'a schannel" where
  "sremove_sender c =
    (let n = ssender_count c - 1; c' = c\<lparr>ssender_count := n\<rparr> in
     if n = 0 then c'\<lparr>schan_state := sclose (schan_state c')\<rparr> else c')"

definition sadd_receiver :: "'a schannel \<Rightarrow> 'a schannel" where
  "sadd_receiver c = c\<lparr>sreceiver_count := sreceiver_count c + 1\<rparr>"

definition sremove_receiver :: "'a schannel \<Rightarrow> 'a schannel" where
  "sremove_receiver c =
    (let n = sreceiver_count c - 1; c' = c\<lparr>sreceiver_count := n\<rparr> in
     if n = 0 then c'\<lparr>schan_state := sclose (schan_state c')\<rparr> else c')"

section \<open>Operations\<close>

text \<open>
  One turn of the loops of \<open>send\<close> and \<open>recv\<close>: a trying call has no cell, a blocking one brings the
  fresh cell of its suspension, and takes another turn with another cell once it is resumed.
\<close>

definition ssend :: "nat option \<Rightarrow> 'a \<Rightarrow> 'a sstate \<Rightarrow> ('a try_send_error + unit) outcome \<times> 'a sstate" where
  "ssend who v s =
    (if sclosed s then (Return (Inl (TryClosed v)), s)
     else if \<not> sfull s then (Return (Inr ()), swake_receiver (s\<lparr>sdeque := sdeque s @ [v]\<rparr>))
     else case who of
       None \<Rightarrow> (Return (Inl (Full v)), s)
     | Some w \<Rightarrow> (Waits, s\<lparr>ssenders := ssenders s @ [SResumption w]\<rparr>))"

definition srecv :: "nat option \<Rightarrow> 'a sstate \<Rightarrow> (try_recv_error + 'a) outcome \<times> 'a sstate" where
  "srecv who s =
    (case sdeque s of
       v # vs \<Rightarrow> (Return (Inr v), swake_sender (s\<lparr>sdeque := vs\<rparr>))
     | [] \<Rightarrow>
       if sclosed s then (Return (Inl RecvClosed), s)
       else case who of
         None \<Rightarrow> (Return (Inl RecvEmpty), s)
       | Some w \<Rightarrow> (Waits, s\<lparr>sreceivers := sreceivers s @ [SResumption w]\<rparr>))"

definition sselect_send_permit :: "'a sstate \<Rightarrow> permit option" where
  "sselect_send_permit s = (if sendable s then Some Consume else None)"

definition sselect_recv_permit :: "'a sstate \<Rightarrow> permit option" where
  "sselect_recv_permit s = (if recvable s then Some Consume else None)"

definition sconsume_send_permit :: "'a \<Rightarrow> 'a sstate \<Rightarrow> (('a send_error + unit) \<times> 'a sstate) option" where
  "sconsume_send_permit v s =
    (case ssend None v s of
       (Return (Inr u), s') \<Rightarrow> Some (Inr u, s')
     | (Return (Inl (TryClosed u)), s') \<Rightarrow> Some (Inl (SendClosed u), s')
     | _ \<Rightarrow> None)"

definition sconsume_recv_permit :: "'a sstate \<Rightarrow> ('a option \<times> 'a sstate) option" where
  "sconsume_recv_permit s =
    (case srecv None s of
       (Return (Inr v), s') \<Rightarrow> Some (Some v, s')
     | (Return (Inl RecvClosed), s') \<Rightarrow> Some (None, s')
     | _ \<Rightarrow> None)"

text \<open>Watching a channel that is ready fails an assertion.\<close>

definition swatch_send_permit :: "selector \<Rightarrow> 'a sstate \<Rightarrow> (bool \<times> 'a sstate) option" where
  "swatch_send_permit sel s =
    (if sendable s then None else Some (True, s\<lparr>ssenders := ssenders s @ [SSelector sel]\<rparr>))"

definition swatch_recv_permit :: "selector \<Rightarrow> 'a sstate \<Rightarrow> (bool \<times> 'a sstate) option" where
  "swatch_recv_permit sel s =
    (if recvable s then None else Some (True, s\<lparr>sreceivers := sreceivers s @ [SSelector sel]\<rparr>))"

definition sunwatch_send_permit :: "nat \<Rightarrow> 'a sstate \<Rightarrow> 'a sstate" where
  "sunwatch_send_permit ident s =
    (case position (smatches ident) (ssenders s) of
       None \<Rightarrow> s | Some i \<Rightarrow> s\<lparr>ssenders := remove_at i (ssenders s)\<rparr>)"

definition sunwatch_recv_permit :: "nat \<Rightarrow> 'a sstate \<Rightarrow> 'a sstate" where
  "sunwatch_recv_permit ident s =
    (case position (smatches ident) (sreceivers s) of
       None \<Rightarrow> s | Some i \<Rightarrow> s\<lparr>sreceivers := remove_at i (sreceivers s)\<rparr>)"

end
