(* ===== verification/Serial_Correct.thy ===== *)
theory Serial_Correct
  imports Serial
begin

text \<open>
  Histories of a serial channel. The invariant relates the waiting queues to the calls that were
  woken and have not run again: whenever a sender waits, the free slots are at most the woken
  senders, and whenever a receiver waits, the values are at most the woken receivers. It follows
  that the channel forgets no waiter. Also: FIFO order, the bound, and the one panic of the
  channel, a permit whose value or slot another coroutine takes first.
\<close>

section \<open>Histories\<close>

fun swaker_id :: "swaker \<Rightarrow> nat" where
  "swaker_id (SSelector sel) = sel_waker sel"
| "swaker_id (SResumption w) = w"

fun resumption :: "swaker \<Rightarrow> bool" where
  "resumption (SResumption w) = True"
| "resumption (SSelector sel) = False"

text \<open>How many cells of a queue are woken between two states.\<close>

definition newly_woken :: "swaker list \<Rightarrow> 'a sstate \<Rightarrow> 'a sstate \<Rightarrow> nat" where
  "newly_woken ws s s' = card (set (filter (\<lambda>w. scells s w = Pending \<and> scells s' w \<noteq> Pending) (map swaker_id ws)))"

text \<open>
  A configuration: the state, the senders and receivers woken that have not run since, and the
  logs of accepted and taken values.
\<close>

record 'a sconf =
  schan :: "'a sstate"
  swoken_senders :: nat
  swoken_receivers :: nat
  saccepted :: "'a list"
  staken :: "'a list"

definition sconf_new :: "nat \<Rightarrow> 'a sconf" where
  "sconf_new b = \<lparr>schan = sstate_new b, swoken_senders = 0, swoken_receivers = 0,
    saccepted = [], staken = []\<rparr>"

text \<open>The last two groups are by woken calls: a coroutine that runs its loop again, a select.\<close>

datatype 'a sop =
    SopSend "nat option" 'a
  | SopRecv "nat option"
  | SopSelectSend 'a                 \<comment> \<open>a select that finds the sender ready and consumes at once\<close>
  | SopSelectRecv
  | SopWatchSend selector
  | SopWatchRecv selector
  | SopUnwatchSend nat
  | SopUnwatchRecv nat
  | SopClose
  | SopResend nat 'a
  | SopRerecv nat
  | SopConsumeSend 'a
  | SopConsumeRecv

definition sobserve ::
    "'a sstate \<Rightarrow> nat \<Rightarrow> nat \<Rightarrow> 'a list \<Rightarrow> 'a list \<Rightarrow> 'a sconf \<Rightarrow> 'a sconf" where
  "sobserve s' wsn wr ins outs c = \<lparr>schan = s', swoken_senders = wsn, swoken_receivers = wr,
    saccepted = saccepted c @ ins, staken = staken c @ outs\<rparr>"

definition sent :: "nat \<Rightarrow> 'a \<Rightarrow> ('a try_send_error + unit) outcome \<times> 'a sstate \<Rightarrow> 'a sconf \<Rightarrow> 'a sconf" where
  "sent wsn v rs c = sobserve (snd rs) wsn
     (swoken_receivers c + newly_woken (sreceivers (schan c)) (schan c) (snd rs))
     (if fst rs = Return (Inr ()) then [v] else []) [] c"

definition received :: "nat \<Rightarrow> (try_recv_error + 'a) outcome \<times> 'a sstate \<Rightarrow> 'a sconf \<Rightarrow> 'a sconf" where
  "received wr rs c = sobserve (snd rs)
     (swoken_senders c + newly_woken (ssenders (schan c)) (schan c) (snd rs)) wr []
     (case fst rs of Return (Inr v) \<Rightarrow> [v] | _ \<Rightarrow> []) c"

definition consumed_send :: "nat \<Rightarrow> 'a \<Rightarrow> 'a sconf \<Rightarrow> 'a sconf option" where
  "consumed_send wsn v c = map_option (\<lambda>(r, s'). sobserve s' wsn
     (swoken_receivers c + newly_woken (sreceivers (schan c)) (schan c) s')
     (if r = Inr () then [v] else []) [] c) (sconsume_send_permit v (schan c))"

definition consumed_recv :: "nat \<Rightarrow> 'a sconf \<Rightarrow> 'a sconf option" where
  "consumed_recv wr c = map_option (\<lambda>(r, s'). sobserve s'
     (swoken_senders c + newly_woken (ssenders (schan c)) (schan c) s') wr []
     (case r of None \<Rightarrow> [] | Some v \<Rightarrow> [v]) c) (sconsume_recv_permit (schan c))"

fun schan_op :: "'a sop \<Rightarrow> 'a sconf \<Rightarrow> 'a sconf option" where
  "schan_op (SopSend who v) c = Some (sent (swoken_senders c) v (ssend who v (schan c)) c)"
| "schan_op (SopRecv who) c = Some (received (swoken_receivers c) (srecv who (schan c)) c)"
| "schan_op (SopSelectSend v) c =
    (if sselect_send_permit (schan c) = None then Some c else consumed_send (swoken_senders c) v c)"
| "schan_op SopSelectRecv c =
    (if sselect_recv_permit (schan c) = None then Some c else consumed_recv (swoken_receivers c) c)"
| "schan_op (SopWatchSend sel) c =
    map_option (\<lambda>(b, s'). c\<lparr>schan := s'\<rparr>) (swatch_send_permit sel (schan c))"
| "schan_op (SopWatchRecv sel) c =
    map_option (\<lambda>(b, s'). c\<lparr>schan := s'\<rparr>) (swatch_recv_permit sel (schan c))"
| "schan_op (SopUnwatchSend i) c = Some (c\<lparr>schan := sunwatch_send_permit i (schan c)\<rparr>)"
| "schan_op (SopUnwatchRecv i) c = Some (c\<lparr>schan := sunwatch_recv_permit i (schan c)\<rparr>)"
| "schan_op SopClose c = Some (c\<lparr>schan := sclose (schan c)\<rparr>)"
| "schan_op (SopResend w v) c = Some (sent (swoken_senders c - 1) v (ssend (Some w) v (schan c)) c)"
| "schan_op (SopRerecv w) c = Some (received (swoken_receivers c - 1) (srecv (Some w) (schan c)) c)"
| "schan_op (SopConsumeSend v) c = consumed_send (swoken_senders c - 1) v c"
| "schan_op SopConsumeRecv c = consumed_recv (swoken_receivers c - 1) c"

definition squeued :: "'a sstate \<Rightarrow> swaker list" where
  "squeued s = ssenders s @ sreceivers s"

definition sfresh :: "nat \<Rightarrow> 'a sstate \<Rightarrow> bool" where
  "sfresh w s \<longleftrightarrow> scells s w = Pending \<and> w \<notin> set (map swaker_id (squeued s))"

text \<open>
  What the rest of the program does: it waits on fresh cells, uses a selector's waker for no
  suspension, watches only what \<open>try_select\<close> has just found not ready, and runs a woken call once.
  A woken select may find its permit stolen; \<open>sallowed\<close> leaves that out, \<open>permit_stolen\<close> shows it.
\<close>

fun sallowed :: "'a sop \<Rightarrow> 'a sconf \<Rightarrow> bool" where
  "sallowed (SopSend who v) c = (case who of None \<Rightarrow> True | Some w \<Rightarrow> sfresh w (schan c))"
| "sallowed (SopRecv who) c = (case who of None \<Rightarrow> True | Some w \<Rightarrow> sfresh w (schan c))"
| "sallowed (SopWatchSend sel) c = (\<not> sendable (schan c) \<and>
     sel_waker sel \<notin> set (map swaker_id (filter resumption (squeued (schan c)))))"
| "sallowed (SopWatchRecv sel) c = (\<not> recvable (schan c) \<and>
     sel_waker sel \<notin> set (map swaker_id (filter resumption (squeued (schan c)))))"
| "sallowed (SopResend w v) c = (0 < swoken_senders c \<and> sfresh w (schan c))"
| "sallowed (SopRerecv w) c = (0 < swoken_receivers c \<and> sfresh w (schan c))"
| "sallowed (SopConsumeSend v) c = (0 < swoken_senders c \<and> sendable (schan c))"
| "sallowed SopConsumeRecv c = (0 < swoken_receivers c \<and> recvable (schan c))"
| "sallowed _ c = True"

fun sallowed_run :: "'a sop list \<Rightarrow> 'a sconf \<Rightarrow> bool" where
  "sallowed_run [] c = True"
| "sallowed_run (x # xs) c =
    (sallowed x c \<and> (case schan_op x c of None \<Rightarrow> True | Some c' \<Rightarrow> sallowed_run xs c'))"

fun schan_run :: "'a sop list \<Rightarrow> 'a sconf \<Rightarrow> 'a sconf option" where
  "schan_run [] c = Some c"
| "schan_run (x # xs) c = (case schan_op x c of None \<Rightarrow> None | Some c' \<Rightarrow> schan_run xs c')"

section \<open>The invariant\<close>

definition sids_ok :: "'a sstate \<Rightarrow> bool" where
  "sids_ok s \<longleftrightarrow> distinct (map swaker_id (filter resumption (squeued s))) \<and>
     (\<forall>x\<in>set (squeued s). resumption x \<longrightarrow> scells s (swaker_id x) = Pending) \<and>
     (\<forall>x\<in>set (squeued s). \<forall>y\<in>set (squeued s). resumption x \<longrightarrow> \<not> resumption y \<longrightarrow> swaker_id x \<noteq> swaker_id y)"

definition sstate_ok :: "'a sstate \<Rightarrow> bool" where
  "sstate_ok s \<longleftrightarrow> sids_ok s \<and> length (sdeque s) \<le> sbound s \<and>
     (sclosed s \<longrightarrow> ssenders s = [] \<and> sreceivers s = [])"

definition sserved :: "'a sconf \<Rightarrow> bool" where
  "sserved c \<longleftrightarrow>
     (ssenders (schan c) \<noteq> [] \<longrightarrow> sbound (schan c) \<le> length (sdeque (schan c)) + swoken_senders c) \<and>
     (sreceivers (schan c) \<noteq> [] \<longrightarrow> length (sdeque (schan c)) \<le> swoken_receivers c)"

definition sconf_ok :: "'a sconf \<Rightarrow> bool" where
  "sconf_ok c \<longleftrightarrow> sstate_ok (schan c) \<and> sserved c \<and> saccepted c = staken c @ sdeque (schan c)"

section \<open>Waking one waiter\<close>

fun stakes :: "'a wake_msg cells \<Rightarrow> swaker \<Rightarrow> bool" where
  "stakes cs (SSelector sel) \<longleftrightarrow> cs (sel_waker sel) = Pending"
| "stakes cs (SResumption w) \<longleftrightarrow> True"

lemma swake_refused: "\<not> stakes cs x \<Longrightarrow> swake x cs = (False, cs)"
  by (cases x) (auto simp: wake_simps)

lemma swake_taken:
  assumes "cs (swaker_id x) = Pending"
  shows "fst (swake x cs) \<and> (\<exists>m. snd (swake x cs) = cs(swaker_id x := Woken m))"
  using assms by (cases x) (auto simp: wake_simps)

text \<open>
  Waking from a queue whose resumptions are pending: either every waiter refuses and nothing is
  left, or one pending cell is woken and what follows it is left.
\<close>

lemma swake_first_cases:
  assumes "\<forall>x\<in>set ws. resumption x \<longrightarrow> cs (swaker_id x) = Pending"
  obtains (none) "swake_first ws cs = ([], cs)"
  | (some) pre x rest m where "ws = pre @ x # rest" "cs (swaker_id x) = Pending"
      "swake_first ws cs = (rest, cs(swaker_id x := Woken m))"
  using assms
proof (induction ws arbitrary: thesis)
  case (Cons x ws)
  show ?case
  proof (cases "cs (swaker_id x) = Pending")
    case True
    obtain m where "swake x cs = (True, cs(swaker_id x := Woken m))"
      using swake_taken [of cs x] True by (metis (full_types) prod.collapse)
    then have "swake_first (x # ws) cs = (ws, cs(swaker_id x := Woken m))" by simp
    from Cons.prems(2) [OF _ True this, of "[]"] show ?thesis by simp
  next
    case False
    then have "\<not> stakes cs x" using Cons.prems(3) by (cases x) auto
    then have step: "swake_first (x # ws) cs = swake_first ws cs" by (simp add: swake_refused)
    show ?thesis
    proof (rule Cons.IH)
      show "swake_first ws cs = ([], cs) \<Longrightarrow> thesis" using Cons.prems(1) step by simp
    next
      fix pre y rest m
      assume y: "ws = pre @ y # rest" "cs (swaker_id y) = Pending"
        and e: "swake_first ws cs = (rest, cs(swaker_id y := Woken m))"
      have "swake_first (x # ws) cs = (rest, cs(swaker_id y := Woken m))" using step e by (rule trans)
      moreover have "x # ws = (x # pre) @ y # rest" by (simp add: y(1))
      ultimately show thesis using Cons.prems(2) y(2) by metis
    next
      show "\<forall>x\<in>set ws. resumption x \<longrightarrow> cs (swaker_id x) = Pending" using Cons.prems(3) by simp
    qed
  qed
qed simp

lemma newly_woken_one:
  assumes "i \<in> set (map swaker_id ws)" and "scells s i = Pending" and "scells s' = (scells s)(i := Woken m)"
  shows "newly_woken ws s s' = 1"
proof -
  have "set (filter (\<lambda>w. scells s w = Pending \<and> scells s' w \<noteq> Pending) (map swaker_id ws)) = {i}"
    using assms by auto
  then show ?thesis unfolding newly_woken_def by simp
qed

lemma sids_ok_shrink:
  assumes ok: "sids_ok s" and sub: "subseq (squeued s') (squeued s)"
    and cs: "\<And>x. x \<in> set (squeued s') \<Longrightarrow> resumption x \<Longrightarrow> scells s' (swaker_id x) = scells s (swaker_id x)"
  shows "sids_ok s'"
proof -
  have "subseq (map swaker_id (filter resumption (squeued s'))) (map swaker_id (filter resumption (squeued s)))"
    by (intro subseq_map subseq_filter sub)
  then have "distinct (map swaker_id (filter resumption (squeued s')))"
    using ok subseq_distinct unfolding sids_ok_def by blast
  then show ?thesis using ok cs subseq_set [OF sub] unfolding sids_ok_def by (auto simp: subset_iff)
qed

lemma other_swaker_id:
  assumes ok: "sids_ok s" and q: "squeued s = pre @ x # post" and y: "y \<in> set (pre @ post)" "resumption y"
  shows "swaker_id y \<noteq> swaker_id x"
proof (cases "resumption x")
  case True
  have "distinct (map swaker_id (filter resumption (pre @ x # post)))"
    using ok unfolding sids_ok_def q by blast
  then have "swaker_id x \<notin> swaker_id ` set (filter resumption (pre @ post))" using True by auto
  moreover have "swaker_id y \<in> swaker_id ` set (filter resumption (pre @ post))" using y by auto
  ultimately show ?thesis by metis
next
  case False
  have "x \<in> set (squeued s)" "y \<in> set (squeued s)" using q y(1) by auto
  then show ?thesis using ok y(2) False unfolding sids_ok_def by blast
qed

text \<open>A wake pops from one queue; the other queue and the rest of the state stay.\<close>

lemma pop_ids_ok:
  assumes ok: "sids_ok s" and q: "squeued s = pre @ x # post" and sub: "subseq (squeued s') (pre @ post)"
    and cs: "scells s' = (scells s)(swaker_id x := Woken m)"
  shows "sids_ok s'"
proof (rule sids_ok_shrink [OF ok])
  have "subseq (pre @ post) (pre @ x # post)" by (rule subseq_drop_one)
  then show "subseq (squeued s') (squeued s)" using sub q by (metis subseq_order.trans)
  fix y assume "y \<in> set (squeued s')" "resumption y"
  then have "swaker_id y \<noteq> swaker_id x" using other_swaker_id [OF ok q] subseq_set [OF sub] by blast
  then show "scells s' (swaker_id y) = scells s (swaker_id y)" by (simp add: cs)
qed

lemma swake_sender_effect:
  assumes ok: "sids_ok s"
  shows "sdeque (swake_sender s) = sdeque s \<and> sbound (swake_sender s) = sbound s \<and>
    sclosed (swake_sender s) = sclosed s \<and> sreceivers (swake_sender s) = sreceivers s \<and>
    sids_ok (swake_sender s) \<and> (ssenders s = [] \<longrightarrow> ssenders (swake_sender s) = []) \<and>
    (ssenders (swake_sender s) \<noteq> [] \<longrightarrow> newly_woken (ssenders s) s (swake_sender s) = 1)"
proof -
  have pend: "\<forall>x\<in>set (ssenders s). resumption x \<longrightarrow> scells s (swaker_id x) = Pending"
    using ok by (simp add: sids_ok_def squeued_def)
  let ?s = "swake_sender s"
  show ?thesis
  proof (cases rule: swake_first_cases [OF pend, case_names none some])
    case none
    have "sids_ok ?s" using none by (intro sids_ok_shrink [OF ok]) (auto simp: swake_sender_def squeued_def)
    then show ?thesis using none by (simp add: swake_sender_def)
  next
    case (some pre x rest m)
    have cs: "scells ?s = (scells s)(swaker_id x := Woken m)" and q: "ssenders ?s = rest" "sreceivers ?s = sreceivers s"
      using some(3) by (simp_all add: swake_sender_def)
    have "sids_ok ?s"
      by (rule pop_ids_ok [OF ok _ _ cs, of pre "rest @ sreceivers s"])
        (simp_all add: squeued_def some(1) q subseq_drop_mid [of "[]", simplified])
    moreover have "newly_woken (ssenders s) s ?s = 1"
      by (rule newly_woken_one [OF _ some(2) cs]) (simp add: some(1))
    ultimately show ?thesis using some(1,3) by (simp add: swake_sender_def)
  qed
qed

lemma swake_receiver_effect:
  assumes ok: "sids_ok s"
  shows "sdeque (swake_receiver s) = sdeque s \<and> sbound (swake_receiver s) = sbound s \<and>
    sclosed (swake_receiver s) = sclosed s \<and> ssenders (swake_receiver s) = ssenders s \<and>
    sids_ok (swake_receiver s) \<and> (sreceivers s = [] \<longrightarrow> sreceivers (swake_receiver s) = []) \<and>
    (sreceivers (swake_receiver s) \<noteq> [] \<longrightarrow> newly_woken (sreceivers s) s (swake_receiver s) = 1)"
proof -
  have pend: "\<forall>x\<in>set (sreceivers s). resumption x \<longrightarrow> scells s (swaker_id x) = Pending"
    using ok by (simp add: sids_ok_def squeued_def)
  let ?s = "swake_receiver s"
  show ?thesis
  proof (cases rule: swake_first_cases [OF pend, case_names none some])
    case none
    have "sids_ok ?s" using none by (intro sids_ok_shrink [OF ok]) (auto simp: swake_receiver_def squeued_def)
    then show ?thesis using none by (simp add: swake_receiver_def)
  next
    case (some pre x rest m)
    have cs: "scells ?s = (scells s)(swaker_id x := Woken m)" and q: "sreceivers ?s = rest" "ssenders ?s = ssenders s"
      using some(3) by (simp_all add: swake_receiver_def)
    have "sids_ok ?s"
      by (rule pop_ids_ok [OF ok _ _ cs, of "ssenders s @ pre" rest])
        (simp_all add: squeued_def some(1) q subseq_drop_mid)
    moreover have "newly_woken (sreceivers s) s ?s = 1"
      by (rule newly_woken_one [OF _ some(2) cs]) (simp add: some(1))
    ultimately show ?thesis using some(1,3) by (simp add: swake_receiver_def)
  qed
qed

lemma newly_woken_cong: "scells s1 = scells s \<Longrightarrow> newly_woken ws s1 s' = newly_woken ws s s'"
  by (simp add: newly_woken_def)

lemma sids_ok_cong: "squeued s' = squeued s \<Longrightarrow> scells s' = scells s \<Longrightarrow> sids_ok s' = sids_ok s"
  by (simp add: sids_ok_def)

lemma newly_woken_same: "scells s' = scells s \<Longrightarrow> newly_woken ws s s' = 0"
proof -
  assume "scells s' = scells s"
  then have "set (filter (\<lambda>w. scells s w = Pending \<and> scells s' w \<noteq> Pending) (map swaker_id ws)) = {}" by auto
  then show ?thesis unfolding newly_woken_def by simp
qed

lemma sids_ok_add:
  assumes ok: "sids_ok s" and q: "squeued s' = pre @ x # post" "squeued s = pre @ post" and cs: "scells s' = scells s"
    and x: "if resumption x then sfresh (swaker_id x) s
            else swaker_id x \<notin> set (map swaker_id (filter resumption (squeued s)))"
  shows "sids_ok s'"
proof -
  have old: "distinct (map swaker_id (filter resumption (pre @ post)))"
    "\<forall>x\<in>set (pre @ post). resumption x \<longrightarrow> scells s (swaker_id x) = Pending"
    "\<forall>x\<in>set (pre @ post). \<forall>y\<in>set (pre @ post). resumption x \<longrightarrow> \<not> resumption y \<longrightarrow> swaker_id x \<noteq> swaker_id y"
    using ok unfolding sids_ok_def q(2) by blast+
  have "distinct (map swaker_id (filter resumption (pre @ x # post)))"
    using old(1) x by (auto simp: sfresh_def q(2) split: if_splits)
  moreover have "\<forall>y\<in>set (pre @ x # post). resumption y \<longrightarrow> scells s' (swaker_id y) = Pending"
    using old(2) x cs by (auto simp: sfresh_def)
  moreover have "swaker_id y \<noteq> swaker_id z" if "y \<in> set (pre @ x # post)" "z \<in> set (pre @ x # post)"
    "resumption y" "\<not> resumption z" for y z
  proof -
    note yz = that
    have ids: "swaker_id y \<in> set (map swaker_id (filter resumption (squeued s)))" if "y \<noteq> x"
      using that \<open>y \<in> set (pre @ x # post)\<close> \<open>resumption y\<close> by (auto simp: q(2))
    have any: "swaker_id z \<in> set (map swaker_id (squeued s))" if "z \<noteq> x"
      using that \<open>z \<in> set (pre @ x # post)\<close> by (auto simp: q(2))
    consider "y = x" "z \<noteq> x" | "y \<noteq> x" "z = x" | "y \<noteq> x" "z \<noteq> x" using yz(3,4) by blast
    then show ?thesis
    proof cases
      case 1
      then show ?thesis using x any yz(3) by (metis sfresh_def)
    next
      case 2
      then show ?thesis using x ids yz(4) by metis
    next
      case 3
      then show ?thesis using old(3) yz by auto
    qed
  qed
  ultimately show ?thesis unfolding sids_ok_def q(1) by blast
qed

lemma sids_ok_enqueue:
  assumes "sids_ok s" and "sfresh w s"
  shows "sids_ok (s\<lparr>ssenders := ssenders s @ [SResumption w]\<rparr>)"
    and "sids_ok (s\<lparr>sreceivers := sreceivers s @ [SResumption w]\<rparr>)"
  by (rule sids_ok_add [OF assms(1), of _ "ssenders s" "SResumption w" "sreceivers s"];
      simp add: squeued_def assms(2))
    (rule sids_ok_add [OF assms(1), of _ "ssenders s @ sreceivers s" "SResumption w" "[]"];
      simp add: squeued_def assms(2))

lemma sids_ok_watch:
  assumes "sids_ok s" and "sel_waker sel \<notin> set (map swaker_id (filter resumption (squeued s)))"
  shows "sids_ok (s\<lparr>ssenders := ssenders s @ [SSelector sel]\<rparr>)"
    and "sids_ok (s\<lparr>sreceivers := sreceivers s @ [SSelector sel]\<rparr>)"
proof -
  show "sids_ok (s\<lparr>ssenders := ssenders s @ [SSelector sel]\<rparr>)"
    by (rule sids_ok_add [OF assms(1), of _ "ssenders s" "SSelector sel" "sreceivers s"])
      (use assms(2) in \<open>auto simp: squeued_def\<close>)
  show "sids_ok (s\<lparr>sreceivers := sreceivers s @ [SSelector sel]\<rparr>)"
    by (rule sids_ok_add [OF assms(1), of _ "ssenders s @ sreceivers s" "SSelector sel" "[]"])
      (use assms(2) in \<open>auto simp: squeued_def\<close>)
qed

section \<open>The operations\<close>

text \<open>Pushing a value and pulling one, with the wake-up that follows.\<close>

lemma push_effect:
  fixes c :: "'a sconf" and v :: 'a
  assumes ok: "sconf_ok c" and op: "\<not> sclosed (schan c)" and nf: "\<not> sfull (schan c)"
    and room: "ssenders (schan c) \<noteq> [] \<longrightarrow> sbound (schan c) \<le> Suc (length (sdeque (schan c))) + wsn"
  defines "s' \<equiv> swake_receiver (schan c\<lparr>sdeque := sdeque (schan c) @ [v]\<rparr>)"
  shows "sconf_ok (sobserve s' wsn (swoken_receivers c + newly_woken (sreceivers (schan c)) (schan c) s') [v] [] c)"
proof -
  let ?s = "schan c" and ?s1 = "schan c\<lparr>sdeque := sdeque (schan c) @ [v]\<rparr>"
  have "sids_ok ?s1 = sids_ok ?s" by (rule sids_ok_cong) (simp_all add: squeued_def)
  then have e: "sids_ok ?s1" using ok by (simp add: sconf_ok_def sstate_ok_def)
  note w = swake_receiver_effect [OF e, folded s'_def]
  have n: "newly_woken (sreceivers ?s) ?s1 s' = newly_woken (sreceivers ?s) ?s s'"
    by (rule newly_woken_cong) simp
  have "length (sdeque ?s) < sbound ?s"
    using ok nf by (simp add: sconf_ok_def sstate_ok_def sfull_def)
  then show ?thesis using ok op room w n
    by (auto simp: sconf_ok_def sstate_ok_def sserved_def sobserve_def)
qed

lemma pull_effect:
  fixes c :: "'a sconf" and v :: 'a
  assumes ok: "sconf_ok c" and dq: "sdeque (schan c) = v # vs"
    and avail: "sreceivers (schan c) \<noteq> [] \<longrightarrow> length vs \<le> wr"
  defines "s' \<equiv> swake_sender (schan c\<lparr>sdeque := vs\<rparr>)"
  shows "sconf_ok (sobserve s' (swoken_senders c + newly_woken (ssenders (schan c)) (schan c) s') wr [] [v] c)"
proof -
  let ?s = "schan c" and ?s1 = "schan c\<lparr>sdeque := vs\<rparr>"
  have "sids_ok ?s1 = sids_ok ?s" by (rule sids_ok_cong) (simp_all add: squeued_def)
  then have e: "sids_ok ?s1" using ok by (simp add: sconf_ok_def sstate_ok_def)
  note w = swake_sender_effect [OF e, folded s'_def]
  have n: "newly_woken (ssenders ?s) ?s1 s' = newly_woken (ssenders ?s) ?s s'"
    by (rule newly_woken_cong) simp
  show ?thesis using ok avail w n dq
    by (auto simp: sconf_ok_def sstate_ok_def sserved_def sobserve_def)
qed


lemma send_conf_ok:
  assumes ok: "sconf_ok c" and fr: "case who of None \<Rightarrow> True | Some w \<Rightarrow> sfresh w (schan c)"
    and w: "wsn = swoken_senders c \<or> Suc wsn = swoken_senders c"
  shows "sconf_ok (sent wsn v (ssend who v (schan c)) c)"
proof -
  let ?s = "schan c"
  consider (closed) "sclosed ?s" | (push) "\<not> sclosed ?s" "\<not> sfull ?s" | (full) "\<not> sclosed ?s" "sfull ?s" by blast
  then show ?thesis
  proof cases
    case closed
    have "newly_woken (sreceivers ?s) ?s ?s = 0" by (simp add: newly_woken_same)
    then show ?thesis using closed ok
      by (simp add: ssend_def sent_def sobserve_def sconf_ok_def sserved_def sstate_ok_def)
  next
    case push
    have "sbound ?s \<le> Suc (length (sdeque ?s)) + wsn" if "ssenders ?s \<noteq> []"
      using ok w that by (auto simp: sconf_ok_def sserved_def)
    then show ?thesis using push_effect [OF ok push] push by (simp add: ssend_def sent_def)
  next
    case full
    have nw: "newly_woken (sreceivers ?s) ?s s' = 0" if "scells s' = scells ?s" for s'
      using that by (simp add: newly_woken_same)
    have len: "length (sdeque ?s) = sbound ?s" using full(2) by (simp add: sfull_def)
    show ?thesis
    proof (cases who)
      case None
      then show ?thesis using full ok nw len
        by (simp add: ssend_def sent_def sobserve_def sconf_ok_def sserved_def)
    next
      case (Some w)
      then have "sids_ok (?s\<lparr>ssenders := ssenders ?s @ [SResumption w]\<rparr>)"
        using ok fr by (intro sids_ok_enqueue) (auto simp: sconf_ok_def sstate_ok_def)
      then show ?thesis using Some full ok nw len
        by (simp add: ssend_def sent_def sobserve_def sconf_ok_def sserved_def sstate_ok_def)
    qed
  qed
qed

lemma recv_conf_ok:
  assumes ok: "sconf_ok c" and fr: "case who of None \<Rightarrow> True | Some w \<Rightarrow> sfresh w (schan c)"
    and w: "wr = swoken_receivers c \<or> Suc wr = swoken_receivers c"
  shows "sconf_ok (received wr (srecv who (schan c)) c)"
proof -
  let ?s = "schan c"
  have nw: "newly_woken (ssenders ?s) ?s s' = 0" if "scells s' = scells ?s" for s'
    using that by (simp add: newly_woken_same)
  show ?thesis
  proof (cases "sdeque ?s")
    case (Cons v vs)
    have "length vs \<le> wr" if "sreceivers ?s \<noteq> []"
      using ok w that Cons by (auto simp: sconf_ok_def sserved_def)
    then show ?thesis using pull_effect [OF ok Cons] Cons by (simp add: srecv_def received_def)
  next
    case Nil
    show ?thesis
    proof (cases "sclosed ?s \<or> who = None")
      case True
      then show ?thesis using Nil ok nw
        by (auto simp: srecv_def received_def sobserve_def sconf_ok_def sserved_def sstate_ok_def)
    next
      case False
      then obtain w where who: "who = Some w" by auto
      then have "sids_ok (?s\<lparr>sreceivers := sreceivers ?s @ [SResumption w]\<rparr>)"
        using ok fr by (intro sids_ok_enqueue) (auto simp: sconf_ok_def sstate_ok_def)
      then show ?thesis using False who Nil ok nw
        by (simp add: srecv_def received_def sobserve_def sconf_ok_def sserved_def sstate_ok_def)
    qed
  qed
qed

lemma consumed_send_eq:
  assumes "sendable (schan c)"
  shows "consumed_send wsn v c = Some (sent wsn v (ssend None v (schan c)) c)"
proof (cases "sclosed (schan c)")
  case True
  then show ?thesis
    by (simp add: consumed_send_def sent_def sconsume_send_permit_def ssend_def sobserve_def)
next
  case False
  then have "\<not> sfull (schan c)" using assms by (simp add: sendable_def)
  with False show ?thesis
    by (simp add: consumed_send_def sent_def sconsume_send_permit_def ssend_def sobserve_def)
qed

lemma consumed_recv_eq:
  assumes "recvable (schan c)"
  shows "consumed_recv wr c = Some (received wr (srecv None (schan c)) c)"
proof (cases "sdeque (schan c)")
  case Nil
  then have "sclosed (schan c)" using assms by (simp add: recvable_def)
  with Nil show ?thesis
    by (simp add: consumed_recv_def received_def sconsume_recv_permit_def srecv_def sobserve_def)
next
  case (Cons v vs)
  then show ?thesis
    by (simp add: consumed_recv_def received_def sconsume_recv_permit_def srecv_def sobserve_def)
qed

lemma unwatch_conf_ok:
  assumes ok: "sconf_ok c" and sub: "subseq (ssenders s') (ssenders (schan c))"
      "subseq (sreceivers s') (sreceivers (schan c))"
    and same: "sdeque s' = sdeque (schan c)" "sbound s' = sbound (schan c)" "sclosed s' = sclosed (schan c)"
      "scells s' = scells (schan c)"
  shows "sconf_ok (c\<lparr>schan := s'\<rparr>)"
proof -
  have "sids_ok s'"
  proof (rule sids_ok_shrink)
    show "sids_ok (schan c)" using ok by (simp add: sconf_ok_def sstate_ok_def)
    show "subseq (squeued s') (squeued (schan c))"
      unfolding squeued_def by (intro list_emb_append_mono sub)
  qed (simp add: same)
  then show ?thesis using ok sub same by (auto simp: sconf_ok_def sstate_ok_def sserved_def)
qed

lemma watch_conf_ok:
  assumes ok: "sconf_ok c" and ids: "sids_ok s'"
    and same: "sdeque s' = sdeque (schan c)" "sbound s' = sbound (schan c)" "sclosed s' = sclosed (schan c)"
    and w: "sfull (schan c) \<and> \<not> sclosed (schan c) \<and> sreceivers s' = sreceivers (schan c) \<or>
      sdeque (schan c) = [] \<and> \<not> sclosed (schan c) \<and> ssenders s' = ssenders (schan c)"
  shows "sconf_ok (c\<lparr>schan := s'\<rparr>)"
  using w
proof
  assume f: "sfull (schan c) \<and> \<not> sclosed (schan c) \<and> sreceivers s' = sreceivers (schan c)"
  then have "sbound (schan c) = length (sdeque (schan c))" by (simp add: sfull_def)
  then show ?thesis using f ok ids same by (simp add: sconf_ok_def sstate_ok_def sserved_def)
next
  assume "sdeque (schan c) = [] \<and> \<not> sclosed (schan c) \<and> ssenders s' = ssenders (schan c)"
  then show ?thesis using ok ids same by (simp add: sconf_ok_def sstate_ok_def sserved_def)
qed

lemma schan_op_ok:
  assumes ok: "sconf_ok c" and al: "sallowed x c"
  shows "\<exists>c'. schan_op x c = Some c' \<and> sconf_ok c'"
proof (cases x)
  case (SopSend who v)
  then show ?thesis using send_conf_ok [OF ok] al by simp
next
  case (SopRecv who)
  then show ?thesis using recv_conf_ok [OF ok] al by simp
next
  case (SopSelectSend v)
  then show ?thesis using ok send_conf_ok [OF ok, of None "swoken_senders c" v]
    by (auto simp: sselect_send_permit_def consumed_send_eq)
next
  case SopSelectRecv
  then show ?thesis using ok recv_conf_ok [OF ok, of None "swoken_receivers c"]
    by (auto simp: sselect_recv_permit_def consumed_recv_eq)
next
  case (SopWatchSend sel)
  let ?s' = "schan c\<lparr>ssenders := ssenders (schan c) @ [SSelector sel]\<rparr>"
  have "sids_ok ?s'" using al SopWatchSend ok
    by (intro sids_ok_watch(1)) (simp_all add: sconf_ok_def sstate_ok_def)
  then have "sconf_ok (c\<lparr>schan := ?s'\<rparr>)" using al SopWatchSend
    by (intro watch_conf_ok [OF ok]) (simp_all add: sendable_def)
  then show ?thesis using al SopWatchSend by (simp add: swatch_send_permit_def)
next
  case (SopWatchRecv sel)
  let ?s' = "schan c\<lparr>sreceivers := sreceivers (schan c) @ [SSelector sel]\<rparr>"
  have "sids_ok ?s'" using al SopWatchRecv ok
    by (intro sids_ok_watch(2)) (simp_all add: sconf_ok_def sstate_ok_def)
  then have "sconf_ok (c\<lparr>schan := ?s'\<rparr>)" using al SopWatchRecv
    by (intro watch_conf_ok [OF ok]) (simp_all add: recvable_def)
  then show ?thesis using al SopWatchRecv by (simp add: swatch_recv_permit_def)
next
  case (SopUnwatchSend i)
  have "sconf_ok (c\<lparr>schan := sunwatch_send_permit i (schan c)\<rparr>)"
    by (rule unwatch_conf_ok [OF ok]) (auto simp: sunwatch_send_permit_def subseq_remove_at split: option.split)
  then show ?thesis using SopUnwatchSend by simp
next
  case (SopUnwatchRecv i)
  have "sconf_ok (c\<lparr>schan := sunwatch_recv_permit i (schan c)\<rparr>)"
    by (rule unwatch_conf_ok [OF ok]) (auto simp: sunwatch_recv_permit_def subseq_remove_at split: option.split)
  then show ?thesis using SopUnwatchRecv by simp
next
  case SopClose
  then show ?thesis using ok
    by (simp add: sclose_def sconf_ok_def sstate_ok_def sserved_def sids_ok_def squeued_def)
next
  case (SopResend w v)
  then show ?thesis using send_conf_ok [OF ok, of "Some w" "swoken_senders c - 1" v] al by simp
next
  case (SopRerecv w)
  then show ?thesis using recv_conf_ok [OF ok, of "Some w" "swoken_receivers c - 1"] al by simp
next
  case (SopConsumeSend v)
  then show ?thesis using send_conf_ok [OF ok, of None "swoken_senders c - 1" v] al
    by (simp add: consumed_send_eq)
next
  case SopConsumeRecv
  then show ?thesis using recv_conf_ok [OF ok, of None "swoken_receivers c - 1"] al
    by (simp add: consumed_recv_eq)
qed

lemma schan_run_ok:
  "sconf_ok c \<Longrightarrow> sallowed_run xs c \<Longrightarrow> \<exists>c'. schan_run xs c = Some c' \<and> sconf_ok c'"
proof (induction xs arbitrary: c)
  case (Cons x xs)
  then obtain c1 where c1: "schan_op x c = Some c1" "sconf_ok c1" using schan_op_ok by fastforce
  with Cons.prems(2) have "sallowed_run xs c1" by simp
  from Cons.IH [OF c1(2) this] c1(1) show ?case by simp
qed simp

lemma sconf_ok_new [simp]: "sconf_ok (sconf_new b)"
  by (simp add: sconf_ok_def sconf_new_def sstate_new_def sstate_ok_def sserved_def sids_ok_def squeued_def)

section \<open>The bound\<close>

lemma sstate_bounds:
  "sbound (swake_sender s) = sbound s" "sbound (swake_receiver s) = sbound s" "sbound (sclose s) = sbound s"
  by (simp_all add: swake_sender_def swake_receiver_def sclose_def split: prod.split)

lemma call_bounds:
  "sbound (snd (ssend who v s)) = sbound s" "sbound (snd (srecv who s)) = sbound s"
  by (auto simp: ssend_def srecv_def sstate_bounds split: option.split list.split)

lemma schan_op_bound: "schan_op x c = Some c' \<Longrightarrow> sallowed x c \<Longrightarrow> sbound (schan c') = sbound (schan c)"
  by (cases x) (auto simp: sent_def received_def sobserve_def call_bounds consumed_send_eq consumed_recv_eq
      sselect_send_permit_def sselect_recv_permit_def swatch_send_permit_def swatch_recv_permit_def
      sunwatch_send_permit_def sunwatch_recv_permit_def sstate_bounds split: if_splits option.splits)

lemma schan_run_bound:
  "schan_run xs c = Some c' \<Longrightarrow> sallowed_run xs c \<Longrightarrow> sbound (schan c') = sbound (schan c)"
  by (induction xs arbitrary: c) (auto split: option.splits dest: schan_op_bound)

section \<open>The contract\<close>

text \<open>
  C5. The serial channel is a bounded FIFO queue: along every allowed history no call panics, the
  values accepted are, in order, those taken followed by those in the queue, and the queue never
  outgrows its bound.
\<close>

theorem serial_fifo:
  assumes "sallowed_run ops (sconf_new b)"
  shows "\<exists>c. schan_run ops (sconf_new b) = Some c \<and> saccepted c = staken c @ sdeque (schan c) \<and>
    length (sdeque (schan c)) \<le> b"
proof -
  obtain c where c: "schan_run ops (sconf_new b) = Some c" "sconf_ok c"
    using schan_run_ok [OF sconf_ok_new assms] by blast
  moreover have "sbound (schan c) = b"
    using schan_run_bound [OF c(1) assms] by (simp add: sconf_new_def sstate_new_def)
  ultimately show ?thesis by (auto simp: sconf_ok_def sstate_ok_def)
qed

definition serial_history :: "string sop list" where
  "serial_history = [SopSend None ''a'', SopSend (Some 1) ''b'', SopSend (Some 2) ''c'', SopRecv None,
    SopResend 3 ''b'', SopSelectRecv, SopRecv (Some 4)]"

lemmas serial_simps = sconf_new_def sstate_new_def sent_def received_def sobserve_def ssend_def srecv_def
  sfull_def sendable_def recvable_def swake_sender_def swake_receiver_def newly_woken_def sfresh_def
  squeued_def consumed_send_def consumed_recv_def sconsume_send_permit_def sconsume_recv_permit_def
  sselect_send_permit_def sselect_recv_permit_def swatch_send_permit_def swatch_recv_permit_def wake_simps Let_def

lemma serial_history_allowed: "sallowed_run serial_history (sconf_new 1)"
  by (simp add: serial_history_def serial_simps)

lemma serial_fifo_witness:
  "\<exists>c. schan_run serial_history (sconf_new 1) = Some c \<and> saccepted c = staken c @ sdeque (schan c)"
  using serial_fifo [OF serial_history_allowed] by blast

text \<open>
  C6. The serial channel forgets no waiter. While a sender waits, every free slot has a woken sender
  that has not run yet; while a receiver waits, every value has a woken receiver that has not run
  yet; and once the channel is closed nobody waits.
\<close>

theorem serial_forgets_no_waiter:
  assumes "sallowed_run ops (sconf_new b)" and "schan_run ops (sconf_new b) = Some c"
  shows "(ssenders (schan c) \<noteq> [] \<longrightarrow> b - length (sdeque (schan c)) \<le> swoken_senders c) \<and>
    (sreceivers (schan c) \<noteq> [] \<longrightarrow> length (sdeque (schan c)) \<le> swoken_receivers c) \<and>
    (sclosed (schan c) \<longrightarrow> ssenders (schan c) = [] \<and> sreceivers (schan c) = [])"
proof -
  have "sconf_ok c" using schan_run_ok [OF sconf_ok_new assms(1)] assms(2) by auto
  moreover have "sbound (schan c) = b"
    using schan_run_bound [OF assms(2,1)] by (simp add: sconf_new_def sstate_new_def)
  ultimately show ?thesis by (auto simp: sconf_ok_def sstate_ok_def sserved_def)
qed

lemma serial_forgets_no_waiter_witness:
  "\<exists>c. schan_run [SopSend None ''a'', SopSend (Some 1) ''b'', SopSend (Some 2) ''c'', SopRecv None] (sconf_new 1)
    = Some c \<and> 1 \<le> swoken_senders c"
proof -
  let ?ops = "[SopSend None ''a'', SopSend (Some 1) ''b'', SopSend (Some 2) ''c'', SopRecv None]"
  have al: "sallowed_run ?ops (sconf_new 1)" by (simp add: serial_simps)
  have "map_option (\<lambda>c. (ssenders (schan c), sdeque (schan c))) (schan_run ?ops (sconf_new 1))
      = Some ([SResumption 2], [])"
    by (simp add: serial_simps)
  then obtain c where c: "schan_run ?ops (sconf_new 1) = Some c" "ssenders (schan c) = [SResumption 2]"
      "sdeque (schan c) = []" by auto
  from serial_forgets_no_waiter [OF al c(1)] c show ?thesis by simp
qed

text \<open>
  A permit of the serial channel reserves nothing. A select that was woken with one loses it to
  any coroutine that runs before it and takes the value, and consuming the permit then panics;
  likewise for a slot.
\<close>

theorem permit_stolen:
  "(let ops = [SopWatchRecv sel, SopSend None v, SopRecv None] in
   sallowed_run ops (sconf_new 1) \<and>
   (\<exists>c. schan_run ops (sconf_new 1) = Some c \<and>
     scells (schan c) (sel_waker sel) = Woken (MSelected (sel_index sel) (to_select Consume)) \<and>
     swoken_receivers c = 1 \<and> schan_op SopConsumeRecv c = None)) \<and>
   (let ops = [SopSend None v, SopWatchSend sel, SopRecv None, SopSend None u] in
   sallowed_run ops (sconf_new 1) \<and>
   (\<exists>c. schan_run ops (sconf_new 1) = Some c \<and>
     scells (schan c) (sel_waker sel) = Woken (MSelected (sel_index sel) (to_select Consume)) \<and>
     swoken_senders c = 1 \<and> schan_op (SopConsumeSend w) c = None))"
  by (simp add: serial_simps)

end
