(* ===== verification/Shared.thy ===== *)
theory Shared
  imports Selectors
begin

text \<open>
  \<open>src/src/channel/shared.rs\<close>: the \<open>Sender\<close> and \<open>Receiver\<close> handles both kinds of channel wrap. The
  trait \<open>Channel\<close> is a record of operations and the locale \<open>channel\<close> is its contract; a handle is
  attached to its channel (\<open>Some\<close>) or not (\<open>None\<close>), a flag next to the channel's state. \<open>None\<close>
  as a result is a panic.
\<close>

section \<open>The trait\<close>

text \<open>\<open>'k\<close> says who calls (a trying call is \<open>ch_trying\<close>), \<open>'s\<close> is the state of the channel.\<close>

record ('k, 'v, 's) channel_ops =
  ch_trying :: 'k
  ch_send :: "'k \<Rightarrow> 'v \<Rightarrow> 's \<Rightarrow> (('v try_send_error + unit) outcome \<times> 's) option"
  ch_recv :: "'k \<Rightarrow> 's \<Rightarrow> ((try_recv_error + 'v) outcome \<times> 's) option"
  ch_add_sender :: "'s \<Rightarrow> 's"
  ch_remove_sender :: "'s \<Rightarrow> 's"
  ch_add_receiver :: "'s \<Rightarrow> 's"
  ch_remove_receiver :: "'s \<Rightarrow> 's"
  ch_select_send :: "'s \<Rightarrow> permit option \<times> 's"
  ch_select_recv :: "'s \<Rightarrow> permit option \<times> 's"
  ch_consume_send :: "'v \<Rightarrow> 's \<Rightarrow> (('v send_error + unit) \<times> 's) option"
  ch_consume_recv :: "'s \<Rightarrow> ('v option \<times> 's) option"
  ch_watch_send :: "selector \<Rightarrow> 's \<Rightarrow> (bool \<times> 's) option"
  ch_watch_recv :: "selector \<Rightarrow> 's \<Rightarrow> (bool \<times> 's) option"
  ch_unwatch_send :: "nat \<Rightarrow> 's \<Rightarrow> 's"
  ch_unwatch_recv :: "nat \<Rightarrow> 's \<Rightarrow> 's"
  ch_close :: "'s \<Rightarrow> 's"

section \<open>The sending handle\<close>

text \<open>
  What \<open>Sender::send\<close> does with the result of the channel's blocking send, now or once the call
  has been woken; \<open>Full\<close> is the \<open>unreachable!\<close>.
\<close>

fun sender_sent :: "('k, 'v, 's) channel_ops \<Rightarrow> 'v try_send_error + unit \<Rightarrow> 's \<Rightarrow>
    (('v send_error + unit) \<times> bool \<times> 's) option" where
  "sender_sent ops (Inr u) s = Some (Inr (), True, s)"
| "sender_sent ops (Inl (Full v)) s = None"
| "sender_sent ops (Inl (TryClosed v)) s = Some (Inl (SendClosed v), False, ch_remove_sender ops s)"

definition sender_send :: "('k, 'v, 's) channel_ops \<Rightarrow> 'k \<Rightarrow> 'v \<Rightarrow> bool \<times> 's \<Rightarrow>
    (('v send_error + unit) outcome \<times> bool \<times> 's) option" where
  "sender_send ops k v h =
    (if fst h then
       (case ch_send ops k v (snd h) of None \<Rightarrow> None
        | Some (Waits, s) \<Rightarrow> Some (Waits, True, s)
        | Some (Return r, s) \<Rightarrow> map_option (\<lambda>(r', h'). (Return r', h')) (sender_sent ops r s))
     else Some (Return (Inl (SendClosed v)), h))"

text \<open>A trying send never waits; if the channel made it wait, the call would not return.\<close>

definition sender_try_send :: "('k, 'v, 's) channel_ops \<Rightarrow> 'v \<Rightarrow> bool \<times> 's \<Rightarrow>
    (('v try_send_error + unit) \<times> bool \<times> 's) option" where
  "sender_try_send ops v h =
    (if fst h then
       (case ch_send ops (ch_trying ops) v (snd h) of
          Some (Return (Inr u), s) \<Rightarrow> Some (Inr (), True, s)
        | Some (Return (Inl (Full w)), s) \<Rightarrow> Some (Inl (Full w), True, s)
        | Some (Return (Inl (TryClosed w)), s) \<Rightarrow> Some (Inl (TryClosed w), False, ch_remove_sender ops s)
        | _ \<Rightarrow> None)
     else Some (Inl (TryClosed v), h))"

definition sender_close :: "('k, 'v, 's) channel_ops \<Rightarrow> bool \<times> 's \<Rightarrow> bool \<times> 's" where
  "sender_close ops h = (False, if fst h then ch_remove_sender ops (snd h) else snd h)"

definition sender_is_closed :: "bool \<times> 's \<Rightarrow> bool" where
  "sender_is_closed h = (\<not> fst h)"

text \<open>A clone: the flag of the new handle, and the channel it shares with the old one.\<close>

definition sender_clone :: "('k, 'v, 's) channel_ops \<Rightarrow> bool \<times> 's \<Rightarrow> bool \<times> 's" where
  "sender_clone ops h = (fst h, if fst h then ch_add_sender ops (snd h) else snd h)"

definition sender_drop :: "('k, 'v, 's) channel_ops \<Rightarrow> bool \<times> 's \<Rightarrow> bool \<times> 's" where
  "sender_drop ops h = sender_close ops h"

definition sender_parallel :: "bool \<times> 's \<Rightarrow> bool" where
  "sender_parallel h = fst h"

fun permit_result :: "permit option \<Rightarrow> try_select_error + select_permit" where
  "permit_result None = Inl WouldBlock"
| "permit_result (Some p) = Inr (to_select p)"

definition sender_select_permit :: "('k, 'v, 's) channel_ops \<Rightarrow> bool \<times> 's \<Rightarrow>
    (try_select_error + select_permit) \<times> bool \<times> 's" where
  "sender_select_permit ops h =
    (if fst h then (let (p, s) = ch_select_send ops (snd h) in (permit_result p, True, s))
     else (Inl Completed, h))"

definition sender_watch_permit :: "('k, 'v, 's) channel_ops \<Rightarrow> selector \<Rightarrow> bool \<times> 's \<Rightarrow>
    (bool \<times> bool \<times> 's) option" where
  "sender_watch_permit ops sel h =
    (if fst h then map_option (\<lambda>(b, s). (b, True, s)) (ch_watch_send ops sel (snd h)) else Some (False, h))"

definition sender_unwatch_permit :: "('k, 'v, 's) channel_ops \<Rightarrow> nat \<Rightarrow> bool \<times> 's \<Rightarrow> bool \<times> 's" where
  "sender_unwatch_permit ops ident h =
    (if fst h then (True, ch_unwatch_send ops ident (snd h)) else h)"

definition sender_consume_permit :: "('k, 'v, 's) channel_ops \<Rightarrow> select_permit \<Rightarrow> 'v \<Rightarrow> bool \<times> 's \<Rightarrow>
    (('v send_error + unit) \<times> bool \<times> 's) option" where
  "sender_consume_permit ops p v h =
    (case of_select p of None \<Rightarrow> None
     | Some Closed \<Rightarrow> Some (Inl (SendClosed v), False, snd h)
     | Some Consume \<Rightarrow>
       if fst h then
         (case ch_consume_send ops v (snd h) of None \<Rightarrow> None
          | Some (Inl e, s) \<Rightarrow> Some (Inl e, False, ch_remove_sender ops s)
          | Some (Inr u, s) \<Rightarrow> Some (Inr (), True, s))
       else Some (Inl (SendClosed v), h))"

section \<open>The receiving handle\<close>

fun receiver_received :: "('k, 'v, 's) channel_ops \<Rightarrow> try_recv_error + 'v \<Rightarrow> 's \<Rightarrow>
    ('v option \<times> bool \<times> 's) option" where
  "receiver_received ops (Inr v) s = Some (Some v, True, s)"
| "receiver_received ops (Inl RecvEmpty) s = None"
| "receiver_received ops (Inl RecvClosed) s = Some (None, False, ch_remove_receiver ops s)"

definition receiver_recv :: "('k, 'v, 's) channel_ops \<Rightarrow> 'k \<Rightarrow> bool \<times> 's \<Rightarrow>
    ('v option outcome \<times> bool \<times> 's) option" where
  "receiver_recv ops k h =
    (if fst h then
       (case ch_recv ops k (snd h) of None \<Rightarrow> None
        | Some (Waits, s) \<Rightarrow> Some (Waits, True, s)
        | Some (Return r, s) \<Rightarrow> map_option (\<lambda>(r', h'). (Return r', h')) (receiver_received ops r s))
     else Some (Return None, h))"

definition receiver_try_recv :: "('k, 'v, 's) channel_ops \<Rightarrow> bool \<times> 's \<Rightarrow>
    ((try_recv_error + 'v) \<times> bool \<times> 's) option" where
  "receiver_try_recv ops h =
    (if fst h then
       (case ch_recv ops (ch_trying ops) (snd h) of
          Some (Return (Inr v), s) \<Rightarrow> Some (Inr v, True, s)
        | Some (Return (Inl RecvEmpty), s) \<Rightarrow> Some (Inl RecvEmpty, True, s)
        | Some (Return (Inl RecvClosed), s) \<Rightarrow> Some (Inl RecvClosed, False, ch_remove_receiver ops s)
        | _ \<Rightarrow> None)
     else Some (Inl RecvClosed, h))"

definition receiver_close :: "('k, 'v, 's) channel_ops \<Rightarrow> bool \<times> 's \<Rightarrow> bool \<times> 's" where
  "receiver_close ops h = (fst h, if fst h then ch_close ops (snd h) else snd h)"

definition receiver_terminate :: "('k, 'v, 's) channel_ops \<Rightarrow> bool \<times> 's \<Rightarrow> bool \<times> 's" where
  "receiver_terminate ops h = (False, if fst h then ch_remove_receiver ops (snd h) else snd h)"

definition receiver_is_drained :: "bool \<times> 's \<Rightarrow> bool" where
  "receiver_is_drained h = (\<not> fst h)"

definition receiver_clone :: "('k, 'v, 's) channel_ops \<Rightarrow> bool \<times> 's \<Rightarrow> bool \<times> 's" where
  "receiver_clone ops h = (fst h, if fst h then ch_add_receiver ops (snd h) else snd h)"

definition receiver_drop :: "('k, 'v, 's) channel_ops \<Rightarrow> bool \<times> 's \<Rightarrow> bool \<times> 's" where
  "receiver_drop ops h = receiver_terminate ops h"

definition receiver_parallel :: "bool \<times> 's \<Rightarrow> bool" where
  "receiver_parallel h = fst h"

definition receiver_select_permit :: "('k, 'v, 's) channel_ops \<Rightarrow> bool \<times> 's \<Rightarrow>
    (try_select_error + select_permit) \<times> bool \<times> 's" where
  "receiver_select_permit ops h =
    (if fst h then (let (p, s) = ch_select_recv ops (snd h) in (permit_result p, True, s))
     else (Inl Completed, h))"

definition receiver_watch_permit :: "('k, 'v, 's) channel_ops \<Rightarrow> selector \<Rightarrow> bool \<times> 's \<Rightarrow>
    (bool \<times> bool \<times> 's) option" where
  "receiver_watch_permit ops sel h =
    (if fst h then map_option (\<lambda>(b, s). (b, True, s)) (ch_watch_recv ops sel (snd h)) else Some (False, h))"

definition receiver_unwatch_permit :: "('k, 'v, 's) channel_ops \<Rightarrow> nat \<Rightarrow> bool \<times> 's \<Rightarrow> bool \<times> 's" where
  "receiver_unwatch_permit ops ident h =
    (if fst h then (True, ch_unwatch_recv ops ident (snd h)) else h)"

definition receiver_consume_permit :: "('k, 'v, 's) channel_ops \<Rightarrow> select_permit \<Rightarrow> bool \<times> 's \<Rightarrow>
    ('v option \<times> bool \<times> 's) option" where
  "receiver_consume_permit ops p h =
    (case of_select p of None \<Rightarrow> None
     | Some Closed \<Rightarrow> Some (None, False, snd h)
     | Some Consume \<Rightarrow>
       if fst h then
         (case ch_consume_recv ops (snd h) of None \<Rightarrow> None
          | Some (None, s) \<Rightarrow> Some (None, False, ch_remove_receiver ops s)
          | Some (Some v, s) \<Rightarrow> Some (Some v, True, s))
       else Some (None, h))"

end
