(* ===== verification/Handles.thy ===== *)
theory Handles
  imports Shared Parallel Serial
begin

text \<open>
  The contract of the trait \<open>Channel\<close> as a locale, what the handles of \<open>shared.rs\<close> make of it for
  any number of sender and receiver handles over one channel, and the two channels of the crate
  as its interpretations.
\<close>

section \<open>The contract\<close>

locale channel =
  fixes ops :: "('k, 'v, 's) channel_ops"
    and sends :: "'s \<Rightarrow> nat" and recvs :: "'s \<Rightarrow> nat" and shut :: "'s \<Rightarrow> bool"
  assumes send_frame: "ch_send ops k v s = Some (r, s') \<Longrightarrow>
      sends s' = sends s \<and> recvs s' = recvs s \<and> shut s' = shut s"
    and recv_frame: "ch_recv ops k s = Some (q, s') \<Longrightarrow>
      sends s' = sends s \<and> recvs s' = recvs s \<and> shut s' = shut s"
    and consume_send_frame: "ch_consume_send ops v s = Some (r', s') \<Longrightarrow>
      sends s' = sends s \<and> recvs s' = recvs s \<and> shut s' = shut s"
    and consume_recv_frame: "ch_consume_recv ops s = Some (q', s') \<Longrightarrow>
      sends s' = sends s \<and> recvs s' = recvs s \<and> shut s' = shut s"
    and add_sender: "sends (ch_add_sender ops s) = Suc (sends s) \<and>
      recvs (ch_add_sender ops s) = recvs s \<and> shut (ch_add_sender ops s) = shut s"
    and add_receiver: "recvs (ch_add_receiver ops s) = Suc (recvs s) \<and>
      sends (ch_add_receiver ops s) = sends s \<and> shut (ch_add_receiver ops s) = shut s"
    and remove_sender: "sends s = Suc n \<Longrightarrow> sends (ch_remove_sender ops s) = n \<and>
      recvs (ch_remove_sender ops s) = recvs s \<and> (shut (ch_remove_sender ops s) \<longleftrightarrow> shut s \<or> n = 0)"
    and remove_receiver: "recvs s = Suc n \<Longrightarrow> recvs (ch_remove_receiver ops s) = n \<and>
      sends (ch_remove_receiver ops s) = sends s \<and> (shut (ch_remove_receiver ops s) \<longleftrightarrow> shut s \<or> n = 0)"
    and close: "shut (ch_close ops s) \<and> sends (ch_close ops s) = sends s \<and> recvs (ch_close ops s) = recvs s"
    and send_full: "ch_send ops k v s = Some (Return (Inl (Full u)), s') \<Longrightarrow> k = ch_trying ops \<and> u = v"
    and send_closed: "ch_send ops k v s = Some (Return (Inl (TryClosed u)), s') \<Longrightarrow> shut s \<and> u = v"
    and recv_empty: "ch_recv ops k s = Some (Return (Inl RecvEmpty), s') \<Longrightarrow> k = ch_trying ops"
    and recv_closed: "ch_recv ops k s = Some (Return (Inl RecvClosed), s') \<Longrightarrow> shut s"
    and trying_returns: "ch_send ops (ch_trying ops) v s \<noteq> Some (Waits, s')"
      "ch_recv ops (ch_trying ops) s \<noteq> Some (Waits, s')"
    and select_closed: "ch_select_send ops s = (Some Closed, s') \<Longrightarrow> shut s"
      "ch_select_recv ops s = (Some Closed, s') \<Longrightarrow> shut s"

section \<open>Many handles over one channel\<close>

text \<open>The flags of all sender and receiver handles ever made, and the channel.\<close>

type_synonym 's handles = "bool list \<times> bool list \<times> 's"

datatype ('k, 'v) hop =
    HSend nat 'k 'v
  | HSent nat "'v try_send_error + unit"       \<comment> \<open>a blocked send comes to its result\<close>
  | HTrySend nat 'v
  | HSenderConsume nat select_permit 'v
  | HSenderClose nat
  | HSenderClone nat
  | HRecv nat 'k
  | HReceived nat "try_recv_error + 'v"
  | HTryRecv nat
  | HReceiverConsume nat select_permit
  | HReceiverClose nat
  | HTerminate nat
  | HReceiverClone nat

definition on_sender :: "nat \<Rightarrow> (bool \<times> 's \<Rightarrow> (bool \<times> 's) option) \<Rightarrow> 's handles \<Rightarrow> 's handles option" where
  "on_sender i f hs = (case hs of (ss, rs, s) \<Rightarrow>
    if i < length ss then map_option (\<lambda>(h, s'). (ss[i := h], rs, s')) (f (ss ! i, s)) else None)"

definition on_receiver :: "nat \<Rightarrow> (bool \<times> 's \<Rightarrow> (bool \<times> 's) option) \<Rightarrow> 's handles \<Rightarrow> 's handles option" where
  "on_receiver i f hs = (case hs of (ss, rs, s) \<Rightarrow>
    if i < length rs then map_option (\<lambda>(h, s'). (ss, rs[i := h], s')) (f (rs ! i, s)) else None)"

definition when_attached :: "('s \<Rightarrow> ('r \<times> bool \<times> 's) option) \<Rightarrow> bool \<times> 's \<Rightarrow> (bool \<times> 's) option" where
  "when_attached f h = (if fst h then map_option snd (f (snd h)) else None)"

fun handle_step :: "('k, 'v, 's) channel_ops \<Rightarrow> ('k, 'v) hop \<Rightarrow> 's handles \<Rightarrow> 's handles option" where
  "handle_step ops (HSend i k v) hs = on_sender i (\<lambda>h. map_option snd (sender_send ops k v h)) hs"
| "handle_step ops (HSent i r) hs = on_sender i (when_attached (sender_sent ops r)) hs"
| "handle_step ops (HTrySend i v) hs = on_sender i (\<lambda>h. map_option snd (sender_try_send ops v h)) hs"
| "handle_step ops (HSenderConsume i p v) hs =
     on_sender i (\<lambda>h. map_option snd (sender_consume_permit ops p v h)) hs"
| "handle_step ops (HSenderClose i) hs = on_sender i (\<lambda>h. Some (sender_close ops h)) hs"
| "handle_step ops (HSenderClone i) (ss, rs, s) =
     (if i < length ss then (let (h, s') = sender_clone ops (ss ! i, s) in Some (ss @ [h], rs, s')) else None)"
| "handle_step ops (HRecv i k) hs = on_receiver i (\<lambda>h. map_option snd (receiver_recv ops k h)) hs"
| "handle_step ops (HReceived i r) hs = on_receiver i (when_attached (receiver_received ops r)) hs"
| "handle_step ops (HTryRecv i) hs = on_receiver i (\<lambda>h. map_option snd (receiver_try_recv ops h)) hs"
| "handle_step ops (HReceiverConsume i p) hs =
     on_receiver i (\<lambda>h. map_option snd (receiver_consume_permit ops p h)) hs"
| "handle_step ops (HReceiverClose i) hs = on_receiver i (\<lambda>h. Some (receiver_close ops h)) hs"
| "handle_step ops (HTerminate i) hs = on_receiver i (\<lambda>h. Some (receiver_terminate ops h)) hs"
| "handle_step ops (HReceiverClone i) (ss, rs, s) =
     (if i < length rs then (let (h, s') = receiver_clone ops (rs ! i, s) in Some (ss, rs @ [h], s')) else None)"

text \<open>A closed permit comes from a closed channel; everything else is unrestricted.\<close>

fun honest :: "('s \<Rightarrow> bool) \<Rightarrow> ('k, 'v) hop \<Rightarrow> 's handles \<Rightarrow> bool" where
  "honest shut (HSenderConsume i p v) (ss, rs, s) = (p = to_select Closed \<longrightarrow> shut s)"
| "honest shut (HReceiverConsume i p) (ss, rs, s) = (p = to_select Closed \<longrightarrow> shut s)"
| "honest shut _ hs = True"

fun handles_run :: "('k, 'v, 's) channel_ops \<Rightarrow> ('s \<Rightarrow> bool) \<Rightarrow> ('k, 'v) hop list \<Rightarrow> 's handles \<Rightarrow> 's handles option" where
  "handles_run ops shut [] hs = Some hs"
| "handles_run ops shut (x # xs) hs =
    (if honest shut x hs then (case handle_step ops x hs of None \<Rightarrow> None | Some hs' \<Rightarrow> handles_run ops shut xs hs')
     else None)"

fun closes :: "('k, 'v) hop \<Rightarrow> bool" where
  "closes (HReceiverClose i) = True"
| "closes _ = False"

section \<open>Counting attached handles\<close>

definition attached :: "bool list \<Rightarrow> nat" where
  "attached hs = length (filter id hs)"

lemma attached_update:
  assumes "i < length hs"
  shows "attached (hs[i := h]) + (if hs ! i then 1 else 0) = attached hs + (if h then 1 else 0)"
proof -
  have eq: "hs[i := h] = take i hs @ h # drop (Suc i) hs" "hs = take i hs @ hs ! i # drop (Suc i) hs"
    using assms by (simp_all add: upd_conv_take_nth_drop id_take_nth_drop)
  show ?thesis unfolding eq(1) attached_def by (subst (2) eq(2)) simp
qed

lemma attached_pos: "i < length hs \<Longrightarrow> hs ! i \<Longrightarrow> 0 < attached hs"
  using attached_update [of i hs False] by (simp split: if_splits)

lemma attached_snoc: "attached (hs @ [h]) = attached hs + (if h then 1 else 0)"
  by (simp add: attached_def)

lemma attached_none: "\<forall>h\<in>set hs. \<not> h \<Longrightarrow> attached hs = 0"
  by (auto simp: attached_def filter_empty_conv)

context channel begin

text \<open>
  Open channels count exactly their attached handles; closed ones may count handles that were
  detached by a closed permit, which does not touch the counters.
\<close>

definition side_ok :: "bool list \<Rightarrow> nat \<Rightarrow> bool \<Rightarrow> bool" where
  "side_ok hs n c \<longleftrightarrow> attached hs \<le> n \<and> (\<not> c \<longrightarrow> attached hs = n) \<and> (n = 0 \<longrightarrow> c)"

definition counts_ok :: "'s handles \<Rightarrow> bool" where
  "counts_ok hs \<longleftrightarrow> (case hs of (ss, rs, s) \<Rightarrow> side_ok ss (sends s) (shut s) \<and> side_ok rs (recvs s) (shut s))"

text \<open>What one operation through a sender handle may do to flag and channel.\<close>

definition sender_move :: "bool \<times> 's \<Rightarrow> bool \<times> 's \<Rightarrow> bool" where
  "sender_move h h' \<longleftrightarrow>
     fst h' = fst h \<and> sends (snd h') = sends (snd h) \<and> recvs (snd h') = recvs (snd h) \<and> shut (snd h') = shut (snd h) \<or>
     fst h \<and> \<not> fst h' \<and> (\<exists>s. snd h' = ch_remove_sender ops s \<and>
       sends s = sends (snd h) \<and> recvs s = recvs (snd h) \<and> shut s = shut (snd h)) \<or>
     \<not> fst h' \<and> snd h' = snd h \<and> shut (snd h)"

definition receiver_move :: "bool \<times> 's \<Rightarrow> bool \<times> 's \<Rightarrow> bool" where
  "receiver_move h h' \<longleftrightarrow>
     fst h' = fst h \<and> sends (snd h') = sends (snd h) \<and> recvs (snd h') = recvs (snd h) \<and> shut (snd h') = shut (snd h) \<or>
     fst h \<and> \<not> fst h' \<and> (\<exists>s. snd h' = ch_remove_receiver ops s \<and>
       sends s = sends (snd h) \<and> recvs s = recvs (snd h) \<and> shut s = shut (snd h)) \<or>
     \<not> fst h' \<and> snd h' = snd h \<and> shut (snd h)"

lemma sender_moves:
  assumes "sends s' = sends s \<and> recvs s' = recvs s \<and> shut s' = shut s"
  shows "sender_move (b, s) (b, s')" and "sender_move (True, s) (False, ch_remove_sender ops s')"
  unfolding sender_move_def using assms by auto

lemma receiver_moves:
  assumes "sends s' = sends s \<and> recvs s' = recvs s \<and> shut s' = shut s"
  shows "receiver_move (b, s) (b, s')" and "receiver_move (True, s) (False, ch_remove_receiver ops s')"
  unfolding receiver_move_def using assms by auto

lemma sender_closed_move: "shut s \<Longrightarrow> sender_move (b, s) (False, s)"
  and receiver_closed_move: "shut s \<Longrightarrow> receiver_move (b, s) (False, s)"
  unfolding sender_move_def receiver_move_def by auto

lemma sender_sent_cases:
  "sender_sent ops r s = Some (q, h') \<Longrightarrow> h' = (True, s) \<or> h' = (False, ch_remove_sender ops s)"
  by (induction ops r s rule: sender_sent.induct) simp_all

lemma receiver_received_cases:
  "receiver_received ops r s = Some (q, h') \<Longrightarrow> h' = (True, s) \<or> h' = (False, ch_remove_receiver ops s)"
  by (induction ops r s rule: receiver_received.induct) simp_all

lemma sender_sent_move: "sender_sent ops r s = Some (q, h') \<Longrightarrow> sender_move (True, s) h'"
  using sender_sent_cases [of r s q h'] sender_moves [of s s] by blast

lemma receiver_received_move: "receiver_received ops r s = Some (q, h') \<Longrightarrow> receiver_move (True, s) h'"
  using receiver_received_cases [of r s q h'] receiver_moves [of s s] by blast

lemma sender_send_cases:
  assumes "sender_send ops k v (b, s) = Some (r, h')"
  shows "h' = (b, s) \<or> b \<and> (\<exists>q s'. ch_send ops k v s = Some (q, s') \<and>
    (h' = (True, s') \<or> h' = (False, ch_remove_sender ops s')))"
  using assms
  by (auto simp: sender_send_def split: if_splits option.splits outcome.splits dest!: sender_sent_cases)

lemma sender_try_send_cases:
  assumes "sender_try_send ops v (b, s) = Some (r, h')"
  shows "h' = (b, s) \<or> b \<and> (\<exists>q s'. ch_send ops (ch_trying ops) v s = Some (q, s') \<and>
    (h' = (True, s') \<or> h' = (False, ch_remove_sender ops s')))"
  using assms
  by (auto simp: sender_try_send_def
      split: if_splits option.splits outcome.splits sum.splits try_send_error.splits)

lemma receiver_recv_cases:
  assumes "receiver_recv ops k (b, s) = Some (r, h')"
  shows "h' = (b, s) \<or> b \<and> (\<exists>q s'. ch_recv ops k s = Some (q, s') \<and>
    (h' = (True, s') \<or> h' = (False, ch_remove_receiver ops s')))"
  using assms
  by (auto simp: receiver_recv_def split: if_splits option.splits outcome.splits dest!: receiver_received_cases)

lemma receiver_try_recv_cases:
  assumes "receiver_try_recv ops (b, s) = Some (r, h')"
  shows "h' = (b, s) \<or> b \<and> (\<exists>q s'. ch_recv ops (ch_trying ops) s = Some (q, s') \<and>
    (h' = (True, s') \<or> h' = (False, ch_remove_receiver ops s')))"
  using assms
  by (auto simp: receiver_try_recv_def
      split: if_splits option.splits outcome.splits sum.splits try_recv_error.splits)

lemma of_select_Closed: "of_select p = Some Closed \<Longrightarrow> p = to_select Closed"
  by (cases p) (auto simp: of_select_def to_select_def with_primitive_def into_primitive_def
      split: if_splits nat.splits)

lemma sender_consume_cases:
  assumes "sender_consume_permit ops p v (b, s) = Some (r, h')"
  shows "h' = (b, s) \<or> p = to_select Closed \<and> h' = (False, s) \<or>
    b \<and> (\<exists>q s'. ch_consume_send ops v s = Some (q, s') \<and>
      (h' = (True, s') \<or> h' = (False, ch_remove_sender ops s')))"
  using assms
  by (auto simp: sender_consume_permit_def dest: of_select_Closed
      split: if_splits option.splits sum.splits permit.splits)

lemma receiver_consume_cases:
  assumes "receiver_consume_permit ops p (b, s) = Some (r, h')"
  shows "h' = (b, s) \<or> p = to_select Closed \<and> h' = (False, s) \<or>
    b \<and> (\<exists>q s'. ch_consume_recv ops s = Some (q, s') \<and>
      (h' = (True, s') \<or> h' = (False, ch_remove_receiver ops s')))"
  using assms
  by (auto simp: receiver_consume_permit_def dest: of_select_Closed
      split: if_splits option.splits permit.splits)

lemma sender_send_move: "sender_send ops k v (b, s) = Some (r, h') \<Longrightarrow> sender_move (b, s) h'"
  by (drule sender_send_cases) (auto dest!: send_frame intro: sender_moves)

lemma sender_try_send_move: "sender_try_send ops v (b, s) = Some (r, h') \<Longrightarrow> sender_move (b, s) h'"
  by (drule sender_try_send_cases) (auto dest!: send_frame intro: sender_moves)

lemma sender_consume_move:
  "sender_consume_permit ops p v (b, s) = Some (r, h') \<Longrightarrow> p = to_select Closed \<longrightarrow> shut s \<Longrightarrow> sender_move (b, s) h'"
  by (drule sender_consume_cases) (auto dest!: consume_send_frame intro: sender_moves sender_closed_move)

lemma receiver_recv_move: "receiver_recv ops k (b, s) = Some (r, h') \<Longrightarrow> receiver_move (b, s) h'"
  by (drule receiver_recv_cases) (auto dest!: recv_frame intro: receiver_moves)

lemma receiver_try_recv_move: "receiver_try_recv ops (b, s) = Some (r, h') \<Longrightarrow> receiver_move (b, s) h'"
  by (drule receiver_try_recv_cases) (auto dest!: recv_frame intro: receiver_moves)

lemma receiver_consume_move:
  "receiver_consume_permit ops p (b, s) = Some (r, h') \<Longrightarrow> p = to_select Closed \<longrightarrow> shut s \<Longrightarrow> receiver_move (b, s) h'"
  by (drule receiver_consume_cases) (auto dest!: consume_recv_frame intro: receiver_moves receiver_closed_move)

lemma side_ok_detach:
  assumes "side_ok hs (Suc n) c" and "i < length hs" and "hs ! i"
  shows "side_ok (hs[i := False]) n (c \<or> n = 0)"
  using assms attached_update [of i hs False] by (auto simp: side_ok_def)

lemma side_ok_shut: "side_ok hs n True \<Longrightarrow> i < length hs \<Longrightarrow> side_ok (hs[i := False]) n True"
  using attached_update [of i hs False] by (auto simp: side_ok_def split: if_splits)

lemma side_ok_more_shut: "side_ok hs n c \<Longrightarrow> c \<longrightarrow> c' \<Longrightarrow> side_ok hs n c'"
  by (auto simp: side_ok_def)

lemma sender_move_counts:
  assumes ok: "counts_ok (ss, rs, s)" and i: "i < length ss" and m: "sender_move (ss ! i, s) (h, s')"
  shows "counts_ok (ss[i := h], rs, s')"
proof -
  from ok have s: "side_ok ss (sends s) (shut s)" and r: "side_ok rs (recvs s) (shut s)"
    by (simp_all add: counts_ok_def)
  from m consider (same) "h = ss ! i" "sends s' = sends s" "recvs s' = recvs s" "shut s' = shut s"
    | (detach) s1 where "ss ! i" "\<not> h" "s' = ch_remove_sender ops s1" "sends s1 = sends s"
        "recvs s1 = recvs s" "shut s1 = shut s"
    | (closed) "\<not> h" "s' = s" "shut s"
    by (auto simp: sender_move_def)
  then show ?thesis
  proof cases
    case same
    then show ?thesis using s r by (simp add: counts_ok_def)
  next
    case detach
    have "0 < sends s" using attached_pos [OF i detach(1)] s by (simp add: side_ok_def)
    then obtain n where n: "sends s1 = Suc n" "sends s = Suc n" using detach(4) by (cases "sends s") auto
    show ?thesis using remove_sender [OF n(1)] side_ok_detach [OF _ i detach(1), of n "shut s"] s r n detach
        side_ok_more_shut [OF r, of "shut s \<or> n = 0"]
      by (simp add: counts_ok_def)
  next
    case closed
    then show ?thesis using s r side_ok_shut [OF _ i, of "sends s"] by (simp add: counts_ok_def)
  qed
qed

lemma receiver_move_counts:
  assumes ok: "counts_ok (ss, rs, s)" and i: "i < length rs" and m: "receiver_move (rs ! i, s) (h, s')"
  shows "counts_ok (ss, rs[i := h], s')"
proof -
  from ok have s: "side_ok ss (sends s) (shut s)" and r: "side_ok rs (recvs s) (shut s)"
    by (simp_all add: counts_ok_def)
  from m consider (same) "h = rs ! i" "sends s' = sends s" "recvs s' = recvs s" "shut s' = shut s"
    | (detach) s1 where "rs ! i" "\<not> h" "s' = ch_remove_receiver ops s1" "sends s1 = sends s"
        "recvs s1 = recvs s" "shut s1 = shut s"
    | (closed) "\<not> h" "s' = s" "shut s"
    by (auto simp: receiver_move_def)
  then show ?thesis
  proof cases
    case same
    then show ?thesis using s r by (simp add: counts_ok_def)
  next
    case detach
    have "0 < recvs s" using attached_pos [OF i detach(1)] r by (simp add: side_ok_def)
    then obtain n where n: "recvs s1 = Suc n" "recvs s = Suc n" using detach(5) by (cases "recvs s") auto
    show ?thesis using remove_receiver [OF n(1)] side_ok_detach [OF _ i detach(1), of n "shut s"] s r n detach
        side_ok_more_shut [OF s, of "shut s \<or> n = 0"]
      by (simp add: counts_ok_def)
  next
    case closed
    then show ?thesis using s r side_ok_shut [OF _ i, of "recvs s"] by (simp add: counts_ok_def)
  qed
qed

lemma on_sender_counts:
  assumes ok: "counts_ok (ss, rs, s)" and st: "on_sender i f (ss, rs, s) = Some hs'"
    and f: "\<And>h'. f (ss ! i, s) = Some h' \<Longrightarrow> sender_move (ss ! i, s) h'"
  shows "counts_ok hs'"
proof -
  from st obtain h s' where "i < length ss" "f (ss ! i, s) = Some (h, s')" "hs' = (ss[i := h], rs, s')"
    by (auto simp: on_sender_def split: if_splits)
  with f show ?thesis using sender_move_counts [OF ok] by blast
qed

lemma on_receiver_counts:
  assumes ok: "counts_ok (ss, rs, s)" and st: "on_receiver i f (ss, rs, s) = Some hs'"
    and f: "\<And>h'. f (rs ! i, s) = Some h' \<Longrightarrow> receiver_move (rs ! i, s) h'"
  shows "counts_ok hs'"
proof -
  from st obtain h s' where "i < length rs" "f (rs ! i, s) = Some (h, s')" "hs' = (ss, rs[i := h], s')"
    by (auto simp: on_receiver_def split: if_splits)
  with f show ?thesis using receiver_move_counts [OF ok] by blast
qed

lemma sender_close_move: "sender_move h (sender_close ops h)"
  by (cases h) (auto simp: sender_move_def sender_close_def)

lemma terminate_move: "receiver_move h (receiver_terminate ops h)"
  by (cases h) (auto simp: receiver_move_def receiver_terminate_def)

lemmas shut_after_close = close

text \<open>Every step is a move of one sender or of one receiver, a clone or an explicit close.\<close>

lemma handle_step_cases:
  assumes h: "honest shut x (ss, rs, s)" and st: "handle_step ops x (ss, rs, s) = Some hs'"
  obtains (sender) i f where "on_sender i f (ss, rs, s) = Some hs'"
      "\<And>h'. f (ss ! i, s) = Some h' \<Longrightarrow> sender_move (ss ! i, s) h'"
  | (receiver) i f where "on_receiver i f (ss, rs, s) = Some hs'"
      "\<And>h'. f (rs ! i, s) = Some h' \<Longrightarrow> receiver_move (rs ! i, s) h'"
  | (sender_clone) i where "i < length ss"
      "hs' = (ss @ [ss ! i], rs, if ss ! i then ch_add_sender ops s else s)"
  | (receiver_clone) i where "i < length rs"
      "hs' = (ss, rs @ [rs ! i], if rs ! i then ch_add_receiver ops s else s)"
  | (close) i where "closes x" "i < length rs" "hs' = (ss, rs, if rs ! i then ch_close ops s else s)"
proof (cases x)
  case (HSenderClone i)
  then show thesis using st sender_clone by (auto simp: sender_clone_def Let_def split: if_splits)
next
  case (HReceiverClone i)
  then show thesis using st receiver_clone by (auto simp: receiver_clone_def Let_def split: if_splits)
next
  case (HReceiverClose i)
  then show thesis using st close by (auto simp: receiver_close_def on_receiver_def split: if_splits)
next
  case (HSend i k v)
  then show thesis using st sender [of i "\<lambda>h. map_option snd (sender_send ops k v h)"]
    by (auto dest: sender_send_move)
next
  case (HSent i r)
  have m: "sender_move (ss ! i, s) h'" if "when_attached (sender_sent ops r) (ss ! i, s) = Some h'" for h'
    using that by (cases "ss ! i") (auto simp: when_attached_def dest: sender_sent_move)
  from HSent st sender [OF _ m] show thesis by simp
next
  case (HTrySend i v)
  then show thesis using st sender [of i "\<lambda>h. map_option snd (sender_try_send ops v h)"]
    by (auto dest: sender_try_send_move)
next
  case (HSenderConsume i p v)
  then show thesis using st h sender [of i "\<lambda>h. map_option snd (sender_consume_permit ops p v h)"]
    by (auto dest: sender_consume_move)
next
  case (HSenderClose i)
  then show thesis using st sender [of i "\<lambda>h. Some (sender_close ops h)"] sender_close_move
    by (metis handle_step.simps(5) option.inject)
next
  case (HRecv i k)
  then show thesis using st receiver [of i "\<lambda>h. map_option snd (receiver_recv ops k h)"]
    by (auto dest: receiver_recv_move)
next
  case (HReceived i r)
  have m: "receiver_move (rs ! i, s) h'" if "when_attached (receiver_received ops r) (rs ! i, s) = Some h'" for h'
    using that by (cases "rs ! i") (auto simp: when_attached_def dest: receiver_received_move)
  from HReceived st receiver [OF _ m] show thesis by simp
next
  case (HTryRecv i)
  then show thesis using st receiver [of i "\<lambda>h. map_option snd (receiver_try_recv ops h)"]
    by (auto dest: receiver_try_recv_move)
next
  case (HReceiverConsume i p)
  then show thesis using st h receiver [of i "\<lambda>h. map_option snd (receiver_consume_permit ops p h)"]
    by (auto dest: receiver_consume_move)
next
  case (HTerminate i)
  then show thesis using st receiver [of i "\<lambda>h. Some (receiver_terminate ops h)"] terminate_move
    by (metis handle_step.simps(12) option.inject)
qed

lemma handle_step_counts:
  assumes ok: "counts_ok hs" and h: "honest shut x hs" and st: "handle_step ops x hs = Some hs'"
  shows "counts_ok hs'"
proof -
  obtain ss rs s where hs: "hs = (ss, rs, s)" by (cases hs)
  show ?thesis using h st unfolding hs
  proof (cases rule: handle_step_cases)
    case (sender i f)
    then show ?thesis using on_sender_counts ok hs by blast
  next
    case (receiver i f)
    then show ?thesis using on_receiver_counts ok hs by blast
  next
    case (sender_clone i)
    then show ?thesis using ok add_sender [of s]
      by (auto simp: hs counts_ok_def side_ok_def attached_snoc dest: attached_pos)
  next
    case (receiver_clone i)
    then show ?thesis using ok add_receiver [of s]
      by (auto simp: hs counts_ok_def side_ok_def attached_snoc dest: attached_pos)
  next
    case (close i)
    then show ?thesis using ok shut_after_close [of s] by (auto simp: hs counts_ok_def side_ok_def)
  qed
qed

lemma run_counts: "counts_ok hs \<Longrightarrow> handles_run ops shut xs hs = Some hs' \<Longrightarrow> counts_ok hs'"
proof (induction xs arbitrary: hs)
  case (Cons x xs)
  from Cons.prems(2) obtain h1 where h: "honest shut x hs" "handle_step ops x hs = Some h1"
      and run: "handles_run ops shut xs h1 = Some hs'"
    by (auto simp del: split_paired_Ex split: if_splits option.splits)
  show ?case by (rule Cons.IH [OF handle_step_counts [OF Cons.prems(1) h] run])
qed simp

text \<open>A channel none of whose sending, or none of whose receiving handles is attached is shut.\<close>

lemma detached_shut:
  assumes "counts_ok (ss, rs, s)" and "attached ss = 0 \<or> attached rs = 0"
  shows "shut s"
  using assms by (auto simp: counts_ok_def side_ok_def)

text \<open>Without an explicit close a channel is shut only after all handles of one side have gone.\<close>

definition shut_by_count :: "'s handles \<Rightarrow> bool" where
  "shut_by_count hs \<longleftrightarrow> (case hs of (ss, rs, s) \<Rightarrow> shut s \<longrightarrow> sends s = 0 \<or> recvs s = 0)"

lemma sender_move_shut:
  assumes ok: "counts_ok (ss, rs, s)" and i: "i < length ss" and m: "sender_move (ss ! i, s) (h, s')"
    and c: "shut s \<longrightarrow> sends s = 0 \<or> recvs s = 0"
  shows "shut s' \<longrightarrow> sends s' = 0 \<or> recvs s' = 0"
proof -
  from ok have l: "attached ss \<le> sends s" by (simp add: counts_ok_def side_ok_def)
  from m consider (same) "sends s' = sends s" "recvs s' = recvs s" "shut s' = shut s"
    | (detach) s1 where "ss ! i" "s' = ch_remove_sender ops s1" "sends s1 = sends s"
        "recvs s1 = recvs s" "shut s1 = shut s"
    | (closed) "s' = s"
    by (auto simp: sender_move_def)
  then show ?thesis
  proof cases
    case detach
    have "0 < sends s" using attached_pos [OF i detach(1)] l by simp
    then obtain n where "sends s1 = Suc n" "sends s = Suc n" using detach(3) by (cases "sends s") auto
    with remove_sender [of s1 n] detach c show ?thesis by auto
  qed (use c in simp_all)
qed

lemma receiver_move_shut:
  assumes ok: "counts_ok (ss, rs, s)" and i: "i < length rs" and m: "receiver_move (rs ! i, s) (h, s')"
    and c: "shut s \<longrightarrow> sends s = 0 \<or> recvs s = 0"
  shows "shut s' \<longrightarrow> sends s' = 0 \<or> recvs s' = 0"
proof -
  from ok have l: "attached rs \<le> recvs s" by (simp add: counts_ok_def side_ok_def)
  from m consider (same) "sends s' = sends s" "recvs s' = recvs s" "shut s' = shut s"
    | (detach) s1 where "rs ! i" "s' = ch_remove_receiver ops s1" "sends s1 = sends s"
        "recvs s1 = recvs s" "shut s1 = shut s"
    | (closed) "s' = s"
    by (auto simp: receiver_move_def)
  then show ?thesis
  proof cases
    case detach
    have "0 < recvs s" using attached_pos [OF i detach(1)] l by simp
    then obtain n where "recvs s1 = Suc n" "recvs s = Suc n" using detach(4) by (cases "recvs s") auto
    with remove_receiver [of s1 n] detach c show ?thesis by auto
  qed (use c in simp_all)
qed

lemma on_sender_shut:
  assumes ok: "counts_ok (ss, rs, s)" and c: "shut_by_count (ss, rs, s)"
    and st: "on_sender i f (ss, rs, s) = Some hs'"
    and f: "\<And>h'. f (ss ! i, s) = Some h' \<Longrightarrow> sender_move (ss ! i, s) h'"
  shows "shut_by_count hs'"
proof -
  from st obtain h s' where "i < length ss" "f (ss ! i, s) = Some (h, s')" "hs' = (ss[i := h], rs, s')"
    by (auto simp: on_sender_def split: if_splits)
  with f c show ?thesis using sender_move_shut [OF ok, of i h s'] by (simp add: shut_by_count_def)
qed

lemma on_receiver_shut:
  assumes ok: "counts_ok (ss, rs, s)" and c: "shut_by_count (ss, rs, s)"
    and st: "on_receiver i f (ss, rs, s) = Some hs'"
    and f: "\<And>h'. f (rs ! i, s) = Some h' \<Longrightarrow> receiver_move (rs ! i, s) h'"
  shows "shut_by_count hs'"
proof -
  from st obtain h s' where "i < length rs" "f (rs ! i, s) = Some (h, s')" "hs' = (ss, rs[i := h], s')"
    by (auto simp: on_receiver_def split: if_splits)
  with f c show ?thesis using receiver_move_shut [OF ok, of i h s'] by (simp add: shut_by_count_def)
qed

lemma handle_step_shut:
  assumes ok: "counts_ok hs" and c: "shut_by_count hs" and h: "honest shut x hs"
    and st: "handle_step ops x hs = Some hs'" and x: "\<not> closes x"
  shows "shut_by_count hs'"
proof -
  obtain ss rs s where hs: "hs = (ss, rs, s)" by (cases hs)
  show ?thesis using h st unfolding hs
  proof (cases rule: handle_step_cases)
    case (sender i f)
    then show ?thesis using on_sender_shut ok c hs by blast
  next
    case (receiver i f)
    then show ?thesis using on_receiver_shut ok c hs by blast
  next
    case (sender_clone i)
    then show ?thesis using ok c add_sender [of s]
      by (auto simp: hs shut_by_count_def counts_ok_def side_ok_def dest: attached_pos)
  next
    case (receiver_clone i)
    then show ?thesis using ok c add_receiver [of s]
      by (auto simp: hs shut_by_count_def counts_ok_def side_ok_def dest: attached_pos)
  next
    case (close i)
    then show ?thesis using x by simp
  qed
qed

lemma run_shut:
  "counts_ok hs \<Longrightarrow> shut_by_count hs \<Longrightarrow> handles_run ops shut xs hs = Some hs' \<Longrightarrow>
    \<forall>x\<in>set xs. \<not> closes x \<Longrightarrow> shut_by_count hs'"
proof (induction xs arbitrary: hs)
  case (Cons x xs)
  from Cons.prems(3) obtain h1 where h: "honest shut x hs" "handle_step ops x hs = Some h1"
      and run: "handles_run ops shut xs h1 = Some hs'"
    by (auto simp del: split_paired_Ex split: if_splits option.splits)
  have x: "\<not> closes x" and xs: "\<forall>x\<in>set xs. \<not> closes x" using Cons.prems(4) by simp_all
  show ?case
    by (rule Cons.IH [OF handle_step_counts [OF Cons.prems(1) h]
          handle_step_shut [OF Cons.prems(1,2) h x] run xs])
qed simp

text \<open>The two directions together, from one handle on each side of an open channel.\<close>

theorem shut_iff_side_gone:
  assumes new: "sends s = 1" "recvs s = 1" "\<not> shut s"
    and run: "handles_run ops shut xs ([True], [True], s) = Some (ss, rs, s')"
  shows "(attached ss = 0 \<or> attached rs = 0 \<longrightarrow> shut s') \<and>
    ((\<forall>x\<in>set xs. \<not> closes x) \<longrightarrow> shut s' \<longrightarrow> attached ss = 0 \<or> attached rs = 0)"
proof -
  have ok: "counts_ok ([True], [True], s)" and c: "shut_by_count ([True], [True], s)"
    using new by (simp_all add: counts_ok_def side_ok_def attached_def shut_by_count_def)
  have ok': "counts_ok (ss, rs, s')" by (rule run_counts [OF ok run])
  moreover have "shut_by_count (ss, rs, s')" if "\<forall>x\<in>set xs. \<not> closes x"
    by (rule run_shut [OF ok c run that])
  moreover have "attached ss \<le> sends s' \<and> attached rs \<le> recvs s'"
    using ok' by (simp add: counts_ok_def side_ok_def)
  ultimately show ?thesis using detached_shut [OF ok'] unfolding shut_by_count_def by fastforce
qed

text \<open>A handle panics only where its channel does; what a handle takes for a closed channel is one.\<close>

theorem blocking_send_unreachable:
  assumes "sender_send ops k v (b, s) = None" and "k \<noteq> ch_trying ops"
  shows "ch_send ops k v s = None"
proof (rule ccontr)
  assume "ch_send ops k v s \<noteq> None"
  then obtain q s' where q: "ch_send ops k v s = Some (q, s')" by auto
  show False
  proof (cases q)
    case (Return r)
    have "r \<noteq> Inl (Full u)" for u using send_full q Return assms(2) by blast
    then have "sender_sent ops r s' \<noteq> None"
      by (cases "(ops, r, s')" rule: sender_sent.cases) auto
    then show False using assms(1) q Return by (auto simp: sender_send_def split: if_splits)
  next
    case Waits
    then show False using assms(1) q by (simp add: sender_send_def split: if_splits)
  qed
qed

theorem blocking_recv_unreachable:
  assumes "receiver_recv ops k (b, s) = None" and "k \<noteq> ch_trying ops"
  shows "ch_recv ops k s = None"
proof (rule ccontr)
  assume "ch_recv ops k s \<noteq> None"
  then obtain q s' where q: "ch_recv ops k s = Some (q, s')" by auto
  show False
  proof (cases q)
    case (Return r)
    have "r \<noteq> Inl RecvEmpty" using recv_empty q Return assms(2) by blast
    then have "receiver_received ops r s' \<noteq> None"
      by (cases "(ops, r, s')" rule: receiver_received.cases) auto
    then show False using assms(1) q Return by (auto simp: receiver_recv_def split: if_splits)
  next
    case Waits
    then show False using assms(1) q by (simp add: receiver_recv_def split: if_splits)
  qed
qed

theorem send_closed_is_shut:
  assumes "sender_send ops k v (True, s) = Some (Return (Inl e), h')"
  shows "e = SendClosed v \<and> \<not> fst h' \<and> shut s"
proof -
  from assms obtain r s1 where r: "ch_send ops k v s = Some (Return r, s1)"
      "sender_sent ops r s1 = Some (Inl e, h')"
    by (auto simp: sender_send_def split: option.splits outcome.splits)
  from r(2) obtain u where "r = Inl (TryClosed u)" "e = SendClosed u" "h' = (False, ch_remove_sender ops s1)"
    by (cases "(ops, r, s1)" rule: sender_sent.cases) auto
  then show ?thesis using send_closed [of k v s u s1] r(1) by simp
qed

end

end
