(* ===== verification/Channels.thy ===== *)
theory Channels
  imports Handles Parallel_Proofs Serial
begin

text \<open>
  The two implementations of the trait \<open>Channel\<close>, \<open>Arc<parallel::Channel>\<close> and
  \<open>Rc<serial::Channel>\<close>, as records of operations, and the contract of the handles interpreted on
  both of them.
\<close>

section \<open>The implementations\<close>

definition on_chan :: "('a state \<Rightarrow> ('r \<times> 'a state) option) \<Rightarrow> 'a channel \<Rightarrow> ('r \<times> 'a channel) option" where
  "on_chan f c = map_option (\<lambda>(r, s). (r, c\<lparr>chan_state := s\<rparr>)) (f (chan_state c))"

definition parallel_ops :: "bool \<Rightarrow> (caller, 'v, 'v channel) channel_ops" where
  "parallel_ops chk = \<lparr>
    ch_trying = Trying,
    ch_send = (\<lambda>k v. on_chan (send k v)),
    ch_recv = (\<lambda>k. on_chan (recv chk k)),
    ch_add_sender = add_sender,
    ch_remove_sender = remove_sender,
    ch_add_receiver = add_receiver,
    ch_remove_receiver = remove_receiver,
    ch_select_send = (\<lambda>c. let (p, s) = select_send_permit (chan_state c) in (p, c\<lparr>chan_state := s\<rparr>)),
    ch_select_recv = (\<lambda>c. let (p, s) = select_recv_permit (chan_state c) in (p, c\<lparr>chan_state := s\<rparr>)),
    ch_consume_send = (\<lambda>v. on_chan (consume_send_permit v)),
    ch_consume_recv = on_chan consume_recv_permit,
    ch_watch_send = (\<lambda>sel. on_chan (watch_send_permit sel)),
    ch_watch_recv = (\<lambda>sel. on_chan (watch_recv_permit sel)),
    ch_unwatch_send = (\<lambda>i. on_state (unwatch_send_permit i)),
    ch_unwatch_recv = (\<lambda>i. on_state (unwatch_recv_permit i)),
    ch_close = channel_close\<rparr>"

definition on_schan :: "('a sstate \<Rightarrow> ('r \<times> 'a sstate) option) \<Rightarrow> 'a schannel \<Rightarrow> ('r \<times> 'a schannel) option" where
  "on_schan f c = map_option (\<lambda>(r, s). (r, c\<lparr>schan_state := s\<rparr>)) (f (schan_state c))"

definition serial_ops :: "(nat option, 'v, 'v schannel) channel_ops" where
  "serial_ops = \<lparr>
    ch_trying = None,
    ch_send = (\<lambda>k v. on_schan (\<lambda>s. Some (ssend k v s))),
    ch_recv = (\<lambda>k. on_schan (\<lambda>s. Some (srecv k s))),
    ch_add_sender = sadd_sender,
    ch_remove_sender = sremove_sender,
    ch_add_receiver = sadd_receiver,
    ch_remove_receiver = sremove_receiver,
    ch_select_send = (\<lambda>c. (sselect_send_permit (schan_state c), c)),
    ch_select_recv = (\<lambda>c. (sselect_recv_permit (schan_state c), c)),
    ch_consume_send = (\<lambda>v. on_schan (sconsume_send_permit v)),
    ch_consume_recv = on_schan sconsume_recv_permit,
    ch_watch_send = (\<lambda>sel. on_schan (swatch_send_permit sel)),
    ch_watch_recv = (\<lambda>sel. on_schan (swatch_recv_permit sel)),
    ch_unwatch_send = (\<lambda>i c. c\<lparr>schan_state := sunwatch_send_permit i (schan_state c)\<rparr>),
    ch_unwatch_recv = (\<lambda>i c. c\<lparr>schan_state := sunwatch_recv_permit i (schan_state c)\<rparr>),
    ch_close = (\<lambda>c. c\<lparr>schan_state := sclose (schan_state c)\<rparr>)\<rparr>"

section \<open>What their operations leave alone\<close>

lemma closed_deliver [simp]: "closed (deliver x s) = closed s"
  by (cases x) simp_all

lemma closed_hand [simp]: "closed (hand x s) = closed s"
  by (cases x) simp_all

lemma closed_wake_sender [simp]: "closed (wake_sender s) = closed s"
  by (cases rule: wake_sender_cases [of s]) simp_all

lemma closed_wake_receivers: "wake_receivers ws s = Some s' \<Longrightarrow> closed s' = closed s"
  by (induction ws s rule: wake_receivers.induct) (auto split: prod.splits bool.splits list.splits)

lemma closed_wake_receiver: "wake_receiver s = Some s' \<Longrightarrow> closed s' = closed s"
  using closed_wake_receivers by (auto simp: wake_receiver_def)

lemma closed_close_receivers [simp]: "closed (close_receivers s) = closed s"
  by (simp add: close_receivers_def)

lemma closed_close_senders [simp]: "closed (close_senders s) = closed s"
  by (simp add: close_senders_def)

lemma closed_state_close [simp]: "closed (state_close s)"
  by (simp add: state_close_def Let_def)

lemma closed_send: "send k v s = Some (r, s') \<Longrightarrow> closed s' = closed s"
  by (auto simp: send_def dest: closed_wake_receiver split: if_splits caller.splits)

lemma closed_recv: "recv chk k s = Some (r, s') \<Longrightarrow> closed s' = closed s"
  by (auto simp: recv_def Let_def split: if_splits caller.splits)

lemma closed_consume_send: "consume_send_permit v s = Some (r, s') \<Longrightarrow> closed s' = closed s"
  by (auto simp: consume_send_permit_def Let_def dest: closed_wake_receiver split: if_splits option.splits)

lemma closed_consume_recv: "consume_recv_permit s = Some (r, s') \<Longrightarrow> closed s' = closed s"
  by (auto simp: consume_recv_permit_def Let_def split: if_splits option.splits list.splits)

lemma sclosed_wake [simp]: "sclosed (swake_sender s) = sclosed s" "sclosed (swake_receiver s) = sclosed s"
  by (simp_all add: swake_sender_def swake_receiver_def split_def Let_def)

lemma sclosed_ssend: "ssend k v s = (r, s') \<Longrightarrow> sclosed s' = sclosed s"
  by (auto simp: ssend_def split: if_splits option.splits prod.splits)

lemma sclosed_srecv: "srecv k s = (r, s') \<Longrightarrow> sclosed s' = sclosed s"
  by (auto simp: srecv_def split: if_splits option.splits list.splits)

lemma sclosed_consume_send: "sconsume_send_permit v s = Some (r, s') \<Longrightarrow> sclosed s' = sclosed s"
  using sclosed_ssend [of None v s]
  by (auto simp: sconsume_send_permit_def split: prod.splits outcome.splits sum.splits try_send_error.splits)

lemma sclosed_consume_recv: "sconsume_recv_permit s = Some (r, s') \<Longrightarrow> sclosed s' = sclosed s"
  using sclosed_srecv [of None s]
  by (auto simp: sconsume_recv_permit_def split: prod.splits outcome.splits sum.splits try_recv_error.splits)

section \<open>The contract\<close>

interpretation par: channel "parallel_ops chk" sender_count receiver_count "\<lambda>c. closed (chan_state c)"
proof (unfold_locales, goal_cases)
  case (1 k v s r s')
  then show ?case by (auto simp: parallel_ops_def on_chan_def dest: closed_send)
next
  case (2 k s q s')
  then show ?case by (auto simp: parallel_ops_def on_chan_def dest: closed_recv)
next
  case (3 v s r' s')
  then show ?case by (auto simp: parallel_ops_def on_chan_def dest: closed_consume_send)
next
  case (4 s q' s')
  then show ?case by (auto simp: parallel_ops_def on_chan_def dest: closed_consume_recv)
next
  case (5 s)
  then show ?case by (simp add: parallel_ops_def add_sender_def)
next
  case (6 s)
  then show ?case by (simp add: parallel_ops_def add_receiver_def)
next
  case (7 s n)
  then show ?case by (auto simp: parallel_ops_def remove_sender_def on_state_def Let_def)
next
  case (8 s n)
  then show ?case by (auto simp: parallel_ops_def remove_receiver_def on_state_def Let_def)
next
  case (9 s)
  then show ?case by (simp add: parallel_ops_def channel_close_def on_state_def)
next
  case (10 k v s u s')
  then show ?case
    by (auto simp: parallel_ops_def on_chan_def send_def split: if_splits caller.splits)
next
  case (11 k v s u s')
  then show ?case
    by (auto simp: parallel_ops_def on_chan_def send_def split: if_splits caller.splits)
next
  case (12 k s s')
  then show ?case
    by (auto simp: parallel_ops_def on_chan_def recv_def Let_def split: if_splits caller.splits list.splits)
next
  case (13 k s s')
  then show ?case
    by (auto simp: parallel_ops_def on_chan_def recv_def is_empty_def Let_def
        split: if_splits caller.splits list.splits)
next
  case (14 v s s')
  then show ?case by (auto simp: parallel_ops_def on_chan_def send_def split: if_splits)
next
  case (15 s s')
  then show ?case by (auto simp: parallel_ops_def on_chan_def recv_def Let_def split: if_splits)
next
  case (16 s s')
  then show ?case by (auto simp: parallel_ops_def select_send_permit_def split: if_splits)
next
  case (17 s s')
  then show ?case by (auto simp: parallel_ops_def select_recv_permit_def split: if_splits)
qed

interpretation ser: channel serial_ops ssender_count sreceiver_count "\<lambda>c. sclosed (schan_state c)"
proof (unfold_locales, goal_cases)
  case (1 k v s r s')
  then show ?case by (auto simp: serial_ops_def on_schan_def dest: sclosed_ssend split: prod.splits)
next
  case (2 k s q s')
  then show ?case by (auto simp: serial_ops_def on_schan_def dest: sclosed_srecv split: prod.splits)
next
  case (3 v s r' s')
  then show ?case by (auto simp: serial_ops_def on_schan_def dest: sclosed_consume_send)
next
  case (4 s q' s')
  then show ?case by (auto simp: serial_ops_def on_schan_def dest: sclosed_consume_recv)
next
  case (5 s)
  then show ?case by (simp add: serial_ops_def sadd_sender_def)
next
  case (6 s)
  then show ?case by (simp add: serial_ops_def sadd_receiver_def)
next
  case (7 s n)
  then show ?case by (auto simp: serial_ops_def sremove_sender_def sclose_def Let_def)
next
  case (8 s n)
  then show ?case by (auto simp: serial_ops_def sremove_receiver_def sclose_def Let_def)
next
  case (9 s)
  then show ?case by (simp add: serial_ops_def sclose_def)
next
  case (10 k v s u s')
  then show ?case by (auto simp: serial_ops_def on_schan_def ssend_def split: if_splits option.splits prod.splits)
next
  case (11 k v s u s')
  then show ?case by (auto simp: serial_ops_def on_schan_def ssend_def split: if_splits option.splits prod.splits)
next
  case (12 k s s')
  then show ?case
    by (auto simp: serial_ops_def on_schan_def srecv_def split: if_splits option.splits list.splits)
next
  case (13 k s s')
  then show ?case
    by (auto simp: serial_ops_def on_schan_def srecv_def split: if_splits option.splits list.splits)
next
  case (14 v s s')
  then show ?case by (auto simp: serial_ops_def on_schan_def ssend_def split: if_splits prod.splits)
next
  case (15 s s')
  then show ?case by (auto simp: serial_ops_def on_schan_def srecv_def split: if_splits list.splits)
next
  case (16 s s')
  then show ?case by (auto simp: serial_ops_def sselect_send_permit_def split: if_splits)
next
  case (17 s s')
  then show ?case by (auto simp: serial_ops_def sselect_recv_permit_def split: if_splits)
qed

section \<open>Properties\<close>

text \<open>
  C23. A parallel channel with any number of cloned, closed, terminated and detached handles is closed
  once all its senders or all its receivers are gone, and without a call of \<open>Receiver::close\<close> only
  then.
\<close>

theorem parallel_closes_with_handles:
  assumes "handles_run (parallel_ops chk) (\<lambda>c. closed (chan_state c)) xs ([True], [True], channel_new b)
    = Some (ss, rs, c)"
  shows "(attached ss = 0 \<or> attached rs = 0 \<longrightarrow> closed (chan_state c)) \<and>
    ((\<forall>x\<in>set xs. \<not> closes x) \<longrightarrow> closed (chan_state c) \<longrightarrow> attached ss = 0 \<or> attached rs = 0)"
  by (rule par.shut_iff_side_gone [OF _ _ _ assms]) (simp_all add: channel_new_def state_new_def)

text \<open>
  The same for the serial channel.
\<close>

theorem serial_closes_with_handles:
  assumes "handles_run serial_ops (\<lambda>c. sclosed (schan_state c)) xs ([True], [True], schannel_new b)
    = Some (ss, rs, c)"
  shows "(attached ss = 0 \<or> attached rs = 0 \<longrightarrow> sclosed (schan_state c)) \<and>
    ((\<forall>x\<in>set xs. \<not> closes x) \<longrightarrow> sclosed (schan_state c) \<longrightarrow> attached ss = 0 \<or> attached rs = 0)"
  by (rule ser.shut_iff_side_gone [OF _ _ _ assms]) (simp_all add: schannel_new_def sstate_new_def)

text \<open>Two senders, a receiver; both senders go, the second by dropping out after a clone.\<close>

lemma parallel_closes_with_handles_witness:
  "\<exists>ss rs c. handles_run (parallel_ops True) (\<lambda>c. closed (chan_state c))
      [HSenderClone 0, HSend 1 Trying (7 :: nat), HSenderClose 0, HTryRecv 0, HSenderClose 1]
      ([True], [True], channel_new 1) = Some (ss, rs, c) \<and> closed (chan_state c) \<and> attached rs = 1"
proof -
  let ?xs = "[HSenderClone 0, HSend 1 Trying (7 :: nat), HSenderClose 0, HTryRecv 0, HSenderClose 1]"
  have "map_option (\<lambda>(ss, rs, c). (ss, rs)) (handles_run (parallel_ops True) (\<lambda>c. closed (chan_state c)) ?xs
      ([True], [True], channel_new 1)) = Some ([False, False], [True])"
    by (simp add: on_sender_def on_receiver_def sender_clone_def sender_send_def sender_close_def
        receiver_try_recv_def parallel_ops_def on_chan_def channel_new_def state_new_def send_def recv_def
        is_full_def is_empty_def recvable_len_def wake_receiver_def wake_sender_def add_sender_def
        remove_sender_def Let_def)
  then obtain c where run: "handles_run (parallel_ops True) (\<lambda>c. closed (chan_state c)) ?xs
      ([True], [True], channel_new 1) = Some ([False, False], [True], c)"
    by auto
  have "closed (chan_state c)"
    using parallel_closes_with_handles [OF run] by (simp add: attached_def)
  then show ?thesis unfolding run by (simp add: attached_def)
qed

lemma serial_closes_with_handles_witness:
  "\<exists>ss rs c. handles_run serial_ops (\<lambda>c. sclosed (schan_state c))
      [HReceiverClone 0, HSend 0 None (7 :: nat), HTerminate 0, HTryRecv 1, HTerminate 1]
      ([True], [True], schannel_new 1) = Some (ss, rs, c) \<and> sclosed (schan_state c) \<and> attached ss = 1"
proof -
  let ?xs = "[HReceiverClone 0, HSend 0 None (7 :: nat), HTerminate 0, HTryRecv 1, HTerminate 1]"
  have "map_option (\<lambda>(ss, rs, c). (ss, rs)) (handles_run serial_ops (\<lambda>c. sclosed (schan_state c)) ?xs
      ([True], [True], schannel_new 1)) = Some ([True], [False, False])"
    by (simp add: on_sender_def on_receiver_def receiver_clone_def sender_send_def receiver_terminate_def
        receiver_try_recv_def serial_ops_def on_schan_def schannel_new_def sstate_new_def ssend_def srecv_def
        sfull_def swake_receiver_def swake_sender_def sadd_receiver_def sremove_receiver_def Let_def)
  then obtain c where run: "handles_run serial_ops (\<lambda>c. sclosed (schan_state c)) ?xs
      ([True], [True], schannel_new 1) = Some ([True], [False, False], c)"
    by auto
  have "sclosed (schan_state c)"
    using serial_closes_with_handles [OF run] by (simp add: attached_def)
  then show ?thesis unfolding run by (simp add: attached_def)
qed

text \<open>
  A blocking \<open>Sender::send\<close> on a parallel channel that returns \<open>Err(Closed)\<close> gives back the value
  it was called with, its handle is detached (\<open>is_closed\<close>), and the channel really was closed.
\<close>

theorem send_error_means_closed:
  assumes "sender_send (parallel_ops chk) k v (True, c) = Some (Return (Inl e), h)"
  shows "e = SendClosed v \<and> sender_is_closed h \<and> closed (chan_state c)"
  using par.send_closed_is_shut [OF assms] by (simp add: sender_is_closed_def)

lemma send_error_means_closed_witness:
  "\<exists>h. sender_send (parallel_ops True) (InTask 0) (7 :: nat) (True, channel_close (channel_new 1))
      = Some (Return (Inl (SendClosed 7)), h) \<and> sender_is_closed h"
proof -
  let ?c = "channel_close (channel_new 1)"
  have "map_option fst (sender_send (parallel_ops True) (InTask 0) (7 :: nat) (True, ?c))
      = Some (Return (Inl (SendClosed 7)))"
    unfolding map_option_eq_Some
    by (rule exI [of _ "(Return (Inl (SendClosed 7)), False, remove_sender ?c)"])
      (simp add: sender_send_def parallel_ops_def on_chan_def send_def channel_close_def on_state_def)
  then obtain h where r: "sender_send (parallel_ops True) (InTask 0) (7 :: nat) (True, ?c)
      = Some (Return (Inl (SendClosed 7)), h)" unfolding map_option_eq_Some by (metis prod.collapse)
  show ?thesis using r send_error_means_closed [OF r] by blast
qed

text \<open>
  The \<open>unreachable!\<close> arms of \<open>Sender::send\<close> and \<open>Receiver::recv\<close> are unreachable: a blocking call
  through a handle of a serial channel never panics, whatever the state of handle and channel.
\<close>

theorem serial_handles_never_panic:
  fixes v :: 'v and h :: "bool \<times> 'v schannel"
  shows "sender_send serial_ops (Some w) v h \<noteq> None \<and> receiver_recv serial_ops (Some w) h \<noteq> None"
proof -
  let ?ops = "serial_ops :: (nat option, 'v, 'v schannel) channel_ops"
  obtain b c where h: "h = (b, c)" by (cases h)
  have k: "Some w \<noteq> ch_trying ?ops"
    by (simp add: serial_ops_def)
  have "sender_send ?ops (Some w) v (b, c) \<noteq> None"
    by (rule notI, drule ser.blocking_send_unreachable [OF _ k]) (simp add: serial_ops_def on_schan_def)
  moreover have "receiver_recv ?ops (Some w) (b, c) \<noteq> None"
    by (rule notI, drule ser.blocking_recv_unreachable [OF _ k]) (simp add: serial_ops_def on_schan_def)
  ultimately show ?thesis unfolding h by blast
qed

end
