(* ===== verification/Peers.thy ===== *)
theory Peers
  imports Channels
begin

text \<open>
  The public \<open>Sender\<close> and \<open>Receiver\<close> of \<open>src/src/channel/parallel.rs\<close> and \<open>src/src/channel/serial.rs\<close>:
  the handles of \<open>shared.rs\<close> over the one or the other channel, the constructors and the owning
  iterators. An argument \<open>k\<close> of a blocking operation is the task, thread or coroutine that calls it.
\<close>

section \<open>The peers of a parallel channel\<close>

text \<open>Only the operations that assert in a debug build depend on the profile.\<close>

definition psender_send :: "bool \<Rightarrow> caller \<Rightarrow> 'v \<Rightarrow> bool \<times> 'v channel \<Rightarrow>
    (('v send_error + unit) outcome \<times> bool \<times> 'v channel) option" where
  "psender_send chk k v h = sender_send (parallel_ops chk) k v h"

definition psender_try_send :: "bool \<Rightarrow> 'v \<Rightarrow> bool \<times> 'v channel \<Rightarrow>
    (('v try_send_error + unit) \<times> bool \<times> 'v channel) option" where
  "psender_try_send chk v h = sender_try_send (parallel_ops chk) v h"

definition psender_close :: "bool \<times> 'v channel \<Rightarrow> bool \<times> 'v channel" where
  "psender_close h = sender_close (parallel_ops False) h"

definition psender_is_closed :: "bool \<times> 'v channel \<Rightarrow> bool" where
  "psender_is_closed h = sender_is_closed h"

definition psender_clone :: "bool \<times> 'v channel \<Rightarrow> bool \<times> 'v channel" where
  "psender_clone h = sender_clone (parallel_ops False) h"

definition psender_parallel :: "bool \<times> 'v channel \<Rightarrow> bool" where
  "psender_parallel h = sender_parallel h"

definition psender_select_permit :: "bool \<times> 'v channel \<Rightarrow>
    (try_select_error + select_permit) \<times> bool \<times> 'v channel" where
  "psender_select_permit h = sender_select_permit (parallel_ops False) h"

definition psender_watch_permit :: "selector \<Rightarrow> bool \<times> 'v channel \<Rightarrow> (bool \<times> bool \<times> 'v channel) option" where
  "psender_watch_permit sel h = sender_watch_permit (parallel_ops False) sel h"

definition psender_unwatch_permit :: "nat \<Rightarrow> bool \<times> 'v channel \<Rightarrow> bool \<times> 'v channel" where
  "psender_unwatch_permit ident h = sender_unwatch_permit (parallel_ops False) ident h"

definition psender_consume_permit :: "select_permit \<Rightarrow> 'v \<Rightarrow> bool \<times> 'v channel \<Rightarrow>
    (('v send_error + unit) \<times> bool \<times> 'v channel) option" where
  "psender_consume_permit p v h = sender_consume_permit (parallel_ops False) p v h"

definition preceiver_recv :: "bool \<Rightarrow> caller \<Rightarrow> bool \<times> 'v channel \<Rightarrow>
    ('v option outcome \<times> bool \<times> 'v channel) option" where
  "preceiver_recv chk k h = receiver_recv (parallel_ops chk) k h"

definition preceiver_try_recv :: "bool \<Rightarrow> bool \<times> 'v channel \<Rightarrow>
    ((try_recv_error + 'v) \<times> bool \<times> 'v channel) option" where
  "preceiver_try_recv chk h = receiver_try_recv (parallel_ops chk) h"

definition preceiver_close :: "bool \<times> 'v channel \<Rightarrow> bool \<times> 'v channel" where
  "preceiver_close h = receiver_close (parallel_ops False) h"

definition preceiver_terminate :: "bool \<times> 'v channel \<Rightarrow> bool \<times> 'v channel" where
  "preceiver_terminate h = receiver_terminate (parallel_ops False) h"

definition preceiver_is_drained :: "bool \<times> 'v channel \<Rightarrow> bool" where
  "preceiver_is_drained h = receiver_is_drained h"

definition preceiver_clone :: "bool \<times> 'v channel \<Rightarrow> bool \<times> 'v channel" where
  "preceiver_clone h = receiver_clone (parallel_ops False) h"

definition preceiver_parallel :: "bool \<times> 'v channel \<Rightarrow> bool" where
  "preceiver_parallel h = receiver_parallel h"

definition preceiver_select_permit :: "bool \<times> 'v channel \<Rightarrow>
    (try_select_error + select_permit) \<times> bool \<times> 'v channel" where
  "preceiver_select_permit h = receiver_select_permit (parallel_ops False) h"

definition preceiver_watch_permit :: "selector \<Rightarrow> bool \<times> 'v channel \<Rightarrow> (bool \<times> bool \<times> 'v channel) option" where
  "preceiver_watch_permit sel h = receiver_watch_permit (parallel_ops False) sel h"

definition preceiver_unwatch_permit :: "nat \<Rightarrow> bool \<times> 'v channel \<Rightarrow> bool \<times> 'v channel" where
  "preceiver_unwatch_permit ident h = receiver_unwatch_permit (parallel_ops False) ident h"

definition preceiver_consume_permit :: "select_permit \<Rightarrow> bool \<times> 'v channel \<Rightarrow> ('v option \<times> bool \<times> 'v channel) option" where
  "preceiver_consume_permit p h = receiver_consume_permit (parallel_ops False) p h"

definition preceiver_next :: "bool \<Rightarrow> caller \<Rightarrow> bool \<times> 'v channel \<Rightarrow>
    ('v option outcome \<times> bool \<times> 'v channel) option" where
  "preceiver_next chk k h = preceiver_recv chk k h"

text \<open>
  A new channel with the flags of its two handles, both attached. \<open>Capacity::bounded\<close> refuses a
  bound of 0; an unbounded channel has the bound \<open>usize::MAX\<close>.
\<close>

definition parallel_channel :: "nat \<Rightarrow> bool \<times> bool \<times> 'v channel" where
  "parallel_channel bnd = (True, True, channel_new bnd)"

definition parallel_bounded :: "nat \<Rightarrow> (bool \<times> bool \<times> 'v channel) option" where
  "parallel_bounded bnd = (if bnd > 0 then Some (parallel_channel bnd) else None)"

definition parallel_unbounded :: "bool \<times> bool \<times> 'v channel" where
  "parallel_unbounded = parallel_channel (2 ^ 64 - 1)"

section \<open>The peers of a serial channel\<close>

definition ssender_send :: "nat option \<Rightarrow> 'v \<Rightarrow> bool \<times> 'v schannel \<Rightarrow>
    (('v send_error + unit) outcome \<times> bool \<times> 'v schannel) option" where
  "ssender_send k v h = sender_send serial_ops k v h"

definition ssender_try_send :: "'v \<Rightarrow> bool \<times> 'v schannel \<Rightarrow>
    (('v try_send_error + unit) \<times> bool \<times> 'v schannel) option" where
  "ssender_try_send v h = sender_try_send serial_ops v h"

definition ssender_close :: "bool \<times> 'v schannel \<Rightarrow> bool \<times> 'v schannel" where
  "ssender_close h = sender_close serial_ops h"

definition ssender_is_closed :: "bool \<times> 'v schannel \<Rightarrow> bool" where
  "ssender_is_closed h = sender_is_closed h"

definition ssender_clone :: "bool \<times> 'v schannel \<Rightarrow> bool \<times> 'v schannel" where
  "ssender_clone h = sender_clone serial_ops h"

definition ssender_parallel :: "bool \<times> 'v schannel \<Rightarrow> bool" where
  "ssender_parallel h = False"

definition ssender_select_permit :: "bool \<times> 'v schannel \<Rightarrow>
    (try_select_error + select_permit) \<times> bool \<times> 'v schannel" where
  "ssender_select_permit h = sender_select_permit serial_ops h"

definition ssender_watch_permit :: "selector \<Rightarrow> bool \<times> 'v schannel \<Rightarrow> (bool \<times> bool \<times> 'v schannel) option" where
  "ssender_watch_permit sel h = sender_watch_permit serial_ops sel h"

definition ssender_unwatch_permit :: "nat \<Rightarrow> bool \<times> 'v schannel \<Rightarrow> bool \<times> 'v schannel" where
  "ssender_unwatch_permit ident h = sender_unwatch_permit serial_ops ident h"

definition ssender_consume_permit :: "select_permit \<Rightarrow> 'v \<Rightarrow> bool \<times> 'v schannel \<Rightarrow>
    (('v send_error + unit) \<times> bool \<times> 'v schannel) option" where
  "ssender_consume_permit p v h = sender_consume_permit serial_ops p v h"

definition sreceiver_recv :: "nat option \<Rightarrow> bool \<times> 'v schannel \<Rightarrow>
    ('v option outcome \<times> bool \<times> 'v schannel) option" where
  "sreceiver_recv k h = receiver_recv serial_ops k h"

definition sreceiver_try_recv :: "bool \<times> 'v schannel \<Rightarrow>
    ((try_recv_error + 'v) \<times> bool \<times> 'v schannel) option" where
  "sreceiver_try_recv h = receiver_try_recv serial_ops h"

definition sreceiver_close :: "bool \<times> 'v schannel \<Rightarrow> bool \<times> 'v schannel" where
  "sreceiver_close h = receiver_close serial_ops h"

definition sreceiver_terminate :: "bool \<times> 'v schannel \<Rightarrow> bool \<times> 'v schannel" where
  "sreceiver_terminate h = receiver_terminate serial_ops h"

definition sreceiver_is_drained :: "bool \<times> 'v schannel \<Rightarrow> bool" where
  "sreceiver_is_drained h = receiver_is_drained h"

definition sreceiver_clone :: "bool \<times> 'v schannel \<Rightarrow> bool \<times> 'v schannel" where
  "sreceiver_clone h = receiver_clone serial_ops h"

definition sreceiver_parallel :: "bool \<times> 'v schannel \<Rightarrow> bool" where
  "sreceiver_parallel h = False"

definition sreceiver_select_permit :: "bool \<times> 'v schannel \<Rightarrow>
    (try_select_error + select_permit) \<times> bool \<times> 'v schannel" where
  "sreceiver_select_permit h = receiver_select_permit serial_ops h"

definition sreceiver_watch_permit :: "selector \<Rightarrow> bool \<times> 'v schannel \<Rightarrow> (bool \<times> bool \<times> 'v schannel) option" where
  "sreceiver_watch_permit sel h = receiver_watch_permit serial_ops sel h"

definition sreceiver_unwatch_permit :: "nat \<Rightarrow> bool \<times> 'v schannel \<Rightarrow> bool \<times> 'v schannel" where
  "sreceiver_unwatch_permit ident h = receiver_unwatch_permit serial_ops ident h"

definition sreceiver_consume_permit :: "select_permit \<Rightarrow> bool \<times> 'v schannel \<Rightarrow> ('v option \<times> bool \<times> 'v schannel) option" where
  "sreceiver_consume_permit p h = receiver_consume_permit serial_ops p h"

definition sreceiver_next :: "nat option \<Rightarrow> bool \<times> 'v schannel \<Rightarrow>
    ('v option outcome \<times> bool \<times> 'v schannel) option" where
  "sreceiver_next k h = sreceiver_recv k h"

definition serial_channel :: "nat \<Rightarrow> bool \<times> bool \<times> 'v schannel" where
  "serial_channel bnd = (True, True, schannel_new bnd)"

definition serial_bounded :: "nat \<Rightarrow> (bool \<times> bool \<times> 'v schannel) option" where
  "serial_bounded bnd = (if bnd > 0 then Some (serial_channel bnd) else None)"

definition serial_unbounded :: "bool \<times> bool \<times> 'v schannel" where
  "serial_unbounded = serial_channel (2 ^ 64 - 1)"

text \<open>\<open>completed\<close>: two detached handles, whatever channel one imagines behind them.\<close>

definition serial_completed :: "'v schannel \<Rightarrow> bool \<times> bool \<times> 'v schannel" where
  "serial_completed c = (False, False, c)"

section \<open>Properties\<close>

lemmas peer_defs = preceiver_next_def preceiver_recv_def sreceiver_next_def sreceiver_recv_def

text \<open>A blocking receive that returns nothing leaves a drained handle.\<close>

lemma recv_none_detaches:
  assumes "receiver_recv ops k h = Some (Return None, h')"
  shows "\<not> fst h'"
proof (cases "fst h")
  case True
  with assms obtain r s where "receiver_received ops r s = Some (None, h')"
    by (auto simp: receiver_recv_def split: option.splits outcome.splits)
  then show ?thesis by (cases "(ops, r, s)" rule: receiver_received.cases) auto
next
  case False
  then show ?thesis using assms by (auto simp: receiver_recv_def)
qed

text \<open>
  The owning iterators are fused, as the impls of \<open>FusedIterator\<close> promise: after a \<open>next\<close> that
  returned \<open>None\<close> the receiver is drained and every later \<open>next\<close> returns \<open>None\<close> at once, whatever the
  other handles do to the channel in between.
\<close>

theorem iterators_are_fused:
  "(preceiver_next chk k hp = Some (Return None, hp') \<longrightarrow> preceiver_is_drained hp' \<and>
      (\<forall>k' c. preceiver_next chk k' (fst hp', c) = Some (Return None, fst hp', c))) \<and>
    (sreceiver_next w hs = Some (Return None, hs') \<longrightarrow> sreceiver_is_drained hs' \<and>
      (\<forall>w' c. sreceiver_next w' (fst hs', c) = Some (Return None, fst hs', c)))"
  using recv_none_detaches [of "parallel_ops chk" k hp hp'] recv_none_detaches [of serial_ops w hs hs']
  by (simp add: peer_defs preceiver_is_drained_def sreceiver_is_drained_def receiver_is_drained_def
      receiver_recv_def)

text \<open>An iterator over a closed, empty channel of either kind.\<close>

lemma iterators_are_fused_witness:
  "\<exists>hp' hs'. preceiver_next True (InTask 0) (preceiver_close (True, channel_new 1 :: nat channel))
      = Some (Return None, hp') \<and> preceiver_is_drained hp' \<and>
    sreceiver_next (Some 0) (sreceiver_close (True, schannel_new 1 :: nat schannel))
      = Some (Return None, hs') \<and> sreceiver_is_drained hs'"
proof -
  let ?hp = "preceiver_close (True, channel_new 1 :: nat channel)"
  let ?hs = "sreceiver_close (True, schannel_new 1 :: nat schannel)"
  have p: "preceiver_next True (InTask 0) ?hp = Some (Return None, (False, remove_receiver (snd ?hp)))"
    by (simp add: peer_defs preceiver_close_def receiver_close_def receiver_recv_def parallel_ops_def
        on_chan_def channel_close_def on_state_def recv_def is_empty_def state_close_def close_senders_def
        close_receivers_def is_recvable_def recvable_len_def channel_new_def state_new_def Let_def)
  have s: "sreceiver_next (Some 0) ?hs = Some (Return None, (False, sremove_receiver (snd ?hs)))"
    by (simp add: peer_defs sreceiver_close_def receiver_close_def receiver_recv_def serial_ops_def
        on_schan_def srecv_def sclose_def schannel_new_def sstate_new_def)
  show ?thesis
    using iterators_are_fused [of True "InTask 0" ?hp "(False, remove_receiver (snd ?hp))"
        "Some 0" ?hs "(False, sremove_receiver (snd ?hs))"] p s by blast
qed

end
