(* ===== verification/Select.thy ===== *)
theory Select
  imports Peers
begin

text \<open>
  \<open>src/src/select.rs\<close>: selecting among candidates. A candidate is a record of the four operations
  of the trait \<open>Selectable\<close> over a state \<open>'s\<close> that holds whatever the candidates of one select
  share, the wake cells included. \<open>None\<close> is a panic.
\<close>

section \<open>Candidates\<close>

record 's selectable =
  sl_parallel :: "'s \<Rightarrow> bool"
  sl_select :: "'s \<Rightarrow> (try_select_error + select_permit) \<times> 's"
  sl_watch :: "selector \<Rightarrow> 's \<Rightarrow> (bool \<times> 's) option"
  sl_unwatch :: "nat \<Rightarrow> 's \<Rightarrow> 's"

text \<open>A disabled branch of a select is \<open>None\<close>.\<close>

type_synonym 's candidates = "'s selectable option list"

section \<open>Wakers\<close>

datatype waker_kind = TaskWaker | ThreadWaker | CoroutineWaker

text \<open>\<open>Waker::new\<close>: which of the three primitives a select waits with.\<close>

definition waker_new :: "bool \<Rightarrow> bool \<Rightarrow> waker_kind" where
  "waker_new par in_task =
    (if par then (if in_task then TaskWaker else ThreadWaker) else CoroutineWaker)"

text \<open>All three kinds are one-shot: the first wake of the cell counts, a later one is refused.\<close>

definition waker_wake :: "nat \<Rightarrow> nat \<Rightarrow> select_permit \<Rightarrow> 'a wake_msg cells \<Rightarrow> bool \<times> 'a wake_msg cells" where
  "waker_wake w index p cs = store_wake w (MSelected index p) cs"

definition waiter_is_ready :: "nat \<Rightarrow> 'a wake_msg cells \<Rightarrow> bool" where
  "waiter_is_ready w cs \<longleftrightarrow> cs w \<noteq> Pending"

text \<open>\<open>wait\<close> blocks on a pending cell and panics when its wakers are gone.\<close>

definition waiter_wait :: "nat \<Rightarrow> 'a wake_msg cells \<Rightarrow> (nat \<times> select_permit) outcome option" where
  "waiter_wait w cs =
    (case cs w of
       Pending \<Rightarrow> Some Waits
     | Woken (MSelected index p) \<Rightarrow> Some (Return (index, p))
     | _ \<Rightarrow> None)"

section \<open>Trying\<close>

fun try_loop :: "'s candidates \<Rightarrow> nat list \<Rightarrow> try_select_error \<Rightarrow> 's \<Rightarrow>
    (try_select_error + nat \<times> select_permit) \<times> 's" where
  "try_loop sels [] err s = (Inl err, s)"
| "try_loop sels (i # order) err s =
    (case sels ! i of
       None \<Rightarrow> try_loop sels order err s
     | Some sl \<Rightarrow>
       (case sl_select sl s of
          (Inr p, s') \<Rightarrow> (Inr (i, p), s')
        | (Inl WouldBlock, s') \<Rightarrow> try_loop sels order WouldBlock s'
        | (Inl Completed, s') \<Rightarrow> try_loop sels order err s'))"

text \<open>\<open>rand\<close> is the number the enumerator draws.\<close>

definition try_select :: "nat \<Rightarrow> 's candidates \<Rightarrow> 's \<Rightarrow>
    ((try_select_error + nat \<times> select_permit) \<times> 's) option" where
  "try_select rand sels s =
    (case enumeration rand (length sels) of
       None \<Rightarrow> None
     | Some order \<Rightarrow> Some (try_loop sels order Completed s))"

section \<open>Selecting\<close>

text \<open>A select over one parallel candidate waits as a task or thread, else as a coroutine.\<close>

definition any_parallel :: "'s candidates \<Rightarrow> 's \<Rightarrow> bool" where
  "any_parallel sels s \<longleftrightarrow> list_ex (\<lambda>c. case c of None \<Rightarrow> False | Some sl \<Rightarrow> sl_parallel sl s) sels"

definition select_waker :: "'s candidates \<Rightarrow> bool \<Rightarrow> 's \<Rightarrow> waker_kind" where
  "select_waker sels in_task s = waker_new (any_parallel sels s) in_task"

text \<open>
  The watching loop. \<open>env k\<close> is what the rest of the system does after the \<open>k\<close>-th candidate was
  watched and before the waiter is looked at; \<open>ready\<close> looks at the waiter. The result is the
  number of candidates passed, \<open>checked\<close>.
\<close>

fun watch_loop :: "'s candidates \<Rightarrow> (nat \<Rightarrow> selector) \<Rightarrow> ('s \<Rightarrow> bool) \<Rightarrow> (nat \<Rightarrow> 's \<Rightarrow> 's) \<Rightarrow>
    nat list \<Rightarrow> nat \<Rightarrow> 's \<Rightarrow> (nat \<times> 's) option" where
  "watch_loop sels mk ready env [] checked s = Some (checked, s)"
| "watch_loop sels mk ready env (i # order) checked s =
    (case sels ! i of
       None \<Rightarrow> watch_loop sels mk ready env order (checked + 1) s
     | Some sl \<Rightarrow>
       (case sl_watch sl (mk i) s of
          None \<Rightarrow> None
        | Some (b, s1) \<Rightarrow>
          (let s2 = env checked s1 in
           if b \<and> ready s2 then Some (checked, s2)
           else watch_loop sels mk ready env order (checked + 1) s2)))"

text \<open>\<open>Witness::drop\<close>: unwatch the candidates passed, in the order in which they were watched.\<close>

fun unwatch_loop :: "'s candidates \<Rightarrow> nat \<Rightarrow> nat list \<Rightarrow> 's \<Rightarrow> 's" where
  "unwatch_loop sels ident [] s = s"
| "unwatch_loop sels ident (i # order) s =
    unwatch_loop sels ident order
      (case sels ! i of None \<Rightarrow> s | Some sl \<Rightarrow> sl_unwatch sl ident s)"

definition witness_drop :: "'s candidates \<Rightarrow> nat \<Rightarrow> nat \<Rightarrow> nat list \<Rightarrow> 's \<Rightarrow> 's" where
  "witness_drop sels ident checked order s = unwatch_loop sels ident (take checked order) s"

text \<open>
  \<open>select\<close> up to its wait. The second enumerator draws another number. \<open>Watching\<close> keeps what the
  \<open>WitnessWaiter\<close> keeps: how many candidates to unwatch, and their order.
\<close>

datatype selecting = Selected nat select_permit | Exhausted | Watching nat "nat list"

definition select_start :: "nat \<Rightarrow> nat \<Rightarrow> 's candidates \<Rightarrow> nat \<Rightarrow> nat \<Rightarrow> ('s \<Rightarrow> bool) \<Rightarrow> (nat \<Rightarrow> 's \<Rightarrow> 's) \<Rightarrow>
    's \<Rightarrow> (selecting \<times> 's) option" where
  "select_start rand rand' sels w ident ready env s =
    (case try_select rand sels s of
       None \<Rightarrow> None
     | Some (Inr (i, p), s1) \<Rightarrow> Some (Selected i p, s1)
     | Some (Inl Completed, s1) \<Rightarrow> Some (Exhausted, s1)
     | Some (Inl WouldBlock, s1) \<Rightarrow>
       (case enumeration rand' (length sels) of
          None \<Rightarrow> None
        | Some order \<Rightarrow>
          map_option (\<lambda>(n, s2). (Watching n order, s2))
            (watch_loop sels (\<lambda>i. \<lparr>sel_index = i, sel_waker = w, sel_ident = ident\<rparr>) ready env order 0 s1)))"

text \<open>The rest of \<open>select\<close>, once its waiter is woken: the selection, and the witness dropped.\<close>

definition select_finish :: "'s candidates \<Rightarrow> nat \<Rightarrow> nat \<Rightarrow> ('s \<Rightarrow> 'a wake_msg cells) \<Rightarrow> nat \<Rightarrow> nat list \<Rightarrow>
    's \<Rightarrow> ((nat \<times> select_permit) outcome option \<times> 's)" where
  "select_finish sels w ident get_cells checked order s =
    (case waiter_wait w (get_cells s) of
       Some Waits \<Rightarrow> (Some Waits, s)
     | r \<Rightarrow> (r, witness_drop sels ident checked order s))"

section \<open>The candidates of the library\<close>

text \<open>
  \<open>get\<close> finds a candidate's value in the state, \<open>ap\<close> applies a permit to a selector there.
\<close>

definition never :: "'s selectable" where
  "never = \<lparr>sl_parallel = (\<lambda>s. False), sl_select = (\<lambda>s. (Inl Completed, s)),
    sl_watch = (\<lambda>sel s. Some (False, s)), sl_unwatch = (\<lambda>ident s. s)\<rparr>"

definition never_consume :: "select_permit \<Rightarrow> 'r option" where
  "never_consume p = None"

definition ready_selectable :: "('s \<Rightarrow> 'v option) \<Rightarrow> (selector \<Rightarrow> select_permit \<Rightarrow> 's \<Rightarrow> bool \<times> 's) \<Rightarrow>
    's selectable" where
  "ready_selectable get ap = \<lparr>sl_parallel = (\<lambda>s. False),
    sl_select = (\<lambda>s. (case get s of None \<Rightarrow> Inl Completed | Some v \<Rightarrow> Inr permit_default, s)),
    sl_watch = (\<lambda>sel s. if get s \<noteq> None then Some (True, snd (ap sel permit_default s)) else Some (False, s)),
    sl_unwatch = (\<lambda>ident s. s)\<rparr>"

definition ready_new :: "'v \<Rightarrow> 'v option" where
  "ready_new v = Some v"

text \<open>\<open>take().expect(...)\<close>\<close>

definition ready_consume :: "'v option \<Rightarrow> ('v \<times> 'v option) option" where
  "ready_consume r = map_option (\<lambda>v. (v, None)) r"

definition deque_selectable :: "('s \<Rightarrow> 'v list) \<Rightarrow> (selector \<Rightarrow> select_permit \<Rightarrow> 's \<Rightarrow> bool \<times> 's) \<Rightarrow>
    's selectable" where
  "deque_selectable get ap = \<lparr>sl_parallel = (\<lambda>s. False),
    sl_select = (\<lambda>s. (if get s = [] then Inl Completed else Inr permit_default, s)),
    sl_watch = (\<lambda>sel s. if get s = [] then Some (False, s) else Some (True, snd (ap sel permit_default s))),
    sl_unwatch = (\<lambda>ident s. s)\<rparr>"

definition deque_consume :: "'v list \<Rightarrow> ('v \<times> 'v list) option" where
  "deque_consume vs = (case vs of [] \<Rightarrow> None | v # vs' \<Rightarrow> Some (v, vs'))"

definition option_selectable :: "('s \<Rightarrow> 'v option) \<Rightarrow> (selector \<Rightarrow> select_permit \<Rightarrow> 's \<Rightarrow> bool \<times> 's) \<Rightarrow>
    's selectable" where
  "option_selectable get ap = \<lparr>sl_parallel = (\<lambda>s. False),
    sl_select = (\<lambda>s. (if get s = None then Inl Completed else Inr permit_default, s)),
    sl_watch = (\<lambda>sel s. if get s = None then Some (False, s) else Some (True, snd (ap sel permit_default s))),
    sl_unwatch = (\<lambda>ident s. s)\<rparr>"

definition option_consume :: "'v option \<Rightarrow> ('v \<times> 'v option) option" where
  "option_consume r = (case r of None \<Rightarrow> None | Some v \<Rightarrow> Some (v, None))"

text \<open>The peers of the channels.\<close>

definition psender_selectable :: "(bool \<times> 'v channel) selectable" where
  "psender_selectable = \<lparr>sl_parallel = psender_parallel, sl_select = psender_select_permit,
    sl_watch = psender_watch_permit, sl_unwatch = psender_unwatch_permit\<rparr>"

definition preceiver_selectable :: "(bool \<times> 'v channel) selectable" where
  "preceiver_selectable = \<lparr>sl_parallel = preceiver_parallel, sl_select = preceiver_select_permit,
    sl_watch = preceiver_watch_permit, sl_unwatch = preceiver_unwatch_permit\<rparr>"

definition ssender_selectable :: "(bool \<times> 'v schannel) selectable" where
  "ssender_selectable = \<lparr>sl_parallel = ssender_parallel, sl_select = ssender_select_permit,
    sl_watch = ssender_watch_permit, sl_unwatch = ssender_unwatch_permit\<rparr>"

definition sreceiver_selectable :: "(bool \<times> 'v schannel) selectable" where
  "sreceiver_selectable = \<lparr>sl_parallel = sreceiver_parallel, sl_select = sreceiver_select_permit,
    sl_watch = sreceiver_watch_permit, sl_unwatch = sreceiver_unwatch_permit\<rparr>"

end
