(* ===== verification/Select_Proofs.thy ===== *)
theory Select_Proofs
  imports Select
begin

text \<open>
  What a select promises over its candidates: the contract of the trait \<open>Selectable\<close> as a locale,
  interpreted on the peers of both channels and on the plain values of the library, and the
  selection itself, trying and watching.
\<close>

section \<open>Trying\<close>

definition offers :: "'s candidates \<Rightarrow> 's \<Rightarrow> nat \<Rightarrow> bool" where
  "offers sels s i \<longleftrightarrow> (case sels ! i of None \<Rightarrow> False | Some sl \<Rightarrow> \<not> isl (fst (sl_select sl s)))"

definition blocks :: "'s candidates \<Rightarrow> 's \<Rightarrow> nat \<Rightarrow> bool" where
  "blocks sels s i \<longleftrightarrow> (case sels ! i of None \<Rightarrow> False | Some sl \<Rightarrow> fst (sl_select sl s) = Inl WouldBlock)"

definition grant :: "'s candidates \<Rightarrow> 's \<Rightarrow> nat \<Rightarrow> (try_select_error + nat \<times> select_permit) \<times> 's" where
  "grant sels s i = (let (r, s') = sl_select (the (sels ! i)) s in (map_sum id (Pair i) r, s'))"

lemma grant_offers: "offers sels s i \<Longrightarrow> \<exists>p s'. grant sels s i = (Inr (i, p), s')"
  by (cases "sl_select (the (sels ! i)) s")
    (auto simp: offers_def grant_def map_sum_def split: option.splits sum.splits)

lemma grant_found: "find (offers sels s) order = Some i \<Longrightarrow> grant sels s i \<noteq> (Inl e, s')"
  using grant_offers [of sels s i] by (auto simp: find_Some_iff)

text \<open>A candidate that refuses leaves the state as it was.\<close>

definition quiet :: "'s selectable \<Rightarrow> bool" where
  "quiet sl \<longleftrightarrow> (\<forall>s e s'. sl_select sl s = (Inl e, s') \<longrightarrow> s' = s)"

definition all_quiet :: "'s candidates \<Rightarrow> bool" where
  "all_quiet sels \<longleftrightarrow> (\<forall>sl. Some sl \<in> set sels \<longrightarrow> quiet sl)"

lemma all_quietD: "all_quiet sels \<Longrightarrow> i < length sels \<Longrightarrow> sels ! i = Some sl \<Longrightarrow> sl_select sl s = (Inl e, s') \<Longrightarrow> s' = s"
  unfolding all_quiet_def quiet_def by (metis nth_mem)

lemma try_loop_find:
  assumes q: "all_quiet sels"
  shows "\<forall>i\<in>set order. i < length sels \<Longrightarrow> try_loop sels order err s =
    (case find (offers sels s) order of
       Some i \<Rightarrow> grant sels s i
     | None \<Rightarrow> (Inl (if list_ex (blocks sels s) order then WouldBlock else err), s))"
proof (induction order arbitrary: err)
  case (Cons i order)
  then have i: "i < length sels" and order: "\<forall>i\<in>set order. i < length sels" by simp_all
  note IH = Cons.IH [OF order]
  show ?case
  proof (cases "sels ! i")
    case None
    then show ?thesis using IH by (simp add: offers_def blocks_def)
  next
    case (Some sl)
    obtain r s1 where r: "sl_select sl s = (r, s1)" by (cases "sl_select sl s")
    show ?thesis
    proof (cases r)
      case (Inr p)
      then show ?thesis using Some r by (simp add: offers_def grant_def)
    next
      case (Inl e)
      have s1: "s1 = s" by (rule all_quietD [OF q i Some r [unfolded Inl]])
      show ?thesis
        by (cases e) (simp_all add: Some r Inl s1 IH [of WouldBlock] IH [of err] offers_def blocks_def
            split: option.split)
    qed
  qed
qed simp

text \<open>
  C26. \<open>try_select\<close> grants the permit of the first ready candidate in the order that starts at the
  drawn offset and wraps around, without touching any other candidate; with none ready it fails with
  \<open>WouldBlock\<close> if some enabled candidate may become ready and with \<open>Completed\<close> otherwise; with no
  candidate at all it panics.
\<close>

theorem try_select_first_ready:
  assumes "all_quiet sels"
  shows "try_select rand sels s =
    (if sels = [] then None
     else Some (case find (offers sels s) (rotate (rand mod length sels) [0..<length sels]) of
       Some i \<Rightarrow> grant sels s i
     | None \<Rightarrow> (Inl (if list_ex (blocks sels s) [0..<length sels] then WouldBlock else Completed), s)))"
proof (cases "sels = []")
  case True
  then show ?thesis by (simp add: try_select_def enumeration_def enumerator_new_def)
next
  case False
  let ?order = "rotate (rand mod length sels) [0..<length sels]"
  have "list_ex (blocks sels s) ?order \<longleftrightarrow> list_ex (blocks sels s) [0..<length sels]"
    by (simp add: list_ex_iff)
  moreover have "enumeration rand (length sels) = Some ?order"
    using False by (simp add: enumeration_rotate)
  ultimately show ?thesis
    using False try_loop_find [OF assms, of ?order Completed s] by (simp add: try_select_def)
qed

section \<open>The contract of a candidate\<close>

text \<open>
  \<open>woken w s\<close>: the cell \<open>w\<close> is no longer pending. A candidate that would grant a permit when it is
  watched wakes the selector.
\<close>

locale candidate =
  fixes sl :: "'s selectable" and woken :: "nat \<Rightarrow> 's \<Rightarrow> bool"
  assumes refuses_quietly: "sl_select sl s = (Inl e, s') \<Longrightarrow> s' = s"
    and watch_blocked: "sl_select sl s = (Inl WouldBlock, s') \<Longrightarrow> sl_watch sl sel s \<noteq> None"
    and watch_ready: "sl_select sl s = (Inr p, s1) \<Longrightarrow> sl_watch sl sel s = Some (b, s2) \<Longrightarrow>
      b \<and> woken (sel_waker sel) s2"
    and stays_woken: "woken w s \<Longrightarrow> sl_watch sl sel s = Some (b, s') \<Longrightarrow> woken w s'"
begin

lemma is_quiet: "quiet sl"
  using refuses_quietly by (auto simp: quiet_def)

end

lemma selector_apply_wakes:
  "snd (selector_apply sel p cs) w = Pending \<longleftrightarrow> cs w = Pending \<and> w \<noteq> sel_waker sel"
  by (cases "cs (sel_waker sel) = Pending") (auto simp: wake_simps)

lemmas peer_selectable_defs = sender_select_permit_def sender_watch_permit_def receiver_select_permit_def
  receiver_watch_permit_def parallel_ops_def serial_ops_def on_chan_def on_schan_def Let_def

abbreviation pwoken :: "nat \<Rightarrow> bool \<times> 'v channel \<Rightarrow> bool" where
  "pwoken w h \<equiv> cells (chan_state (snd h)) w \<noteq> Pending"

abbreviation swoken :: "nat \<Rightarrow> bool \<times> 'v schannel \<Rightarrow> bool" where
  "swoken w h \<equiv> scells (schan_state (snd h)) w \<noteq> Pending"

interpretation ps: candidate psender_selectable pwoken
  by unfold_locales
    (auto simp: psender_selectable_def psender_select_permit_def psender_watch_permit_def
      peer_selectable_defs select_send_permit_def watch_send_permit_def selector_apply_wakes split_def
      split: if_splits)

interpretation pr: candidate preceiver_selectable pwoken
  by unfold_locales
    (auto simp: preceiver_selectable_def preceiver_select_permit_def preceiver_watch_permit_def
      peer_selectable_defs select_recv_permit_def watch_recv_permit_def selector_apply_wakes split_def
      split: if_splits)

interpretation ss: candidate ssender_selectable swoken
  by unfold_locales
    (auto simp: ssender_selectable_def ssender_select_permit_def ssender_watch_permit_def
      peer_selectable_defs sselect_send_permit_def swatch_send_permit_def split: if_splits)

interpretation sr: candidate sreceiver_selectable swoken
  by unfold_locales
    (auto simp: sreceiver_selectable_def sreceiver_select_permit_def sreceiver_watch_permit_def
      peer_selectable_defs sselect_recv_permit_def swatch_recv_permit_def split: if_splits)

text \<open>A plain value next to the wake cells.\<close>

definition own_apply :: "selector \<Rightarrow> select_permit \<Rightarrow> 'x \<times> 'a wake_msg cells \<Rightarrow> bool \<times> 'x \<times> 'a wake_msg cells" where
  "own_apply sel p s = (let (b, cs) = selector_apply sel p (snd s) in (b, fst s, cs))"

abbreviation own_woken :: "nat \<Rightarrow> 'x \<times> 'a wake_msg cells \<Rightarrow> bool" where
  "own_woken w s \<equiv> snd s w \<noteq> Pending"

interpretation nv: candidate never own_woken
  by unfold_locales (auto simp: never_def)

interpretation rd: candidate "ready_selectable fst own_apply" own_woken
  by unfold_locales
    (auto simp: ready_selectable_def own_apply_def selector_apply_wakes Let_def split_def
      split: if_splits option.splits)

interpretation dq: candidate "deque_selectable fst own_apply" own_woken
  by unfold_locales
    (auto simp: deque_selectable_def own_apply_def selector_apply_wakes Let_def split_def split: if_splits)

interpretation opt: candidate "option_selectable fst own_apply" own_woken
  by unfold_locales
    (auto simp: option_selectable_def own_apply_def selector_apply_wakes Let_def split_def split: if_splits)

section \<open>No permit slips past a select that goes to sleep\<close>

text \<open>The enabled candidates a watching loop visits, each with the state in which it is watched.\<close>

fun watch_trace :: "'s candidates \<Rightarrow> (nat \<Rightarrow> selector) \<Rightarrow> ('s \<Rightarrow> bool) \<Rightarrow> (nat \<Rightarrow> 's \<Rightarrow> 's) \<Rightarrow>
    nat list \<Rightarrow> nat \<Rightarrow> 's \<Rightarrow> (nat \<times> 's) list" where
  "watch_trace sels mk ready env [] k s = []"
| "watch_trace sels mk ready env (i # order) k s =
    (case sels ! i of
       None \<Rightarrow> watch_trace sels mk ready env order (k + 1) s
     | Some sl \<Rightarrow> (i, s) #
       (case sl_watch sl (mk i) s of
          None \<Rightarrow> []
        | Some (b, s1) \<Rightarrow>
          (let s2 = env k s1 in
           if b \<and> ready s2 then [] else watch_trace sels mk ready env order (k + 1) s2)))"

definition candidates_ok :: "'s candidates \<Rightarrow> (nat \<Rightarrow> 's \<Rightarrow> bool) \<Rightarrow> (nat \<Rightarrow> 's \<Rightarrow> 's) \<Rightarrow> bool" where
  "candidates_ok sels woken env \<longleftrightarrow> (\<forall>sl. Some sl \<in> set sels \<longrightarrow> candidate sl woken) \<and>
    (\<forall>k w s. woken w s \<longrightarrow> woken w (env k s))"

lemma candidates_ok_nth: "candidates_ok sels woken env \<Longrightarrow> i < length sels \<Longrightarrow> sels ! i = Some sl \<Longrightarrow> candidate sl woken"
  unfolding candidates_ok_def by (metis nth_mem)

lemma candidates_ok_env: "candidates_ok sels woken env \<Longrightarrow> woken w s \<Longrightarrow> woken w (env k s)"
  unfolding candidates_ok_def by blast

lemma candidates_ok_quiet: "candidates_ok sels woken env \<Longrightarrow> all_quiet sels"
  unfolding candidates_ok_def all_quiet_def using candidate.is_quiet by blast

lemma watch_loop_stays_woken:
  assumes ok: "candidates_ok sels woken env"
  shows "\<forall>i\<in>set order. i < length sels \<Longrightarrow> watch_loop sels mk ready env order k s = Some (n, s') \<Longrightarrow>
    woken w s \<Longrightarrow> woken w s'"
proof (induction order arbitrary: k s)
  case (Cons i order)
  show ?case
  proof (cases "sels ! i")
    case None
    then show ?thesis using Cons by auto
  next
    case (Some sl)
    then obtain b s1 where w: "sl_watch sl (mk i) s = Some (b, s1)"
      using Cons.prems(2) by (auto split: option.splits)
    have "woken w (env k s1)"
      using candidate.stays_woken [OF candidates_ok_nth [OF ok _ Some] Cons.prems(3) w] Cons.prems(1)
        candidates_ok_env [OF ok] by simp
    then show ?thesis using Cons.IH [of "k + 1" "env k s1"] Cons.prems Some w
      by (auto simp: Let_def split: if_splits)
  qed
qed simp

lemma watch_loop_asleep:
  assumes ok: "candidates_ok sels woken env" and mk: "\<And>i. sel_waker (mk i) = w"
  shows "\<forall>i\<in>set order. i < length sels \<Longrightarrow>
    watch_loop sels mk (woken w) env order k s = Some (n, s') \<Longrightarrow> \<not> woken w s' \<Longrightarrow>
    n = k + length order \<and>
    (\<forall>(i, s1)\<in>set (watch_trace sels mk (woken w) env order k s). \<not> offers sels s1 i)"
proof (induction order arbitrary: k s)
  case (Cons i order)
  show ?case
  proof (cases "sels ! i")
    case None
    then show ?thesis using Cons.IH [of "k + 1" s] Cons.prems by simp
  next
    case (Some sl)
    then obtain b s1 where w: "sl_watch sl (mk i) s = Some (b, s1)"
      using Cons.prems(2) by (auto split: option.splits)
    note c = candidates_ok_nth [OF ok _ Some]
    have on: "\<not> (b \<and> woken w (env k s1))"
      using Cons.prems(2,3) Some w by (auto simp: Let_def)
    have "\<not> offers sels s i"
    proof
      assume "offers sels s i"
      then obtain p s2 where "sl_select sl s = (Inr p, s2)"
        using Some by (cases "sl_select sl s"; cases "fst (sl_select sl s)") (auto simp: offers_def)
      then have "b \<and> woken w s1"
        using candidate.watch_ready [OF c _ w] Cons.prems(1) mk by simp
      then show False using on candidates_ok_env [OF ok] by blast
    qed
    then show ?thesis using Cons.IH [of "k + 1" "env k s1"] Cons.prems Some w on
      by (simp add: Let_def split: if_splits)
  qed
qed simp

text \<open>
  C25. A select loses no permit between trying and waiting. When \<open>select\<close> goes to sleep, every
  candidate has been watched, and each of them, at the moment it was watched, had no permit to give:
  one that had become ready since \<open>try_select\<close>, by whatever other threads did in between, would have
  woken the select.
\<close>

theorem select_sleeps_only_if_refused:
  assumes ok: "candidates_ok sels woken env"
    and st: "select_start rand rand' sels w ident (woken w) env s = Some (Watching n order, s')"
    and sleeps: "\<not> woken w s'"
  shows "n = length sels \<and> order = rotate (rand' mod length sels) [0..<length sels] \<and>
    (\<forall>(i, s1)\<in>set (watch_trace sels (\<lambda>i. \<lparr>sel_index = i, sel_waker = w, sel_ident = ident\<rparr>) (woken w)
      env order 0 s). \<not> offers sels s1 i)"
proof -
  let ?mk = "\<lambda>i. \<lparr>sel_index = i, sel_waker = w, sel_ident = ident\<rparr>"
  from st obtain s1 where t: "try_select rand sels s = Some (Inl WouldBlock, s1)"
      and o: "enumeration rand' (length sels) = Some order"
      and l: "watch_loop sels ?mk (woken w) env order 0 s1 = Some (n, s')"
    by (auto simp: select_start_def split: option.splits sum.splits try_select_error.splits)
  have ne: "sels \<noteq> []" using t by (auto simp: try_select_def enumeration_def enumerator_new_def)
  then have order: "order = rotate (rand' mod length sels) [0..<length sels]"
    using o by (simp add: enumeration_rotate)
  have s1: "s1 = s"
    using t ne try_loop_find [OF candidates_ok_quiet [OF ok],
        of "rotate (rand mod length sels) [0..<length sels]" Completed s]
    by (auto simp: try_select_def enumeration_rotate dest: grant_found split: option.splits if_splits)
  show ?thesis
    using watch_loop_asleep [OF ok _ _ l sleeps] unfolding s1 order by auto
qed

text \<open>A full and an empty channel's peers are not ready, an open one's are.\<close>

lemma try_select_first_ready_witness:
  "try_select 1 [Some preceiver_selectable, None, Some psender_selectable] (True, channel_new 2 :: nat channel) =
    Some (Inr (2, to_select Consume),
      (True, (channel_new 2)\<lparr>chan_state := (state_new 2)\<lparr>send_permits := 1\<rparr>\<rparr>))"
proof -
  let ?sels = "[Some preceiver_selectable, None, Some psender_selectable] :: (bool \<times> nat channel) candidates"
  have q: "all_quiet ?sels"
    using pr.is_quiet ps.is_quiet by (auto simp: all_quiet_def)
  have order: "rotate (1 mod length ?sels) [0..<length ?sels] = [1, 2, 0]"
    by (simp add: upt_rec)
  have o: "\<not> offers ?sels (True, channel_new 2) 1" "offers ?sels (True, channel_new 2) 2"
    by (simp_all add: offers_def psender_selectable_def psender_select_permit_def peer_selectable_defs
        select_send_permit_def is_full_def recvable_len_def channel_new_def state_new_def)
  have g: "grant ?sels (True, channel_new 2) 2 = (Inr (2, to_select Consume),
      (True, (channel_new 2)\<lparr>chan_state := (state_new 2)\<lparr>send_permits := 1\<rparr>\<rparr>))"
    by (simp add: grant_def psender_selectable_def psender_select_permit_def peer_selectable_defs
        select_send_permit_def is_full_def recvable_len_def channel_new_def state_new_def)
  show ?thesis
    unfolding try_select_first_ready [OF q] order using o g by simp
qed

text \<open>A select over the receiver of an empty channel goes to sleep.\<close>

lemma select_sleeps_only_if_refused_witness:
  "\<exists>order s'. select_start 0 0 [Some preceiver_selectable] 7 9 (pwoken 7) (\<lambda>k s. s)
      (True, channel_new 1 :: nat channel) = Some (Watching 1 order, s') \<and> order = [0]"
proof -
  let ?sels = "[Some preceiver_selectable] :: (bool \<times> nat channel) candidates"
  let ?s = "(True, channel_new 1 :: nat channel)"
  have ok: "candidates_ok ?sels pwoken (\<lambda>k s. s)"
    using pr.candidate_axioms by (auto simp: candidates_ok_def)
  have "map_option (\<lambda>(r, s). (r, pwoken 7 s)) (select_start 0 0 ?sels 7 9 (pwoken 7) (\<lambda>k s. s) ?s)
      = Some (Watching 1 [0], False)"
    by (simp add: select_start_def try_select_def enumeration_rotate preceiver_selectable_def
        preceiver_select_permit_def preceiver_watch_permit_def peer_selectable_defs select_recv_permit_def
        watch_recv_permit_def is_empty_def channel_new_def state_new_def)
  then obtain s' where st: "select_start 0 0 ?sels 7 9 (pwoken 7) (\<lambda>k s. s) ?s = Some (Watching 1 [0], s')"
      and asleep: "\<not> pwoken 7 s'"
    by auto
  show ?thesis using st select_sleeps_only_if_refused [OF ok st asleep] by blast
qed

end
