(* ===== verification/Select_Macro.thy ===== *)
theory Select_Macro
  imports Select_Proofs
begin

text \<open>
  The macro \<open>select!\<close> of \<open>src/src/select_macro.rs\<close>: its rules, which sort and check the clauses at
  compile time, as functions from a list of clauses to a program or a compile error, and the code
  they expand to as the meaning of that program. \<open>None\<close> is a panic of the expanded code.
\<close>

section \<open>Clauses\<close>

text \<open>
  A clause as written: what stands before \<open>=>\<close>, whether the body is a block, the body, and
  whether a comma follows. \<open>Other\<close> is a clause none of the rules of \<open>@list\<close> matches.
\<close>

datatype 'c head = Complete | Default | Operation 'c | Other

record ('c, 'b) clause =
  cl_head :: "'c head"
  cl_block :: bool
  cl_body :: 'b
  cl_comma :: bool

datatype macro_error = FailToList | MissingComma | MoreDefaults | MoreCompletes | TooManyCases

datatype ('c, 'b) mcase = CaseComplete 'b | CaseDefault 'b | CaseBranch 'c 'b

section \<open>The rules\<close>

text \<open>
  \<open>@list\<close>: in the last clause the comma is optional; elsewhere an operation with a block body may
  drop it, and \<open>default\<close> and \<open>complete\<close> may not.
\<close>

definition plain_listed :: "bool \<Rightarrow> ('c, 'b) clause \<Rightarrow> bool" where
  "plain_listed final x \<longleftrightarrow> final \<or> cl_comma x"

definition operation_listed :: "bool \<Rightarrow> ('c, 'b) clause \<Rightarrow> bool" where
  "operation_listed final x \<longleftrightarrow> cl_block x \<or> final \<or> cl_comma x"

fun list_cases :: "('c, 'b) clause list \<Rightarrow> ('c, 'b) mcase list \<Rightarrow> macro_error + ('c, 'b) mcase list" where
  "list_cases [] cases = Inr cases"
| "list_cases (x # xs) cases =
    (case cl_head x of
       Complete \<Rightarrow>
         if plain_listed (xs = []) x then list_cases xs (cases @ [CaseComplete (cl_body x)]) else Inl FailToList
     | Default \<Rightarrow>
         if plain_listed (xs = []) x then list_cases xs (cases @ [CaseDefault (cl_body x)]) else Inl FailToList
     | Operation c \<Rightarrow>
         if operation_listed (xs = []) x then list_cases xs (cases @ [CaseBranch c (cl_body x)])
         else Inl MissingComma
     | Other \<Rightarrow> Inl FailToList)"

text \<open>\<open>@case\<close>: the branches in order, and at most one \<open>default\<close> and one \<open>complete\<close>.\<close>

record ('c, 'b) verified =
  branches :: "('c \<times> 'b) list"
  default_case :: "'b option"
  complete_case :: "'b option"

fun verify_cases :: "('c, 'b) mcase list \<Rightarrow> ('c, 'b) verified \<Rightarrow> macro_error + ('c, 'b) verified" where
  "verify_cases [] v = Inr v"
| "verify_cases (CaseDefault b # cs) v =
    (if default_case v = None then verify_cases cs (v\<lparr>default_case := Some b\<rparr>) else Inl MoreDefaults)"
| "verify_cases (CaseComplete b # cs) v =
    (if complete_case v = None then verify_cases cs (v\<lparr>complete_case := Some b\<rparr>) else Inl MoreCompletes)"
| "verify_cases (CaseBranch c b # cs) v = verify_cases cs (v\<lparr>branches := branches v @ [(c, b)]\<rparr>)"

text \<open>\<open>@add\<close>: each branch takes a label; there are 32.\<close>

definition select_labels :: "nat list" where
  "select_labels = [0x00, 0x01, 0x02, 0x03, 0x04, 0x05, 0x06, 0x07, 0x08, 0x09, 0x0a, 0x0b, 0x0c, 0x0d, 0x0e,
    0x0f, 0x10, 0x11, 0x12, 0x13, 0x14, 0x15, 0x16, 0x17, 0x18, 0x19, 0x1a, 0x1b, 0x1c, 0x1d, 0x1e, 0x1f]"

fun label_branches :: "('c \<times> 'b) list \<Rightarrow> nat list \<Rightarrow> (nat \<times> 'c \<times> 'b) list \<Rightarrow>
    macro_error + (nat \<times> 'c \<times> 'b) list" where
  "label_branches [] labels cands = Inr cands"
| "label_branches (b # bs) [] cands = Inl TooManyCases"
| "label_branches (b # bs) (l # labels) cands = label_branches bs labels (cands @ [(l, b)])"

text \<open>\<open>@count\<close>\<close>

fun count_branches :: "('c \<times> 'b) list \<Rightarrow> nat" where
  "count_branches [] = 0"
| "count_branches (b # bs) = 1 + count_branches bs"

text \<open>What the macro leaves for run time.\<close>

record ('c, 'b) program =
  pr_len :: nat
  pr_candidates :: "(nat \<times> 'c \<times> 'b) list"
  pr_default :: "'b option"
  pr_complete :: "'b option"

definition expand :: "('c, 'b) clause list \<Rightarrow> macro_error + ('c, 'b) program" where
  "expand cls =
    (case list_cases cls [] of Inl e \<Rightarrow> Inl e | Inr cases \<Rightarrow>
     (case verify_cases cases \<lparr>branches = [], default_case = None, complete_case = None\<rparr> of
        Inl e \<Rightarrow> Inl e
      | Inr v \<Rightarrow>
        (case label_branches (branches v) select_labels [] of
           Inl e \<Rightarrow> Inl e
         | Inr cands \<Rightarrow> Inr \<lparr>pr_len = count_branches (branches v), pr_candidates = cands,
             pr_default = default_case v, pr_complete = complete_case v\<rparr>)))"

section \<open>The expanded code\<close>

text \<open>
  An operation: the selectable, the condition if there is one, and how its permit is consumed; a
  send evaluates its expression then, and not before.
\<close>

datatype ('s, 'v) operation =
    Recv "'s selectable" "('s \<Rightarrow> bool \<times> 's) option" "select_permit \<Rightarrow> 's \<Rightarrow> 's option"
  | Send "'s selectable" "('s \<Rightarrow> bool \<times> 's) option" "'s \<Rightarrow> 'v \<times> 's" "select_permit \<Rightarrow> 'v \<Rightarrow> 's \<Rightarrow> 's option"

fun op_selectable :: "('s, 'v) operation \<Rightarrow> 's selectable" where
  "op_selectable (Recv sl c f) = sl"
| "op_selectable (Send sl c e f) = sl"

fun op_condition :: "('s, 'v) operation \<Rightarrow> ('s \<Rightarrow> bool \<times> 's) option" where
  "op_condition (Recv sl c f) = c"
| "op_condition (Send sl c e f) = c"

fun op_consume :: "('s, 'v) operation \<Rightarrow> select_permit \<Rightarrow> 's \<Rightarrow> 's option" where
  "op_consume (Recv sl c f) p s = f p s"
| "op_consume (Send sl c e f) p s = (let (v, s') = e s in f p v s')"

definition op_enabled :: "('s, 'v) operation \<Rightarrow> 's \<Rightarrow> bool \<times> 's" where
  "op_enabled oper s = (case op_condition oper of None \<Rightarrow> (True, s) | Some f \<Rightarrow> f s)"

text \<open>The conditions, in order, fill the array of selectables.\<close>

fun enable :: "(nat \<times> ('s, 'v) operation \<times> 'b) list \<Rightarrow> 's candidates \<Rightarrow> 's \<Rightarrow> 's candidates \<times> 's" where
  "enable [] sels s = (sels, s)"
| "enable ((l, oper, b) # cands) sels s =
    (let (e, s') = op_enabled oper s in
     enable cands (if e then sels[l := Some (op_selectable oper)] else sels) s')"

text \<open>\<open>@match\<close>: the nested comparisons of the selected index; past the last one is \<open>unreachable!\<close>.\<close>

fun match_branch :: "(nat \<times> ('s, 'v) operation \<times> 'b) list \<Rightarrow> nat \<Rightarrow> select_permit \<Rightarrow> 's \<Rightarrow> ('b \<times> 's) option" where
  "match_branch [] i p s = None"
| "match_branch ((l, oper, b) # cands) i p s =
    (if i = l then map_option (Pair b) (op_consume oper p s) else match_branch cands i p s)"

text \<open>A blocking \<open>select!\<close> may go to sleep, with what is needed to go on.\<close>

datatype ('s, 'b) ran = Ran 'b | Sleeps nat "nat list" "'s candidates"

definition run_blocking :: "nat \<Rightarrow> nat \<Rightarrow> nat \<Rightarrow> nat \<Rightarrow> ('s \<Rightarrow> bool) \<Rightarrow> (nat \<Rightarrow> 's \<Rightarrow> 's) \<Rightarrow>
    (('s, 'v) operation, 'b) program \<Rightarrow> 's candidates \<Rightarrow> 's \<Rightarrow> (('s, 'b) ran \<times> 's) option" where
  "run_blocking rand rand' w ident ready env pr sels s =
    (case select_start rand rand' sels w ident ready env s of
       None \<Rightarrow> None
     | Some (Selected i p, s') \<Rightarrow>
         map_option (\<lambda>(b, s'). (Ran b, s')) (match_branch (pr_candidates pr) i p s')
     | Some (Exhausted, s') \<Rightarrow> map_option (\<lambda>b. (Ran b, s')) (pr_complete pr)
     | Some (Watching n order, s') \<Rightarrow> Some (Sleeps n order sels, s'))"

definition run_trying :: "nat \<Rightarrow> (('s, 'v) operation, 'b) program \<Rightarrow> 'b \<Rightarrow> 's candidates \<Rightarrow> 's \<Rightarrow>
    (('s, 'b) ran \<times> 's) option" where
  "run_trying rand pr d sels s =
    (case try_select rand sels s of
       None \<Rightarrow> None
     | Some (Inr (i, p), s') \<Rightarrow>
         map_option (\<lambda>(b, s'). (Ran b, s')) (match_branch (pr_candidates pr) i p s')
     | Some (Inl e, s') \<Rightarrow>
         Some (Ran (case pr_complete pr of None \<Rightarrow> d | Some c \<Rightarrow> if e = Completed then c else d), s'))"

definition run_select :: "nat \<Rightarrow> nat \<Rightarrow> nat \<Rightarrow> nat \<Rightarrow> ('s \<Rightarrow> bool) \<Rightarrow> (nat \<Rightarrow> 's \<Rightarrow> 's) \<Rightarrow>
    (('s, 'v) operation, 'b) program \<Rightarrow> 's \<Rightarrow> (('s, 'b) ran \<times> 's) option" where
  "run_select rand rand' w ident ready env pr s =
    (let (sels, s1) = enable (pr_candidates pr) (replicate (pr_len pr) None) s in
     case pr_default pr of
       None \<Rightarrow> run_blocking rand rand' w ident ready env pr sels s1
     | Some d \<Rightarrow> run_trying rand pr d sels s1)"

text \<open>A \<open>select!\<close> that slept goes on with the permit its cell was woken with.\<close>

definition resume_select :: "nat \<Rightarrow> nat \<Rightarrow> ('s \<Rightarrow> 'a wake_msg cells) \<Rightarrow> (('s, 'v) operation, 'b) program \<Rightarrow>
    nat \<Rightarrow> nat list \<Rightarrow> 's candidates \<Rightarrow> 's \<Rightarrow> (('s, 'b) ran \<times> 's) option" where
  "resume_select w ident get_cells pr n order sels s =
    (case select_finish sels w ident get_cells n order s of
       (None, s') \<Rightarrow> None
     | (Some Waits, s') \<Rightarrow> Some (Sleeps n order sels, s')
     | (Some (Return (i, p)), s') \<Rightarrow>
         map_option (\<lambda>(b, s'). (Ran b, s')) (match_branch (pr_candidates pr) i p s'))"

section \<open>What the rules accept\<close>

fun punctuated :: "('c, 'b) clause list \<Rightarrow> bool" where
  "punctuated [] = True"
| "punctuated (x # xs) \<longleftrightarrow>
    (case cl_head x of
       Other \<Rightarrow> False
     | Operation c \<Rightarrow> cl_block x \<or> cl_comma x \<or> xs = []
     | _ \<Rightarrow> cl_comma x \<or> xs = []) \<and> punctuated xs"

definition clause_ops :: "('c, 'b) clause list \<Rightarrow> ('c \<times> 'b) list" where
  "clause_ops cls = concat (map (\<lambda>x. case cl_head x of Operation c \<Rightarrow> [(c, cl_body x)] | _ \<Rightarrow> []) cls)"

definition clause_bodies :: "'c head \<Rightarrow> ('c, 'b) clause list \<Rightarrow> 'b list" where
  "clause_bodies h cls = map cl_body (filter (\<lambda>x. cl_head x = h) cls)"

definition first :: "'b list \<Rightarrow> 'b option" where
  "first bs = (case bs of [] \<Rightarrow> None | b # _ \<Rightarrow> Some b)"

definition cases_of :: "('c, 'b) clause list \<Rightarrow> ('c, 'b) mcase list" where
  "cases_of cls = concat (map (\<lambda>x. case cl_head x of Complete \<Rightarrow> [CaseComplete (cl_body x)]
    | Default \<Rightarrow> [CaseDefault (cl_body x)] | Operation c \<Rightarrow> [CaseBranch c (cl_body x)] | Other \<Rightarrow> []) cls)"

lemma list_cases_iff: "list_cases cls acc = Inr cs \<longleftrightarrow> punctuated cls \<and> cs = acc @ cases_of cls"
  by (induction cls acc rule: list_cases.induct) (auto simp: cases_of_def plain_listed_def operation_listed_def split: head.splits if_splits)

lemma verify_cases_iff:
  "verify_cases (cases_of cls) v = Inr v' \<longleftrightarrow>
    length (clause_bodies Default cls) + (if default_case v = None then 0 else 1) \<le> 1 \<and>
    length (clause_bodies Complete cls) + (if complete_case v = None then 0 else 1) \<le> 1 \<and>
    v' = v\<lparr>branches := branches v @ clause_ops cls,
      default_case := (case clause_bodies Default cls of [] \<Rightarrow> default_case v | b # _ \<Rightarrow> Some b),
      complete_case := (case clause_bodies Complete cls of [] \<Rightarrow> complete_case v | b # _ \<Rightarrow> Some b)\<rparr>"
proof (induction cls arbitrary: v)
  case Nil
  then show ?case by (auto simp: cases_of_def clause_bodies_def clause_ops_def)
next
  case (Cons x cls)
  then show ?case
    by (cases "cl_head x")
      (auto simp: cases_of_def clause_bodies_def clause_ops_def split: list.splits if_splits)
qed

lemma label_branches_iff:
  "label_branches bs [k..<m] cands = Inr r \<longleftrightarrow> k + length bs \<le> max k m \<and> r = cands @ enumerate k bs"
proof (induction bs arbitrary: k cands)
  case (Cons b bs)
  show ?case
  proof (cases "k < m")
    case True
    then show ?thesis using Cons.IH [of "Suc k" "cands @ [(k, b)]"]
      by (auto simp: upt_conv_Cons max_def)
  next
    case False
    then show ?thesis by simp
  qed
qed auto

lemma select_labels_upt: "select_labels = [0..<32]"
  by (simp add: select_labels_def upt_rec)

lemma count_branches [simp]: "count_branches bs = length bs"
  by (induction bs) simp_all

text \<open>
  C29. The rules of \<open>select!\<close> accept exactly the blocks whose clauses are punctuated, with at most one
  \<open>default\<close>, at most one \<open>complete\<close> and at most 32 operations, and then number the operations in
  the order in which they are written and keep every body with its clause.
\<close>

theorem expand_accepts_iff:
  "expand cls = Inr pr \<longleftrightarrow>
    punctuated cls \<and> length (clause_bodies Default cls) \<le> 1 \<and> length (clause_bodies Complete cls) \<le> 1 \<and>
    length (clause_ops cls) \<le> 32 \<and>
    pr = \<lparr>pr_len = length (clause_ops cls), pr_candidates = enumerate 0 (clause_ops cls),
      pr_default = first (clause_bodies Default cls), pr_complete = first (clause_bodies Complete cls)\<rparr>"
  (is "_ \<longleftrightarrow> ?ok \<and> _ \<and> _ \<and> _ \<and> pr = ?pr")
proof -
  let ?empty = "\<lparr>branches = [], default_case = None, complete_case = None\<rparr>"
  let ?v = "\<lparr>branches = clause_ops cls, default_case = first (clause_bodies Default cls),
    complete_case = first (clause_bodies Complete cls)\<rparr>"
  have v: "verify_cases (cases_of cls) ?empty = Inr v' \<longleftrightarrow>
      length (clause_bodies Default cls) \<le> 1 \<and> length (clause_bodies Complete cls) \<le> 1 \<and> v' = ?v" for v'
    by (simp add: verify_cases_iff first_def cong: list.case_cong)
  have l: "label_branches (clause_ops cls) select_labels [] = Inr r \<longleftrightarrow>
      length (clause_ops cls) \<le> 32 \<and> r = enumerate 0 (clause_ops cls)" for r
    unfolding select_labels_upt label_branches_iff by simp
  have e: "expand cls = Inr pr \<longleftrightarrow> (\<exists>cs v' r. list_cases cls [] = Inr cs \<and> verify_cases cs ?empty = Inr v' \<and>
      label_branches (branches v') select_labels [] = Inr r \<and>
      pr = \<lparr>pr_len = length (branches v'), pr_candidates = r, pr_default = default_case v',
        pr_complete = complete_case v'\<rparr>)"
    by (auto simp: expand_def split: sum.splits)
  show ?thesis
    unfolding e list_cases_iff append_Nil by (auto simp: v l)
qed

section \<open>What the expanded code does\<close>

text \<open>The conditions in order: which operations are enabled, and the state they leave.\<close>

fun enabled_ops :: "(('s, 'v) operation \<times> 'b) list \<Rightarrow> 's \<Rightarrow> 's candidates \<times> 's" where
  "enabled_ops [] s = ([], s)"
| "enabled_ops ((oper, b) # ops) s =
    (let (e, s') = op_enabled oper s; (sels, s'') = enabled_ops ops s' in
     ((if e then Some (op_selectable oper) else None) # sels, s''))"

lemma enabled_ops_length [simp]: "length (fst (enabled_ops ops s)) = length ops"
  by (induction ops arbitrary: s) (auto simp: split_def Let_def)

lemma enable_array:
  "enable (enumerate (length pre) ops) (pre @ replicate (length ops) None) s =
    (pre @ fst (enabled_ops ops s), snd (enabled_ops ops s))"
proof (induction ops arbitrary: pre s)
  case (Cons x ops)
  obtain oper b where x: "x = (oper, b)" by (cases x)
  obtain e s' where e: "op_enabled oper s = (e, s')" by (cases "op_enabled oper s")
  let ?c = "if e then Some (op_selectable oper) else None"
  show ?case using Cons.IH [of "pre @ [?c]" s']
    by (cases e) (simp_all add: x e split_def Let_def list_update_append)
qed simp

lemma match_enumerated:
  "match_branch (enumerate k ops) i p s =
    (if k \<le> i \<and> i < k + length ops
     then map_option (Pair (snd (ops ! (i - k)))) (op_consume (fst (ops ! (i - k))) p s) else None)"
proof (induction ops arbitrary: k)
  case (Cons x ops)
  show ?case using Cons.IH [of "Suc k"]
    by (cases x) (auto simp: nth_Cons' Suc_le_eq)
qed auto

lemma grant_index: "fst (grant sels s i) = Inr (j, p) \<Longrightarrow> j = i"
  by (auto simp: grant_def split_def Let_def map_sum_def split: sum.splits)

lemma find_in_order: "find P (rotate k [0..<n]) = Some i \<Longrightarrow> i < n"
  by (metis find_Some_iff atLeastLessThan_iff nth_mem set_rotate set_upt)

text \<open>
  C24. What a \<open>select!\<close> means. Its conditions are evaluated first, in order, and decide which
  operations take part. The first of these that has a permit, in an order that starts at a random
  operation, is consumed and its body run, and no other operation is touched: the arm
  \<open>unreachable!("no matching selectable")\<close> is dead. With no permit, \<open>complete\<close> runs when all of them
  are disabled or completed, \<open>default\<close> when some are not or \<open>complete\<close> is absent; with neither clause
  the code panics in the first case and watches every operation in the second. A block without any
  operation panics whatever its clauses.
\<close>

theorem select_macro_meaning:
  assumes "expand cls = Inr pr" and ops: "clause_ops cls = ops" and en: "enabled_ops ops s = (sels, s1)"
    and quiet: "all_quiet sels"
  shows "run_select rand rand' w ident ready env pr s =
    (if ops = [] then None
     else case find (offers sels s1) (rotate (rand mod length ops) [0..<length ops]) of
       Some i \<Rightarrow>
         (case grant sels s1 i of
            (Inl e, s2) \<Rightarrow> None
          | (Inr (j, p), s2) \<Rightarrow>
              map_option (\<lambda>s3. (Ran (snd (ops ! i)), s3)) (op_consume (fst (ops ! i)) p s2))
     | None \<Rightarrow>
         (let blocked = list_ex (blocks sels s1) [0..<length ops];
              order = rotate (rand' mod length ops) [0..<length ops] in
          case (first (clause_bodies Default cls), first (clause_bodies Complete cls)) of
            (Some d, None) \<Rightarrow> Some (Ran d, s1)
          | (Some d, Some c) \<Rightarrow> Some (Ran (if blocked then d else c), s1)
          | (None, c) \<Rightarrow>
              if blocked then
                map_option (\<lambda>(n, s2). (Sleeps n order sels, s2))
                  (watch_loop sels (\<lambda>i. \<lparr>sel_index = i, sel_waker = w, sel_ident = ident\<rparr>) ready env order 0 s1)
              else map_option (\<lambda>b. (Ran b, s1)) c))"
proof -
  have pr: "pr = \<lparr>pr_len = length ops, pr_candidates = enumerate 0 ops,
      pr_default = first (clause_bodies Default cls), pr_complete = first (clause_bodies Complete cls)\<rparr>"
    using assms(1) ops by (simp add: expand_accepts_iff)
  have "enable (enumerate 0 ops) (replicate (length ops) None) s = (sels, s1)"
    using enable_array [of "[]" ops s] en by simp
  then have run: "run_select rand rand' w ident ready env pr s =
    (case first (clause_bodies Default cls) of
       None \<Rightarrow> run_blocking rand rand' w ident ready env pr sels s1
     | Some d \<Rightarrow> run_trying rand pr d sels s1)"
    unfolding run_select_def pr by simp
  have fields: "pr_candidates pr = enumerate 0 ops" "pr_complete pr = first (clause_bodies Complete cls)"
    by (simp_all add: pr)
  have len: "length sels = length ops" using enabled_ops_length [of ops s] en by simp
  note tried = try_select_first_ready [OF quiet, of rand s1, unfolded len]
  show ?thesis
  proof (cases "ops = []")
    case True
    have "try_select rand sels s1 = None"
      using True len by (simp add: try_select_def enumeration_def enumerator_new_def)
    then show ?thesis
      by (simp add: True run run_blocking_def run_trying_def select_start_def split: option.split)
  next
    case False
    have order: "enumeration rand' (length sels) = Some (rotate (rand' mod length ops) [0..<length ops])"
      using False len by (simp add: enumeration_rotate)
    have ne: "sels \<noteq> []" using False len by auto
    show ?thesis
    proof (cases "find (offers sels s1) (rotate (rand mod length ops) [0..<length ops])")
      case None
      show ?thesis using False ne
        by (simp add: run run_blocking_def run_trying_def select_start_def tried None order fields Let_def
            option.map_comp comp_def split_def split: option.split)
    next
      case (Some i)
      have i: "offers sels s1 i" "i < length ops"
        using Some find_in_order [OF Some] by (auto simp: find_Some_iff)
      obtain p s2 where g: "grant sels s1 i = (Inr (i, p), s2)" using grant_offers [OF i(1)] by blast
      show ?thesis using False ne i(2)
        by (simp add: run run_blocking_def run_trying_def select_start_def tried Some g fields match_enumerated
            option.map_comp comp_def split: option.split)
    qed
  qed
qed

text \<open>Receiving from a queue of values, with a disabled operation and a \<open>complete\<close> clause.\<close>

definition queue_select :: "((nat list \<times> nat wake_msg cells, unit) operation, string) clause list" where
  "queue_select =
    [\<lparr>cl_head = Operation (Recv never None (\<lambda>p s. None)), cl_block = True, cl_body = ''never'', cl_comma = False\<rparr>,
     \<lparr>cl_head = Operation (Recv (deque_selectable fst own_apply) (Some (\<lambda>s. (True, s)))
        (\<lambda>p s. map_option (\<lambda>(v, vs). (vs, snd s)) (deque_consume (fst s)))),
      cl_block = False, cl_body = ''value'', cl_comma = True\<rparr>,
     \<lparr>cl_head = Complete, cl_block = False, cl_body = ''complete'', cl_comma = False\<rparr>]"

lemma select_macro_meaning_witness:
  "\<exists>pr. expand queue_select = Inr pr \<and>
    run_select 0 0 0 0 (\<lambda>s. False) (\<lambda>k s. s) pr ([5], \<lambda>w. Pending) = Some (Ran ''value'', ([], \<lambda>w. Pending))"
proof -
  let ?ops = "clause_ops queue_select"
  let ?s = "([5], \<lambda>w. Pending) :: nat list \<times> nat wake_msg cells"
  let ?sels = "[Some never, Some (deque_selectable fst own_apply)]"
  obtain pr where pr: "expand queue_select = Inr pr"
    by (simp add: expand_accepts_iff queue_select_def clause_bodies_def clause_ops_def)
  have en: "enabled_ops ?ops ?s = (?sels, ?s)"
    by (simp add: queue_select_def clause_ops_def op_enabled_def)
  have quiet: "all_quiet ?sels"
    using nv.is_quiet dq.is_quiet by (auto simp: all_quiet_def)
  have order: "rotate (0 mod length ?ops) [0..<length ?ops] = [0, 1]"
    by (simp add: queue_select_def clause_ops_def upt_rec)
  have f: "find (offers ?sels ?s) [0, 1] = Some (Suc 0)"
    by (simp add: offers_def never_def deque_selectable_def)
  have g: "grant ?sels ?s (Suc 0) = (Inr (Suc 0, permit_default), ?s)"
    by (simp add: grant_def deque_selectable_def)
  have "run_select 0 0 0 0 (\<lambda>s. False) (\<lambda>k s. s) pr ?s = Some (Ran ''value'', ([], \<lambda>w. Pending))"
    unfolding select_macro_meaning [OF pr refl en quiet] order f
    by (simp add: g queue_select_def clause_ops_def deque_consume_def)
  then show ?thesis using pr by blast
qed

text \<open>
  A \<open>select!\<close> whose only clause is \<open>default\<close> compiles, and panics when run instead of running
  it: the enumerator takes a remainder modulo the number of operations. So does an empty block, for
  which the macro's compile error cannot be reached.
\<close>

theorem branchless_select_panics:
  "let cls = [\<lparr>cl_head = Default, cl_block = blk, cl_body = b, cl_comma = c\<rparr>] in
   (case expand cls of Inl e \<Rightarrow> False | Inr pr \<Rightarrow> run_select rand rand' w ident ready env pr s = None) \<and>
   (case expand [] of Inl e \<Rightarrow> False
    | Inr pr \<Rightarrow> pr_len pr = 0 \<and> run_select rand rand' w ident ready env (pr :: (('s, 'v) operation, 'b) program) s = None)"
  by (simp add: expand_def plain_listed_def run_select_def run_trying_def run_blocking_def select_start_def try_select_def
      enumeration_def enumerator_new_def)

end
