(* ===== verification/Suspension.thy ===== *)
theory Suspension
  imports Selectors
begin

text \<open>
  \<open>src/src/coroutine/suspension.rs\<close>: the pair with which a coroutine waits for a value inside its
  task, and the join handle of a coroutine built on it. All of it runs in one task, so an operation
  is atomic. Resuming a coroutine and applying a selector are recorded in the state; \<open>None\<close> is a
  panic (\<open>unreachable!\<close> or an assertion).
\<close>

datatype 'v susp_state =
    SEmpty
  | SValue 'v
  | SPanicked panic_error
  | SJoining nat
  | SSelecting selector
  | SJoined

record 'v susp =
  sp_state :: "'v susp_state"
  sp_wakers :: nat
  sp_resumed :: "nat list"              \<comment> \<open>the coroutines given to \<open>Task::resume\<close>\<close>
  sp_cells :: "'v wake_msg cells"       \<comment> \<open>the cells of selects\<close>

definition susp_new :: "'v susp" where
  "susp_new = \<lparr>sp_state = SEmpty, sp_wakers = 1, sp_resumed = [], sp_cells = (\<lambda>_. Pending)\<rparr>"

fun susp_ready :: "'v susp_state \<Rightarrow> bool" where
  "susp_ready (SValue v) = True"
| "susp_ready (SPanicked e) = True"
| "susp_ready _ = False"

definition susp_is_ready :: "'v susp \<Rightarrow> bool" where
  "susp_is_ready s = susp_ready (sp_state s)"

text \<open>A state that no wake-up changes any more.\<close>

definition susp_final :: "'v susp_state \<Rightarrow> bool" where
  "susp_final st \<longleftrightarrow> susp_ready st \<or> st = SJoined"

definition wake_coroutine :: "nat \<Rightarrow> 'v susp \<Rightarrow> 'v susp" where
  "wake_coroutine co s = s\<lparr>sp_resumed := sp_resumed s @ [co]\<rparr>"

definition susp_apply :: "selector \<Rightarrow> 'v susp \<Rightarrow> 'v susp" where
  "susp_apply sel s = s\<lparr>sp_cells := snd (selector_apply sel permit_default (sp_cells s))\<rparr>"

definition susp_add_waker :: "'v susp \<Rightarrow> 'v susp" where
  "susp_add_waker s = s\<lparr>sp_wakers := sp_wakers s + 1\<rparr>"

definition susp_cancel :: "panic_error \<Rightarrow> 'v susp \<Rightarrow> nat option \<times> 'v susp" where
  "susp_cancel err s =
    (if susp_final (sp_state s) then (None, s)
     else
       (let s1 = s\<lparr>sp_state := SPanicked err\<rparr> in
        case sp_state s of
          SJoining co \<Rightarrow> (Some co, s1)
        | SSelecting sel \<Rightarrow> (None, susp_apply sel s1)
        | _ \<Rightarrow> (None, s1)))"

definition susp_fault :: "panic_error \<Rightarrow> 'v susp \<Rightarrow> 'v susp" where
  "susp_fault err s =
    (case susp_cancel err s of (Some co, s1) \<Rightarrow> wake_coroutine co s1 | (None, s1) \<Rightarrow> s1)"

definition susp_remove_waker :: "'v susp \<Rightarrow> 'v susp option" where
  "susp_remove_waker s =
    (case dec_usize (sp_wakers s) of
       None \<Rightarrow> None
     | Some n \<Rightarrow>
       (let s1 = s\<lparr>sp_wakers := n\<rparr> in
        Some (if n = 0 then susp_fault (Static ''suspend: no resumption'') s1 else s1)))"

definition susp_wake :: "'v \<Rightarrow> 'v susp \<Rightarrow> ('v + unit) \<times> 'v susp" where
  "susp_wake v s =
    (if susp_final (sp_state s) then (Inl v, s)
     else
       (let s1 = s\<lparr>sp_state := SValue v\<rparr> in
        case sp_state s of
          SJoining co \<Rightarrow> (Inr (), wake_coroutine co s1)
        | SSelecting sel \<Rightarrow> (Inr (), susp_apply sel s1)
        | _ \<Rightarrow> (Inr (), s1)))"

text \<open>\<open>Yielding::interrupt\<close>: the task that interrupts resumes the coroutine itself.\<close>

definition susp_interrupt :: "string \<Rightarrow> 'v susp \<Rightarrow> bool \<times> 'v susp" where
  "susp_interrupt reason s = (True, snd (susp_cancel (Static reason) s))"

fun susp_set_result :: "payload + 'v \<Rightarrow> 'v susp \<Rightarrow> 'v susp" where
  "susp_set_result (Inr v) s = snd (susp_wake v s)"
| "susp_set_result (Inl err) s = susp_fault (Unwind err) s"

definition susp_watch_permit :: "selector \<Rightarrow> 'v susp \<Rightarrow> (bool \<times> 'v susp) option" where
  "susp_watch_permit sel s =
    (case sp_state s of
       SValue v \<Rightarrow> Some (True, susp_apply sel s)
     | SPanicked e \<Rightarrow> Some (True, susp_apply sel s)
     | SJoined \<Rightarrow> Some (True, susp_apply sel s)
     | SJoining co \<Rightarrow> None
     | SSelecting sel' \<Rightarrow> None
     | SEmpty \<Rightarrow> Some (False, s\<lparr>sp_state := SSelecting sel\<rparr>))"

definition susp_unwatch_permit :: "nat \<Rightarrow> 'v susp \<Rightarrow> 'v susp option" where
  "susp_unwatch_permit ident s =
    (case sp_state s of
       SSelecting sel \<Rightarrow> if identify sel ident then Some (s\<lparr>sp_state := SEmpty\<rparr>) else None
     | _ \<Rightarrow> Some s)"

definition susp_take :: "'v susp \<Rightarrow> ((panic_error + 'v) \<times> 'v susp) option" where
  "susp_take s =
    (let s1 = s\<lparr>sp_state := SJoined\<rparr> in
     case sp_state s of
       SValue v \<Rightarrow> Some (Inr v, s1)
     | SPanicked e \<Rightarrow> Some (Inl e, s1)
     | _ \<Rightarrow> None)"

definition susp_consume_permit :: "'v susp \<Rightarrow> ((panic_error + 'v) \<times> 'v susp) option" where
  "susp_consume_permit s = susp_take s"

text \<open>
  \<open>join\<close> up to its suspension; what follows the suspension is \<open>susp_take\<close>. On a value that is
  already there the state stays \<open>Joining\<close>, as the code leaves it.
\<close>

definition susp_join :: "nat \<Rightarrow> 'v susp \<Rightarrow> ((panic_error + 'v) outcome \<times> 'v susp) option" where
  "susp_join co s =
    (let s1 = s\<lparr>sp_state := SJoining co\<rparr> in
     case sp_state s of
       SEmpty \<Rightarrow> Some (Waits, s1)
     | SValue v \<Rightarrow> Some (Return (Inr v), s1)
     | SPanicked e \<Rightarrow> Some (Return (Inl e), s1)
     | _ \<Rightarrow> None)"

section \<open>The handles\<close>

text \<open>\<open>suspend\<close> unwinds with the payload of the error.\<close>

definition suspend_result :: "panic_error + 'v \<Rightarrow> payload + 'v" where
  "suspend_result r = (case r of Inr v \<Rightarrow> Inr v | Inl (Unwind p) \<Rightarrow> Inl p | Inl (Static m) \<Rightarrow> Inl (PStr m))"

definition suspension_drop :: "'v susp \<Rightarrow> 'v susp" where
  "suspension_drop s = snd (susp_cancel (Static ''suspension dropped'') s)"

definition resumption_resume :: "'v \<Rightarrow> 'v susp \<Rightarrow> bool \<times> 'v susp" where
  "resumption_resume v s = (let (r, s1) = susp_wake v s in (\<not> isl r, s1))"

definition resumption_send :: "'v \<Rightarrow> 'v susp \<Rightarrow> ('v + unit) \<times> 'v susp" where
  "resumption_send v s = susp_wake v s"

definition resumption_set_result :: "payload + 'v \<Rightarrow> 'v susp \<Rightarrow> 'v susp" where
  "resumption_set_result r s = susp_set_result r s"

definition resumption_clone :: "'v susp \<Rightarrow> 'v susp" where
  "resumption_clone s = susp_add_waker s"

definition resumption_drop :: "'v susp \<Rightarrow> 'v susp option" where
  "resumption_drop s = susp_remove_waker s"

text \<open>
  The join handle of a coroutine: a flag for \<open>Option<Suspension>\<close> next to the joint. Taking the
  suspension clears it.
\<close>

definition join_handle_join :: "nat \<Rightarrow> bool \<times> 'v susp \<Rightarrow> ((panic_error + 'v) outcome \<times> bool \<times> 'v susp) option" where
  "join_handle_join co h =
    (if fst h then map_option (\<lambda>(r, s). (r, False, s)) (susp_join co (snd h)) else None)"

definition join_handle_select_permit :: "bool \<times> 'v susp \<Rightarrow> try_select_error + select_permit" where
  "join_handle_select_permit h =
    (if fst h then (if susp_is_ready (snd h) then Inr permit_default else Inl WouldBlock) else Inl Completed)"

definition join_handle_watch_permit :: "selector \<Rightarrow> bool \<times> 'v susp \<Rightarrow> (bool \<times> bool \<times> 'v susp) option" where
  "join_handle_watch_permit sel h =
    (if fst h then map_option (\<lambda>(b, s). (b, True, s)) (susp_watch_permit sel (snd h)) else Some (False, h))"

definition join_handle_unwatch_permit :: "nat \<Rightarrow> bool \<times> 'v susp \<Rightarrow> (bool \<times> 'v susp) option" where
  "join_handle_unwatch_permit ident h =
    (if fst h then map_option (Pair True) (susp_unwatch_permit ident (snd h)) else Some h)"

definition join_handle_consume_permit :: "bool \<times> 'v susp \<Rightarrow> ((panic_error + 'v) \<times> bool \<times> 'v susp) option" where
  "join_handle_consume_permit h =
    (if fst h then map_option (\<lambda>(r, s). (r, False, s)) (susp_consume_permit (snd h)) else None)"

end
