(* ===== verification/Suspension_Correct.thy ===== *)
theory Suspension_Correct
  imports Suspension
begin

text \<open>
  Histories of one suspension: its resumptions resumed, cloned, dropped, and its holder watching,
  joining, interrupted, in any order ownership allows.
\<close>

section \<open>A one-shot cell\<close>

fun susp_view :: "'v susp_state \<Rightarrow> 'v cell" where
  "susp_view (SValue v) = Woken v"
| "susp_view (SPanicked e) = Dead"
| "susp_view SJoined = Dead"
| "susp_view _ = Pending"

interpretation resumption: one_shot resumption_resume "\<lambda>s. susp_view (sp_state s)" "\<lambda>s. True"
  by unfold_locales
    (auto simp: resumption_resume_def susp_wake_def susp_final_def susp_apply_def wake_coroutine_def Let_def
      split: susp_state.splits)

section \<open>Histories\<close>

text \<open>
  What the holder of the suspension does: it holds it, has a select watch it, waits in \<open>join\<close>, has
  got its result, or has dropped it.
\<close>

datatype 'v phase = PHeld | PWatched nat | PWaiting nat | PReturned "panic_error + 'v" | PGone

record 'v sp_conf =
  sp_joint :: "'v susp"
  sp_live :: nat                \<comment> \<open>resumptions in hand\<close>
  sp_phase :: "'v phase"
  sp_accepted :: "'v list"      \<comment> \<open>the values whose sender was told \<open>Ok\<close>\<close>
  sp_interrupted :: bool

datatype 'v sp_op =
    SpResume 'v
  | SpSetResult "payload + 'v"
  | SpClone
  | SpDrop
  | SpWatch selector
  | SpUnwatch
  | SpJoin nat
  | SpFinish
  | SpInterrupt string
  | SpConsume
  | SpDropSuspension

definition sp_conf_new :: "'v sp_conf" where
  "sp_conf_new = \<lparr>sp_joint = susp_new, sp_live = 1, sp_phase = PHeld, sp_accepted = [], sp_interrupted = False\<rparr>"

text \<open>What ownership and the scheduler allow: a waiting coroutine runs again once its value is there.\<close>

fun sp_allowed :: "'v sp_op \<Rightarrow> 'v sp_conf \<Rightarrow> bool" where
  "sp_allowed (SpResume v) c = (0 < sp_live c)"
| "sp_allowed (SpSetResult r) c = (0 < sp_live c)"
| "sp_allowed SpClone c = (0 < sp_live c)"
| "sp_allowed SpDrop c = (0 < sp_live c)"
| "sp_allowed (SpWatch sel) c = (sp_phase c = PHeld)"
| "sp_allowed SpUnwatch c = (case sp_phase c of PWatched i \<Rightarrow> True | _ \<Rightarrow> False)"
| "sp_allowed (SpJoin co) c = (sp_phase c = PHeld)"
| "sp_allowed SpFinish c = (case sp_phase c of PWaiting co \<Rightarrow> susp_is_ready (sp_joint c) | _ \<Rightarrow> False)"
| "sp_allowed (SpInterrupt m) c = (case sp_phase c of PWaiting co \<Rightarrow> True | _ \<Rightarrow> False)"
| "sp_allowed SpConsume c = (sp_phase c = PHeld \<and> susp_is_ready (sp_joint c))"
| "sp_allowed SpDropSuspension c = (sp_phase c = PHeld)"

fun sp_step :: "'v sp_op \<Rightarrow> 'v sp_conf \<Rightarrow> 'v sp_conf option" where
  "sp_step (SpResume v) c =
    (let (b, s) = resumption_resume v (sp_joint c) in
     Some (c\<lparr>sp_joint := s, sp_live := sp_live c - 1, sp_accepted := sp_accepted c @ (if b then [v] else [])\<rparr>))"
| "sp_step (SpSetResult r) c =
    (let acc = (case r of Inr v \<Rightarrow> if fst (resumption_resume v (sp_joint c)) then [v] else [] | Inl p \<Rightarrow> []) in
     Some (c\<lparr>sp_joint := resumption_set_result r (sp_joint c), sp_live := sp_live c - 1,
       sp_accepted := sp_accepted c @ acc\<rparr>))"
| "sp_step SpClone c = Some (c\<lparr>sp_joint := resumption_clone (sp_joint c), sp_live := sp_live c + 1\<rparr>)"
| "sp_step SpDrop c =
    map_option (\<lambda>s. c\<lparr>sp_joint := s, sp_live := sp_live c - 1\<rparr>) (resumption_drop (sp_joint c))"
| "sp_step (SpWatch sel) c =
    map_option (\<lambda>(b, s). c\<lparr>sp_joint := s, sp_phase := (if b then PHeld else PWatched (sel_ident sel))\<rparr>)
      (susp_watch_permit sel (sp_joint c))"
| "sp_step SpUnwatch c =
    (case sp_phase c of
       PWatched i \<Rightarrow> map_option (\<lambda>s. c\<lparr>sp_joint := s, sp_phase := PHeld\<rparr>) (susp_unwatch_permit i (sp_joint c))
     | _ \<Rightarrow> None)"
| "sp_step (SpJoin co) c =
    map_option (\<lambda>(r, s). c\<lparr>sp_joint := s,
        sp_phase := (case r of Waits \<Rightarrow> PWaiting co | Return x \<Rightarrow> PReturned x)\<rparr>)
      (susp_join co (sp_joint c))"
| "sp_step SpFinish c = map_option (\<lambda>(r, s). c\<lparr>sp_joint := s, sp_phase := PReturned r\<rparr>) (susp_take (sp_joint c))"
| "sp_step (SpInterrupt m) c = Some (c\<lparr>sp_joint := snd (susp_interrupt m (sp_joint c)),
      sp_interrupted := sp_interrupted c \<or> \<not> susp_is_ready (sp_joint c)\<rparr>)"
| "sp_step SpConsume c =
    map_option (\<lambda>(r, s). c\<lparr>sp_joint := s, sp_phase := PReturned r\<rparr>) (susp_consume_permit (sp_joint c))"
| "sp_step SpDropSuspension c = Some (c\<lparr>sp_joint := suspension_drop (sp_joint c), sp_phase := PGone\<rparr>)"

fun sp_run :: "'v sp_op list \<Rightarrow> 'v sp_conf \<Rightarrow> 'v sp_conf option" where
  "sp_run [] c = Some c"
| "sp_run (x # xs) c = (case sp_step x c of None \<Rightarrow> None | Some c' \<Rightarrow> sp_run xs c')"

fun sp_allowed_run :: "'v sp_op list \<Rightarrow> 'v sp_conf \<Rightarrow> bool" where
  "sp_allowed_run [] c = True"
| "sp_allowed_run (x # xs) c =
    (sp_allowed x c \<and> (case sp_step x c of None \<Rightarrow> True | Some c' \<Rightarrow> sp_allowed_run xs c'))"

section \<open>The invariant\<close>

text \<open>What state goes with which phase, and what has been accepted by then.\<close>

fun phase_ok :: "'v phase \<Rightarrow> 'v susp_state \<Rightarrow> bool" where
  "phase_ok PHeld st \<longleftrightarrow> st = SEmpty \<or> susp_ready st"
| "phase_ok (PWatched i) st \<longleftrightarrow> (\<exists>sel. st = SSelecting sel \<and> sel_ident sel = i) \<or> susp_ready st"
| "phase_ok (PWaiting co) st \<longleftrightarrow> st = SJoining co \<or> susp_ready st"
| "phase_ok (PReturned r) st \<longleftrightarrow> st = SJoined \<or> (\<exists>co. st = SJoining co) \<or> susp_ready st"
| "phase_ok PGone st \<longleftrightarrow> susp_ready st"

fun taken_ok :: "'v phase \<Rightarrow> 'v susp_state \<Rightarrow> 'v list \<Rightarrow> bool" where
  "taken_ok (PReturned r) st acc \<longleftrightarrow> (case r of Inr v \<Rightarrow> acc \<noteq> [] \<and> hd acc = v | Inl e \<Rightarrow> True)"
| "taken_ok _ st acc \<longleftrightarrow> (case st of SValue v \<Rightarrow> acc = [v] | _ \<Rightarrow> acc = [])"

definition sp_ok :: "'v sp_conf \<Rightarrow> bool" where
  "sp_ok c \<longleftrightarrow> sp_live c \<le> sp_wakers (sp_joint c) \<and>
    phase_ok (sp_phase c) (sp_state (sp_joint c)) \<and>
    taken_ok (sp_phase c) (sp_state (sp_joint c)) (sp_accepted c)"

text \<open>Nobody waits for resumptions that are all gone, and a coroutine whose value is there is resumed.\<close>

definition sp_waits_ok :: "'v sp_conf \<Rightarrow> bool" where
  "sp_waits_ok c \<longleftrightarrow>
    (case sp_phase c of
       PReturned r \<Rightarrow> True
     | ph \<Rightarrow> (\<not> susp_ready (sp_state (sp_joint c)) \<longrightarrow> sp_wakers (sp_joint c) = sp_live c \<and> 0 < sp_live c \<and>
           \<not> sp_interrupted c) \<and>
         sp_resumed (sp_joint c) =
           (case ph of PWaiting co \<Rightarrow> if susp_ready (sp_state (sp_joint c)) \<and> \<not> sp_interrupted c then [co] else [] | _ \<Rightarrow> []))"

lemmas sp_defs = sp_ok_def sp_waits_ok_def susp_is_ready_def susp_final_def Let_def

lemmas sp_splits = susp_state.splits phase.splits sum.splits if_splits

lemma susp_wake_ok:
  assumes "sp_ok c" "sp_waits_ok c" "0 < sp_live c" "susp_wake v (sp_joint c) = (r, s)"
    and "c' = c\<lparr>sp_joint := s, sp_live := sp_live c - 1, sp_accepted := sp_accepted c @ (if isl r then [] else [v])\<rparr>"
  shows "sp_ok c' \<and> sp_waits_ok c'"
  using assms
  by (cases "sp_state (sp_joint c)"; cases "sp_phase c")
    (auto simp: sp_defs susp_wake_def wake_coroutine_def susp_apply_def split: sum.splits)

lemma susp_fault_ok:
  assumes "sp_ok c" "sp_waits_ok c" "m \<le> n" "m \<le> sp_live c"
    and "c' = c\<lparr>sp_joint := (susp_fault e (sp_joint c))\<lparr>sp_wakers := n\<rparr>, sp_live := m\<rparr>"
  shows "sp_ok c' \<and> sp_waits_ok c'"
  using assms
  by (cases "sp_state (sp_joint c)"; cases "sp_phase c")
    (auto simp: sp_defs susp_fault_def susp_cancel_def wake_coroutine_def susp_apply_def split: sum.splits)

lemma sp_step_ok:
  assumes ok: "sp_ok c" "sp_waits_ok c" and al: "sp_allowed x c"
  shows "\<exists>c'. sp_step x c = Some c' \<and> sp_ok c' \<and> sp_waits_ok c'"
proof (cases x)
  case (SpResume v)
  obtain r s where w: "susp_wake v (sp_joint c) = (r, s)" by (cases "susp_wake v (sp_joint c)")
  show ?thesis using susp_wake_ok [OF ok _ w refl] al SpResume w
    by (cases "isl r") (simp_all add: resumption_resume_def)
next
  case (SpSetResult q)
  show ?thesis
  proof (cases q)
    case (Inr v)
    obtain r s where w: "susp_wake v (sp_joint c) = (r, s)" by (cases "susp_wake v (sp_joint c)")
    show ?thesis using susp_wake_ok [OF ok _ w refl] al SpSetResult Inr w
      by (cases "isl r") (simp_all add: resumption_resume_def resumption_set_result_def)
  next
    case (Inl e)
    have f: "sp_wakers (susp_fault (Unwind e) (sp_joint c)) = sp_wakers (sp_joint c)"
      by (auto simp: susp_fault_def susp_cancel_def wake_coroutine_def susp_apply_def Let_def split: susp_state.split)
    let ?s = "susp_fault (Unwind e) (sp_joint c)"
    let ?c = "c\<lparr>sp_joint := ?s\<lparr>sp_wakers := sp_wakers ?s\<rparr>, sp_live := sp_live c - 1\<rparr>"
    have "sp_live c - 1 \<le> sp_wakers ?s"
      using ok(1) unfolding f sp_ok_def by linarith
    then have "sp_ok ?c \<and> sp_waits_ok ?c" by (rule susp_fault_ok [OF ok _ _ refl]) simp
    moreover have "sp_step x c = Some ?c"
      using SpSetResult Inl by (simp add: resumption_set_result_def)
    ultimately show ?thesis by blast
  qed
next
  case SpClone
  then show ?thesis using ok al
    by (auto simp: sp_defs resumption_clone_def susp_add_waker_def split: phase.splits)
next
  case SpDrop
  have live: "0 < sp_live c" "sp_live c \<le> sp_wakers (sp_joint c)" using al SpDrop ok(1) by (simp_all add: sp_ok_def)
  then obtain n where n: "sp_wakers (sp_joint c) = Suc n" by (cases "sp_wakers (sp_joint c)") auto
  show ?thesis
  proof (cases "n = 0")
    case True
    let ?s = "susp_fault (Static ''suspend: no resumption'') (sp_joint c\<lparr>sp_wakers := 0\<rparr>)"
    have f: "?s = (susp_fault (Static ''suspend: no resumption'') (sp_joint c))\<lparr>sp_wakers := 0\<rparr>"
      by (auto simp: susp_fault_def susp_cancel_def wake_coroutine_def susp_apply_def susp_final_def Let_def
          split: susp_state.split)
    have "sp_live c - 1 \<le> 0" using live n True by simp
    from susp_fault_ok [OF ok this _ refl] show ?thesis
      using SpDrop n True by (simp add: resumption_drop_def susp_remove_waker_def f)
  next
    case False
    then show ?thesis using SpDrop ok live n
      by (auto simp: sp_defs resumption_drop_def susp_remove_waker_def split: phase.splits)
  qed
next
  case (SpWatch sel)
  then show ?thesis using ok al
    by (cases "sp_state (sp_joint c)") (auto simp: sp_defs susp_watch_permit_def susp_apply_def)
next
  case SpUnwatch
  then show ?thesis using ok al
    by (cases "sp_state (sp_joint c)")
      (auto simp: sp_defs susp_unwatch_permit_def identify_def split: phase.splits)
next
  case (SpJoin co)
  then show ?thesis using ok al
    by (cases "sp_state (sp_joint c)") (auto simp: sp_defs susp_join_def)
next
  case SpFinish
  then show ?thesis using ok al
    by (cases "sp_state (sp_joint c)") (auto simp: sp_defs susp_take_def split: phase.splits)
next
  case (SpInterrupt m)
  then show ?thesis using ok al
    by (cases "sp_state (sp_joint c)")
      (auto simp: sp_defs susp_interrupt_def susp_cancel_def split: phase.splits)
next
  case SpConsume
  then show ?thesis using ok al
    by (cases "sp_state (sp_joint c)") (auto simp: sp_defs susp_consume_permit_def susp_take_def)
next
  case SpDropSuspension
  then show ?thesis using ok al
    by (cases "sp_state (sp_joint c)")
      (auto simp: sp_defs suspension_drop_def susp_cancel_def)
qed

lemma sp_run_ok:
  "sp_ok c \<Longrightarrow> sp_waits_ok c \<Longrightarrow> sp_allowed_run xs c \<Longrightarrow> \<exists>c'. sp_run xs c = Some c' \<and> sp_ok c' \<and> sp_waits_ok c'"
proof (induction xs arbitrary: c)
  case (Cons x xs)
  then have al: "sp_allowed x c" by simp
  obtain c' where c': "sp_step x c = Some c'" "sp_ok c'" "sp_waits_ok c'"
    using sp_step_ok [OF Cons.prems(1,2) al] by blast
  then show ?case using Cons.IH [OF c'(2,3)] Cons.prems(3) by simp
qed simp

section \<open>Properties\<close>



text \<open>
  The guarantee ends where the wait returns at once. When the value is there before the wait, the
  code leaves the state \<open>Joining\<close> behind: a second resumption is then told \<open>Ok\<close> for a value nobody
  will ever take, and resumes the coroutine, which by then may wait for something else.
\<close>

theorem late_resumption_accepted:
  "case sp_run [SpClone, SpResume v, SpJoin co, SpResume u] sp_conf_new of
     None \<Rightarrow> False
   | Some c \<Rightarrow> sp_phase c = PReturned (Inr v) \<and> sp_accepted c = [v, u] \<and> sp_resumed (sp_joint c) = [co]"
  by (simp add: sp_conf_new_def susp_new_def resumption_clone_def susp_add_waker_def susp_join_def
      resumption_resume_def susp_wake_def susp_final_def wake_coroutine_def)

end
