(* ===== verification/Parker.thy ===== *)
theory Parker
  imports Selectors
begin

text \<open>
  \<open>src/src/select/thread.rs\<close>: a select on a thread outside the runtime waits with a \<open>Parker\<close> and is
  woken through its \<open>Unparker\<close>s. The state is behind a mutex, so every critical section is atomic;
  the thread's park token is part of the model. \<open>None\<close> is a panic of the code's own making.
\<close>

datatype 'v pvalue = VEmpty | VReady 'v | VPanic panic_error | VJoined | VCancelled

record 'v parker =
  pk_unparkers :: nat
  pk_value :: "'v pvalue"
  pk_token :: bool     \<comment> \<open>\<open>Thread::unpark\<close> was called and \<open>park\<close> has not taken it\<close>

definition parker_new :: "'v parker" where
  "parker_new = \<lparr>pk_unparkers = 1, pk_value = VEmpty, pk_token = False\<rparr>"

text \<open>
  One turn of the loop of \<open>Parker::park\<close>: an empty value is put back and the thread parks, \<open>Waits\<close>;
  a value is returned; a panic is raised again.
\<close>

definition park_turn :: "'v parker \<Rightarrow> ((payload + 'v) outcome \<times> 'v parker) option" where
  "park_turn s =
    (let s1 = s\<lparr>pk_value := VJoined\<rparr> in
     case pk_value s of
       VEmpty \<Rightarrow> Some (Waits, s1\<lparr>pk_value := VEmpty\<rparr>)
     | VJoined \<Rightarrow> None
     | VCancelled \<Rightarrow> None
     | VReady v \<Rightarrow> Some (Return (Inr v), s1)
     | VPanic e \<Rightarrow> Some (Return (Inl (panic_resume e)), s1))"

definition parker_is_ready :: "'v parker \<Rightarrow> bool" where
  "parker_is_ready s = (case pk_value s of VReady v \<Rightarrow> True | VPanic e \<Rightarrow> True | _ \<Rightarrow> False)"

definition parker_drop :: "'v parker \<Rightarrow> 'v parker" where
  "parker_drop s = (if pk_value s = VEmpty then s\<lparr>pk_value := VCancelled\<rparr> else s)"

definition unpark :: "'v \<Rightarrow> 'v parker \<Rightarrow> bool \<times> 'v parker" where
  "unpark v s =
    (case pk_value s of
       VEmpty \<Rightarrow> (True, s\<lparr>pk_value := VReady v, pk_token := True\<rparr>)
     | _ \<Rightarrow> (False, s))"

definition unparker_drop :: "'v parker \<Rightarrow> 'v parker option" where
  "unparker_drop s =
    (case dec_usize (pk_unparkers s) of
       None \<Rightarrow> None
     | Some n \<Rightarrow>
       (let s1 = s\<lparr>pk_unparkers := n\<rparr> in
        Some (if n = 0 \<and> pk_value s = VEmpty
              then s1\<lparr>pk_value := VPanic (Static ''all unparkers dropped''), pk_token := True\<rparr> else s1)))"

definition unparker_clone :: "'v parker \<Rightarrow> 'v parker" where
  "unparker_clone s = s\<lparr>pk_unparkers := pk_unparkers s + 1\<rparr>"

section \<open>A one-shot cell\<close>

fun pvalue_view :: "'v pvalue \<Rightarrow> 'v cell" where
  "pvalue_view VEmpty = Pending"
| "pvalue_view (VReady v) = Woken v"
| "pvalue_view _ = Dead"

interpretation unparker: one_shot unpark "\<lambda>s. pvalue_view (pk_value s)" "\<lambda>s. True"
  by unfold_locales (auto simp: unpark_def split: pvalue.splits)

section \<open>Histories\<close>

datatype 'v park_phase = KHeld | KParked | KReturned "payload + 'v" | KGone

record 'v pk_conf =
  pk_state :: "'v parker"
  pk_live :: nat
  pk_phase :: "'v park_phase"
  pk_accepted :: "'v list"

text \<open>
  A parked thread takes another turn when it finds its token, or spuriously, as \<open>thread::park\<close> may.
\<close>

datatype 'v pk_op = PkUnpark 'v | PkClone | PkDrop | PkPark | PkWake | PkSpurious | PkDropParker

definition pk_conf_new :: "'v pk_conf" where
  "pk_conf_new = \<lparr>pk_state = parker_new, pk_live = 1, pk_phase = KHeld, pk_accepted = []\<rparr>"

fun pk_allowed :: "'v pk_op \<Rightarrow> 'v pk_conf \<Rightarrow> bool" where
  "pk_allowed (PkUnpark v) c = (0 < pk_live c)"
| "pk_allowed PkClone c = (0 < pk_live c)"
| "pk_allowed PkDrop c = (0 < pk_live c)"
| "pk_allowed PkPark c = (pk_phase c = KHeld)"
| "pk_allowed PkWake c = (pk_phase c = KParked \<and> pk_token (pk_state c))"
| "pk_allowed PkSpurious c = (pk_phase c = KParked)"
| "pk_allowed PkDropParker c = (pk_phase c = KHeld)"

definition pk_turn :: "'v pk_conf \<Rightarrow> 'v pk_conf option" where
  "pk_turn c = map_option (\<lambda>(r, s). c\<lparr>pk_state := s,
      pk_phase := (case r of Waits \<Rightarrow> KParked | Return x \<Rightarrow> KReturned x)\<rparr>) (park_turn (pk_state c))"

fun pk_step :: "'v pk_op \<Rightarrow> 'v pk_conf \<Rightarrow> 'v pk_conf option" where
  "pk_step (PkUnpark v) c =
    (let (b, s) = unpark v (pk_state c) in
     Some (c\<lparr>pk_state := s, pk_live := pk_live c - 1, pk_accepted := pk_accepted c @ (if b then [v] else [])\<rparr>))"
| "pk_step PkClone c = Some (c\<lparr>pk_state := unparker_clone (pk_state c), pk_live := pk_live c + 1\<rparr>)"
| "pk_step PkDrop c = map_option (\<lambda>s. c\<lparr>pk_state := s, pk_live := pk_live c - 1\<rparr>) (unparker_drop (pk_state c))"
| "pk_step PkPark c = pk_turn c"
| "pk_step PkWake c = pk_turn (c\<lparr>pk_state := (pk_state c)\<lparr>pk_token := False\<rparr>\<rparr>)"
| "pk_step PkSpurious c = pk_turn c"
| "pk_step PkDropParker c = Some (c\<lparr>pk_state := parker_drop (pk_state c), pk_phase := KGone\<rparr>)"

fun pk_run :: "'v pk_op list \<Rightarrow> 'v pk_conf \<Rightarrow> 'v pk_conf option" where
  "pk_run [] c = Some c"
| "pk_run (x # xs) c = (case pk_step x c of None \<Rightarrow> None | Some c' \<Rightarrow> pk_run xs c')"

fun pk_allowed_run :: "'v pk_op list \<Rightarrow> 'v pk_conf \<Rightarrow> bool" where
  "pk_allowed_run [] c = True"
| "pk_allowed_run (x # xs) c =
    (pk_allowed x c \<and> (case pk_step x c of None \<Rightarrow> True | Some c' \<Rightarrow> pk_allowed_run xs c'))"

definition pk_ok :: "'v pk_conf \<Rightarrow> bool" where
  "pk_ok c \<longleftrightarrow> pk_live c \<le> pk_unparkers (pk_state c) \<and>
    (pk_value (pk_state c) = VEmpty \<longrightarrow> pk_unparkers (pk_state c) = pk_live c \<and> 0 < pk_live c) \<and>
    (case pk_value (pk_state c) of
       VEmpty \<Rightarrow> pk_accepted c = [] \<and> (pk_phase c = KHeld \<or> pk_phase c = KParked)
     | VReady v \<Rightarrow> pk_accepted c = [v] \<and> (\<forall>r. pk_phase c \<noteq> KReturned r) \<and> (pk_phase c = KParked \<longrightarrow> pk_token (pk_state c))
     | VPanic e \<Rightarrow> pk_accepted c = [] \<and> (\<forall>r. pk_phase c \<noteq> KReturned r) \<and> (pk_phase c = KParked \<longrightarrow> pk_token (pk_state c))
     | VCancelled \<Rightarrow> pk_accepted c = [] \<and> pk_phase c = KGone
     | VJoined \<Rightarrow> (case pk_phase c of KReturned (Inr v) \<Rightarrow> pk_accepted c = [v] | KReturned (Inl p) \<Rightarrow> pk_accepted c = [] | _ \<Rightarrow> False))"

lemma pk_step_ok:
  assumes ok: "pk_ok c" and al: "pk_allowed x c"
  shows "\<exists>c'. pk_step x c = Some c' \<and> pk_ok c'"
proof (cases x)
  case PkDrop
  then have "0 < pk_unparkers (pk_state c)" using ok al by (auto simp: pk_ok_def)
  then obtain n where n: "pk_unparkers (pk_state c) = Suc n" by (cases "pk_unparkers (pk_state c)") auto
  let ?s = "(pk_state c)\<lparr>pk_unparkers := n\<rparr>"
  have d: "unparker_drop (pk_state c) = Some (if n = 0 \<and> pk_value (pk_state c) = VEmpty
      then ?s\<lparr>pk_value := VPanic (Static ''all unparkers dropped''), pk_token := True\<rparr> else ?s)"
    by (simp add: unparker_drop_def n)
  show ?thesis using PkDrop ok al n
    by (cases "pk_value (pk_state c)") (auto simp: pk_ok_def d split: park_phase.splits sum.splits)
next
  case (PkUnpark v)
  then show ?thesis using ok al
    by (cases "pk_value (pk_state c)") (auto simp: pk_ok_def unpark_def split: park_phase.splits sum.splits)
next
  case PkClone
  then show ?thesis using ok al
    by (cases "pk_value (pk_state c)") (auto simp: pk_ok_def unparker_clone_def split: park_phase.splits sum.splits)
next
  case PkDropParker
  then show ?thesis using ok al
    by (cases "pk_value (pk_state c)") (auto simp: pk_ok_def parker_drop_def)
next
  case PkPark
  then show ?thesis using ok al
    by (cases "pk_value (pk_state c)") (auto simp: pk_ok_def pk_turn_def park_turn_def Let_def)
next
  case PkWake
  then show ?thesis using ok al
    by (cases "pk_value (pk_state c)") (auto simp: pk_ok_def pk_turn_def park_turn_def Let_def)
next
  case PkSpurious
  then show ?thesis using ok al
    by (cases "pk_value (pk_state c)") (auto simp: pk_ok_def pk_turn_def park_turn_def Let_def)
qed

lemma pk_run_ok: "pk_ok c \<Longrightarrow> pk_allowed_run xs c \<Longrightarrow> \<exists>c'. pk_run xs c = Some c' \<and> pk_ok c'"
proof (induction xs arbitrary: c)
  case (Cons x xs)
  then obtain c' where c': "pk_step x c = Some c'" "pk_ok c'" using pk_step_ok [of c x] by auto
  then show ?case using Cons by simp
qed simp

text \<open>
  C28. A parked thread gets the one value that was accepted: in every history of a parker, its unparkers
  and spurious wake-ups, at most one \<open>unpark\<close> is told \<open>true\<close>, \<open>park\<close> returns exactly its value, or panics
  when none was accepted; and a thread that is parked has an unparker left to wake it, or its token.
\<close>

theorem parker_guarantee:
  assumes "pk_allowed_run ops pk_conf_new"
  shows "case pk_run ops pk_conf_new of
      None \<Rightarrow> False
    | Some c \<Rightarrow> length (pk_accepted c) \<le> 1 \<and>
        (case pk_phase c of
           KReturned (Inr v) \<Rightarrow> pk_accepted c = [v]
         | KReturned (Inl p) \<Rightarrow> pk_accepted c = []
         | KParked \<Rightarrow> if parker_is_ready (pk_state c) then pk_token (pk_state c)
             else pk_accepted c = [] \<and> 0 < pk_live c
         | _ \<Rightarrow> True)"
proof -
  have "pk_ok (pk_conf_new :: 'a pk_conf)" by (simp add: pk_ok_def pk_conf_new_def parker_new_def)
  from pk_run_ok [OF this assms] obtain c where c: "pk_run ops pk_conf_new = Some c" "pk_ok c" by blast
  show ?thesis using c
    by (cases "pk_value (pk_state c)")
      (auto simp: pk_ok_def parker_is_ready_def split: park_phase.splits sum.splits)
qed

lemma parker_guarantee_witness:
  "\<exists>c. pk_run [PkClone, PkPark, PkSpurious, PkUnpark (7 :: nat), PkUnpark 8, PkWake] pk_conf_new = Some c \<and>
    pk_phase c = KReturned (Inr 7) \<and> pk_accepted c = [7]"
proof -
  let ?ops = "[PkClone, PkPark, PkSpurious, PkUnpark (7 :: nat), PkUnpark 8, PkWake]"
  have al: "pk_allowed_run ?ops pk_conf_new"
    and r: "map_option pk_phase (pk_run ?ops pk_conf_new) = Some (KReturned (Inr 7))"
    by (simp_all add: pk_conf_new_def parker_new_def unparker_clone_def pk_turn_def park_turn_def unpark_def)
  from r obtain c where c: "pk_run ?ops pk_conf_new = Some c" "pk_phase c = KReturned (Inr 7)" by auto
  then show ?thesis using parker_guarantee [OF al] by simp
qed

end
