(* ===== verification/Task.thy ===== *)
theory Task
  imports Errors
begin

text \<open>
  \<open>src/src/task.rs\<close>: a task and its coroutines. The task moves its coroutines between five queues;
  what a coroutine does between two switches is a list of the calls it makes on its task. Coroutines
  are known by numbers, \<open>None\<close> is a failed assertion, or a coroutine that never switches back.
\<close>

section \<open>Coroutines\<close>

text \<open>\<open>src/src/coroutine/mod.rs\<close>\<close>

datatype co_state = CoRunning | CoAborting | CoCancelling | CoCompleted

fun into_abort :: "co_state \<Rightarrow> co_state" where
  "into_abort CoRunning = CoAborting"
| "into_abort CoAborting = CoAborting"
| "into_abort st = st"

definition is_cancelling :: "co_state \<Rightarrow> bool" where
  "is_cancelling st \<longleftrightarrow> st = CoCancelling"

section \<open>Yielding points\<close>

text \<open>
  What a blocked coroutine is registered with: \<open>INTERRUPTIBLE\<close>, \<open>UNINTERRUPTIBLE\<close>, or the yielding
  point of its caller, \<open>'y\<close>, whose \<open>interrupt\<close> is a parameter.
\<close>

datatype 'y yielding_point = Interruptible | Uninterruptible | YieldsAt 'y

fun point_interrupt :: "('y \<Rightarrow> bool) \<Rightarrow> 'y yielding_point \<Rightarrow> bool" where
  "point_interrupt intr Interruptible = True"
| "point_interrupt intr Uninterruptible = False"
| "point_interrupt intr (YieldsAt y) = intr y"

datatype 'y interruption = Cancellation | AsInterruptible 'y | AsUninterruptible

fun block_point :: "'y interruption \<Rightarrow> 'y yielding_point" where
  "block_point (AsInterruptible y) = YieldsAt y"
| "block_point AsUninterruptible = Uninterruptible"
| "block_point Cancellation = Interruptible"

section \<open>The task\<close>

datatype task_status = TaskRunning | TaskCompleting | TaskCompleted

datatype sched_flow = FlowYield | FlowBlock | FlowCease

text \<open>
  \<open>'y\<close> are the yielding points of callers. The hash maps are association lists in some order of their entries, the
  order in which a drain visits them.
\<close>

record 'y task =
  tk_id :: nat
  tk_main :: nat
  tk_status :: task_status
  tk_yielding :: bool
  running_cos :: "nat list"
  yielding_cos :: "nat list"
  suspending_cos :: "(nat \<times> 'y) list"
  blocking_cos :: "(nat \<times> 'y yielding_point) list"
  unblocking_cos :: "nat list"
  tk_running :: bool
  tk_scope :: bool          \<comment> \<open>whether the thread that runs it has it as its \<open>TASK\<close>\<close>
  co_status :: "nat \<Rightarrow> co_state"

definition task_with_main :: "nat \<Rightarrow> nat \<Rightarrow> 'y task" where
  "task_with_main ident co = \<lparr>tk_id = ident, tk_main = co, tk_status = TaskRunning, tk_yielding = False,
    running_cos = [co], yielding_cos = [], suspending_cos = [], blocking_cos = [], unblocking_cos = [],
    tk_running = True, tk_scope = False, co_status = (\<lambda>_. CoRunning)\<rparr>"

definition map_remove :: "nat \<Rightarrow> (nat \<times> 'y) list \<Rightarrow> (nat \<times> 'y) list" where
  "map_remove co m = filter (\<lambda>(c, y). c \<noteq> co) m"

definition map_insert :: "nat \<Rightarrow> 'y \<Rightarrow> (nat \<times> 'y) list \<Rightarrow> (nat \<times> 'y) list" where
  "map_insert co y m = map_remove co m @ [(co, y)]"

section \<open>Blocking and unblocking\<close>

definition unblock_one :: "nat \<Rightarrow> 'y task \<Rightarrow> 'y task" where
  "unblock_one co t =
    (if co \<in> fst ` set (blocking_cos t)
     then t\<lparr>blocking_cos := map_remove co (blocking_cos t), running_cos := running_cos t @ [co]\<rparr> else t)"

text \<open>
  \<open>unblock\<close> takes the woken coroutines out of the mutex. Told to block with none woken, it gives the
  task up to its wakers by clearing \<open>running\<close> under the same mutex.
\<close>

definition task_unblock :: "bool \<Rightarrow> 'y task \<Rightarrow> bool \<times> 'y task" where
  "task_unblock block t =
    (if blocking_cos t = [] then (False, t)
     else if block \<and> unblocking_cos t = [] then (False, t\<lparr>tk_running := False\<rparr>)
     else (True, fold unblock_one (unblocking_cos t) (t\<lparr>unblocking_cos := []\<rparr>)))"

text \<open>\<open>wake\<close>, called by any thread: true if the caller has to put the task back into the run queue.\<close>

definition task_wake :: "nat \<Rightarrow> 'y task \<Rightarrow> bool \<times> 'y task" where
  "task_wake co t =
    (if unblocking_cos t = [] \<and> \<not> tk_running t
     then (True, t\<lparr>tk_running := True, unblocking_cos := unblocking_cos t @ [co]\<rparr>)
     else (False, t\<lparr>unblocking_cos := unblocking_cos t @ [co]\<rparr>))"

definition task_grab :: "'y task \<Rightarrow> bool \<times> 'y task" where
  "task_grab t = (\<not> tk_running t, t\<lparr>tk_running := True\<rparr>)"

section \<open>Calls of the running coroutine\<close>

definition task_resume :: "nat \<Rightarrow> 'y task \<Rightarrow> 'y task" where
  "task_resume co t =
    (if co \<in> fst ` set (suspending_cos t)
     then t\<lparr>suspending_cos := map_remove co (suspending_cos t), running_cos := running_cos t @ [co]\<rparr> else t)"

definition task_suspend :: "nat \<Rightarrow> 'y \<Rightarrow> 'y task \<Rightarrow> 'y task" where
  "task_suspend co y t = t\<lparr>suspending_cos := map_insert co y (suspending_cos t)\<rparr>"

definition task_block :: "nat \<Rightarrow> 'y interruption \<Rightarrow> 'y task \<Rightarrow> 'y task" where
  "task_block co i t = t\<lparr>blocking_cos := map_insert co (block_point i) (blocking_cos t)\<rparr>"

text \<open>
  Resumed to abort from a block with a cancellation, the coroutine runs the cancellation before it
  goes on; a block in there is not interrupted again.
\<close>

definition task_cancelling :: "nat \<Rightarrow> 'y task \<Rightarrow> 'y task" where
  "task_cancelling co t =
    (if co_status t co = CoAborting then t\<lparr>co_status := (co_status t)(co := CoCancelling)\<rparr> else t)"

definition task_cancelled :: "nat \<Rightarrow> 'y task \<Rightarrow> 'y task" where
  "task_cancelled co t =
    (if co_status t co = CoCancelling then t\<lparr>co_status := (co_status t)(co := CoAborting)\<rparr> else t)"

text \<open>A yield that returns at once leaves the coroutine running: the flag tells.\<close>

definition task_yield_coroutine :: "nat \<Rightarrow> 'y task \<Rightarrow> bool \<times> 'y task" where
  "task_yield_coroutine co t =
    (if tk_status t \<noteq> TaskRunning then (False, t)
     else (True, t\<lparr>yielding_cos := yielding_cos t @ [co]\<rparr>))"

definition task_yield :: "nat \<Rightarrow> 'y task \<Rightarrow> bool \<times> 'y task" where
  "task_yield co t = task_yield_coroutine co (t\<lparr>tk_yielding := True\<rparr>)"

definition task_spawn :: "nat \<Rightarrow> 'y task \<Rightarrow> 'y task" where
  "task_spawn co t =
    (if tk_status t \<noteq> TaskRunning then t else t\<lparr>running_cos := running_cos t @ [co]\<rparr>)"

text \<open>
  The calls a coroutine makes until it switches back: \<open>AMainReturns\<close> is the end of the function a
  task was spawned with, which only its main runs, \<open>AComplete\<close> the end of the coroutine.
\<close>

datatype 'y act = ASpawn nat | AResume nat | ASuspend 'y | ABlock "'y interruption" | ACancel | ACancelled | AYield | AYieldTask | AMainReturns | AComplete

text \<open>
  What asks for the running task panics if the thread has none, and a session waits as a thread then,
  without a switch.
\<close>

fun needs_task :: "'y act \<Rightarrow> bool" where
  "needs_task (ABlock i) \<longleftrightarrow> False"
| "needs_task ACancel \<longleftrightarrow> False"
| "needs_task ACancelled \<longleftrightarrow> False"
| "needs_task AComplete \<longleftrightarrow> False"
| "needs_task _ \<longleftrightarrow> True"

text \<open>
  Whether the coroutine switches back, and then whether it has completed, next to the task. The main
  completes only after its function has returned.
\<close>

fun act_step :: "nat \<Rightarrow> 'y act \<Rightarrow> 'y task \<Rightarrow> bool option \<times> 'y task" where
  "act_step co (ASpawn c) t = (None, task_spawn c t)"
| "act_step co (AResume c) t = (None, task_resume c t)"
| "act_step co (ASuspend y) t = (Some False, task_suspend co y t)"
| "act_step co (ABlock i) t = (if tk_scope t then (Some False, task_block co i t) else (None, t))"
| "act_step co ACancel t = (None, task_cancelling co t)"
| "act_step co ACancelled t = (None, task_cancelled co t)"
| "act_step co AYield t = (let (b, t') = task_yield_coroutine co t in (if b then Some False else None, t'))"
| "act_step co AYieldTask t = (let (b, t') = task_yield co t in (if b then Some False else None, t'))"
| "act_step co AMainReturns t =
    (if co = tk_main t then (Some False, t\<lparr>tk_status := TaskCompleting\<rparr>) else (None, t))"
| "act_step co AComplete t =
    (if co = tk_main t \<and> tk_status t = TaskRunning then (None, t)
     else (Some True, t\<lparr>co_status := (co_status t)(co := CoCompleted)\<rparr>))"

fun co_turn :: "nat \<Rightarrow> 'y act list \<Rightarrow> 'y task \<Rightarrow> (bool \<times> 'y task) option" where
  "co_turn co [] t = None"
| "co_turn co (a # as) t =
    (if needs_task a \<and> \<not> tk_scope t then None
     else (case act_step co a t of (Some fin, t') \<Rightarrow> Some (fin, t') | (None, t') \<Rightarrow> co_turn co as t'))"

definition run_coroutine :: "nat \<Rightarrow> 'y act list \<Rightarrow> 'y task \<Rightarrow> (bool \<times> 'y task) option" where
  "run_coroutine co as t =
    (case co_turn co as t of
       None \<Rightarrow> None
     | Some (fin, t') \<Rightarrow>
       Some (fin, if fin \<and> co = tk_main t' then t'\<lparr>tk_status := TaskCompleted\<rparr> else t'))"

section \<open>Aborting\<close>

definition abort_co :: "nat \<Rightarrow> 'y task \<Rightarrow> 'y task" where
  "abort_co co t = t\<lparr>running_cos := running_cos t @ [co], co_status := (co_status t)(co := into_abort (co_status t co))\<rparr>"

text \<open>\<open>intr\<close> tells whether \<open>Yielding::interrupt\<close> of a caller's yielding point wins.\<close>

definition task_interrupt :: "('y \<Rightarrow> bool) \<Rightarrow> 'y task \<Rightarrow> 'y task" where
  "task_interrupt intr t =
    (let t1 = t\<lparr>running_cos := running_cos t @ yielding_cos t, yielding_cos := []\<rparr>;
         t2 = fold abort_co (map fst (suspending_cos t1)) (t1\<lparr>suspending_cos := []\<rparr>);
         won = (\<lambda>(c, y). \<not> is_cancelling (co_status t2 c) \<and> point_interrupt intr y);
         t3 = fold abort_co (map fst (filter won (blocking_cos t2)))
           (t2\<lparr>blocking_cos := filter (\<lambda>x. \<not> won x) (blocking_cos t2)\<rparr>) in
     snd (task_unblock False t3))"

text \<open>Run the running coroutines until none is left; each takes the next turn.\<close>

fun drain_running :: "'y act list list \<Rightarrow> 'y task \<Rightarrow> 'y task option" where
  "drain_running [] t = (if running_cos t = [] then Some t else None)"
| "drain_running (as # turns) t =
    (case running_cos t of
       [] \<Rightarrow> Some t
     | co # cos \<Rightarrow>
       (case run_coroutine co as (t\<lparr>running_cos := cos\<rparr>) of
          None \<Rightarrow> None
        | Some (fin, t') \<Rightarrow> drain_running turns t'))"

text \<open>
  The loop of \<open>abort\<close>, a round per iteration: what wakers have pushed meanwhile and the turns of the
  coroutines run. Rounds that find nothing to run while a coroutine is blocked spin. The last turn
  is the main's.
\<close>

fun abort_loop :: "('y \<Rightarrow> bool) \<Rightarrow> (nat list \<times> 'y act list list) list \<Rightarrow> 'y task \<Rightarrow> 'y task option" where
  "abort_loop intr [] t = None"
| "abort_loop intr ((woken, turns) # rounds) t =
    (let t1 = task_interrupt intr (t\<lparr>unblocking_cos := unblocking_cos t @ woken\<rparr>) in
     if running_cos t1 = [] then
       (if blocking_cos t1 \<noteq> [] then abort_loop intr rounds t1 else Some t1)
     else
       (case drain_running turns t1 of None \<Rightarrow> None | Some t2 \<Rightarrow> abort_loop intr rounds t2))"

definition task_abort :: "('y \<Rightarrow> bool) \<Rightarrow> (nat list \<times> 'y act list list) list \<Rightarrow> 'y act list \<Rightarrow> 'y task \<Rightarrow> 'y task option" where
  "task_abort intr rounds final t =
    (case abort_loop intr rounds t of
       None \<Rightarrow> None
     | Some t1 \<Rightarrow>
       (case run_coroutine (tk_main t1) final t1 of
          None \<Rightarrow> None
        | Some (fin, t2) \<Rightarrow> if fin \<and> tk_status t2 = TaskCompleted then Some t2 else None))"

section \<open>Scheduling\<close>

fun sched_loop :: "'y act list list \<Rightarrow> 'y task \<Rightarrow> 'y task option" where
  "sched_loop turns t =
    (if \<not> tk_yielding t \<and> tk_status t = TaskRunning \<and> running_cos t \<noteq> [] then
       (case turns of
          [] \<Rightarrow> None
        | as # turns' \<Rightarrow>
          (case run_coroutine (hd (running_cos t)) as (t\<lparr>running_cos := tl (running_cos t)\<rparr>) of
             None \<Rightarrow> None
           | Some (fin, t') \<Rightarrow> sched_loop turns' t'))
     else Some t)"

declare sched_loop.simps [simp del]

text \<open>
  \<open>woken\<close> is what wakers push between the first \<open>unblock\<close> and the last, \<open>rounds\<close> and \<open>final\<close> are for
  an abort. \<open>sched_verdict\<close> is what \<open>sched\<close> does once it has run its coroutines.
\<close>

definition sched_verdict :: "('y \<Rightarrow> bool) \<Rightarrow> nat list \<Rightarrow> (nat list \<times> 'y act list list) list \<Rightarrow>
    'y act list \<Rightarrow> 'y task \<Rightarrow> (sched_flow \<times> 'y task) option" where
  "sched_verdict intr woken rounds final t =
    (if yielding_cos t \<noteq> [] then Some (FlowYield, t)
     else if blocking_cos t = [] then
       (if suspending_cos t \<noteq> [] then map_option (Pair FlowCease) (task_abort intr rounds final t)
        else Some (FlowCease, t))
     else
       (let (b, t') = task_unblock True (t\<lparr>unblocking_cos := unblocking_cos t @ woken\<rparr>) in
        Some (if b then FlowYield else FlowBlock, t')))"

definition sched_in_scope :: "('y \<Rightarrow> bool) \<Rightarrow> 'y act list list \<Rightarrow> nat list \<Rightarrow> (nat list \<times> 'y act list list) list \<Rightarrow>
    'y act list \<Rightarrow> 'y task \<Rightarrow> (sched_flow \<times> 'y task) option" where
  "sched_in_scope intr turns woken rounds final t =
    (let t1 = snd (task_unblock False (t\<lparr>running_cos := running_cos t @ yielding_cos t, yielding_cos := []\<rparr>)) in
     case sched_loop turns t1 of
       None \<Rightarrow> None
     | Some t2 \<Rightarrow>
       (case (if tk_status t2 = TaskCompleting then task_abort intr rounds final t2 else Some t2) of
          None \<Rightarrow> None
        | Some t3 \<Rightarrow> sched_verdict intr woken rounds final (t3\<lparr>tk_yielding := False\<rparr>)))"

text \<open>\<open>sched\<close> enters the scope of the task; its return, or its unwinding, leaves it.\<close>

definition task_sched :: "('y \<Rightarrow> bool) \<Rightarrow> 'y act list list \<Rightarrow> nat list \<Rightarrow> (nat list \<times> 'y act list list) list \<Rightarrow>
    'y act list \<Rightarrow> 'y task \<Rightarrow> (sched_flow \<times> 'y task) option" where
  "task_sched intr turns woken rounds final t =
    map_option (\<lambda>(flow, t'). (flow, t'\<lparr>tk_scope := False\<rparr>))
      (sched_in_scope intr turns woken rounds final (t\<lparr>tk_scope := True\<rparr>))"

end
