(* ===== verification/Task_Correct.thy ===== *)
theory Task_Correct
  imports Task
begin

text \<open>
  Scheduling loses no coroutine and queues none twice, and what the three verdicts of \<open>sched\<close> mean.
\<close>

section \<open>Where a coroutine is\<close>

definition queued :: "'y task \<Rightarrow> nat list" where
  "queued t = running_cos t @ yielding_cos t @ map fst (suspending_cos t) @ map fst (blocking_cos t)"

text \<open>In a queue, or at its end; the main waits outside the queues while its task completes.\<close>

definition kept :: "nat \<Rightarrow> 'y task \<Rightarrow> bool" where
  "kept c t \<longleftrightarrow> c \<in> set (queued t) \<or> co_status t c = CoCompleted \<or> (c = tk_main t \<and> tk_status t = TaskCompleting)"

lemma fst_map_remove [simp]: "map fst (map_remove co m) = filter (\<lambda>c. c \<noteq> co) (map fst m)"
  by (induction m) (auto simp: map_remove_def)

lemma fst_map_insert [simp]: "map fst (map_insert co y m) = filter (\<lambda>c. c \<noteq> co) (map fst m) @ [co]"
  by (simp add: map_insert_def)

lemma keys_map_remove [simp]: "fst ` set (map_remove co m) = fst ` set m - {co}"
  by (auto simp: map_remove_def image_iff)

section \<open>Moving coroutines between queues\<close>

text \<open>Same coroutines, no duplicates gained, same main and status.\<close>

definition moved :: "'y task \<Rightarrow> 'y task \<Rightarrow> bool" where
  "moved t t' \<longleftrightarrow> set (queued t') = set (queued t) \<and> (distinct (queued t) \<longrightarrow> distinct (queued t')) \<and>
    tk_main t' = tk_main t \<and> tk_status t' = tk_status t \<and> tk_yielding t' = tk_yielding t \<and>
    (\<forall>c. co_status t' c = CoCompleted \<longleftrightarrow> co_status t c = CoCompleted)"

lemma moved_refl [simp]: "moved t t"
  by (simp add: moved_def)

lemma moved_trans: "moved t t' \<Longrightarrow> moved t' t'' \<Longrightarrow> moved t t''"
  by (simp add: moved_def)

lemma moved_kept: "moved t t' \<Longrightarrow> kept c t \<longleftrightarrow> kept c t'"
  by (simp add: moved_def kept_def)

lemma moved_unblock_one: "moved t (unblock_one co t)"
  unfolding moved_def unblock_one_def queued_def by auto

lemma moved_unblock_fold: "moved t (fold unblock_one cos t)"
  by (induction cos arbitrary: t) (auto intro: moved_trans moved_unblock_one)

lemma moved_fields:
  "moved t (t\<lparr>unblocking_cos := u\<rparr>)" "moved t (t\<lparr>tk_running := r\<rparr>)"
  by (simp_all add: moved_def queued_def)

lemma moved_unblock: "moved t (snd (task_unblock block t))"
  using moved_trans [OF moved_fields(1) moved_unblock_fold]
  by (auto simp: task_unblock_def moved_fields)

lemma moved_yielding: "moved t (t\<lparr>running_cos := running_cos t @ yielding_cos t, yielding_cos := []\<rparr>)"
  by (auto simp: moved_def queued_def)

lemma moved_resume: "moved t (task_resume c t)"
  unfolding moved_def task_resume_def queued_def by auto

lemma moved_cancel: "moved t (task_cancelling co t)" "moved t (task_cancelled co t)"
  by (simp_all add: moved_def queued_def task_cancelling_def task_cancelled_def)

lemma cancel_fields [simp]:
  "yielding_cos (task_cancelling co t) = yielding_cos t" "yielding_cos (task_cancelled co t) = yielding_cos t"
  "tk_yielding (task_cancelling co t) = tk_yielding t" "tk_yielding (task_cancelled co t) = tk_yielding t"
  "tk_status (task_cancelling co t) = tk_status t" "tk_status (task_cancelled co t) = tk_status t"
  by (simp_all add: task_cancelling_def task_cancelled_def)

lemma abort_fold:
  "fold abort_co cos t = t\<lparr>running_cos := running_cos t @ cos,
    co_status := (\<lambda>c. if c \<in> set cos then into_abort (co_status t c) else co_status t c)\<rparr>"
proof (induction cos arbitrary: t)
  case (Cons c cos)
  have "into_abort (into_abort st) = into_abort st" for st by (cases st) simp_all
  then show ?case unfolding fold_simps comp_def Cons.IH by (auto simp: abort_co_def fun_eq_iff)
qed simp

lemma into_abort_completed [simp]: "into_abort st = CoCompleted \<longleftrightarrow> st = CoCompleted"
  by (cases st) simp_all

lemma moved_suspending:
  "moved t (fold abort_co (map fst (suspending_cos t)) (t\<lparr>suspending_cos := []\<rparr>))"
  by (auto simp: moved_def queued_def abort_fold)

lemma moved_blocking:
  "moved t (fold abort_co (map fst (filter P (blocking_cos t))) (t\<lparr>blocking_cos := filter (\<lambda>x. \<not> P x) (blocking_cos t)\<rparr>))"
  unfolding abort_fold moved_def queued_def
  by (auto simp: distinct_map intro: inj_on_subset) (metis fst_conv inj_onD)+

lemma moved_interrupt: "moved t (task_interrupt intr t)"
  unfolding task_interrupt_def Let_def
  by (intro moved_trans [OF _ moved_unblock] moved_trans [OF _ moved_blocking]
      moved_trans [OF _ moved_suspending] moved_yielding)

section \<open>A turn of a coroutine\<close>

fun spawned :: "'y act list \<Rightarrow> nat list" where
  "spawned [] = []"
| "spawned (ASpawn c # as) = c # spawned as"
| "spawned (_ # as) = spawned as"

text \<open>Giving up the rest of the task is backed by a coroutine that yielded.\<close>

definition yield_ok :: "'y task \<Rightarrow> bool" where
  "yield_ok t \<longleftrightarrow> (tk_yielding t \<longrightarrow> yielding_cos t \<noteq> [] \<or> tk_status t \<noteq> TaskRunning)"

lemma moved_resume_yield: "yield_ok t \<Longrightarrow> yield_ok (task_resume c t)"
  by (simp add: yield_ok_def task_resume_def)

text \<open>
  While \<open>co\<close> runs: nobody is queued twice, \<open>co\<close> not at all, and what it will still spawn is fresh.
\<close>

definition turn_ok :: "nat \<Rightarrow> nat list \<Rightarrow> 'y task \<Rightarrow> bool" where
  "turn_ok co fresh t \<longleftrightarrow> distinct (co # queued t @ fresh) \<and> yield_ok t"

lemma moved_turn_ok:
  "moved t t' \<Longrightarrow> yield_ok t' \<Longrightarrow> turn_ok co fresh t \<Longrightarrow> turn_ok co fresh t'"
  by (auto simp: moved_def turn_ok_def)

text \<open>The other calls enter one coroutine into a queue, or none.\<close>

definition entered :: "nat \<Rightarrow> 'y task \<Rightarrow> 'y task \<Rightarrow> bool" where
  "entered c t t' \<longleftrightarrow> set (queued t') = insert c (set (queued t)) \<and>
    (c \<notin> set (queued t) \<longrightarrow> distinct (queued t) \<longrightarrow> distinct (queued t')) \<and>
    tk_main t' = tk_main t \<and> tk_status t' = tk_status t \<and> co_status t' = co_status t \<and>
    (yield_ok t \<longrightarrow> yield_ok t')"

lemma entered_suspend: "entered co t (task_suspend co y t)"
  by (auto simp: entered_def queued_def task_suspend_def yield_ok_def)

lemma entered_block: "entered co t (task_block co y t)"
  by (auto simp: entered_def queued_def task_block_def yield_ok_def)

lemma entered_spawn: "tk_status t = TaskRunning \<Longrightarrow> entered c t (task_spawn c t)"
  by (auto simp: entered_def queued_def task_spawn_def yield_ok_def)

lemma entered_yield: "tk_status t = TaskRunning \<Longrightarrow> entered co t (t\<lparr>tk_yielding := b, yielding_cos := yielding_cos t @ [co]\<rparr>)"
  by (auto simp: entered_def queued_def yield_ok_def)

lemma act_step_effect:
  assumes st: "act_step co a t = (r, t')"
  obtains (moved) "r = None" "moved t t'" "yield_ok t \<longrightarrow> yield_ok t'"
  | (none) "r = None" "queued t' = queued t" "tk_main t' = tk_main t" "tk_status t' = tk_status t"
      "co_status t' = co_status t" "yield_ok t'"
  | (spawn) c where "a = ASpawn c" "r = None" "entered c t t'" "tk_status t = TaskRunning"
  | (queue) "r = Some False" "entered co t t'"
  | (main) "r = Some False" "queued t' = queued t" "tk_main t' = tk_main t" "tk_main t = co"
      "tk_status t' = TaskCompleting" "co_status t' = co_status t"
  | (finish) "r = Some True" "queued t' = queued t" "tk_main t' = tk_main t" "tk_status t' = tk_status t"
      "co_status t' = (co_status t)(co := CoCompleted)" "yield_ok t \<longrightarrow> yield_ok t'"
      "co = tk_main t \<longrightarrow> tk_status t \<noteq> TaskRunning"
proof (cases a)
  case (ASpawn c)
  show thesis
  proof (cases "tk_status t = TaskRunning")
    case True
    show thesis by (rule spawn) (use st ASpawn True entered_spawn [OF True] in auto)
  next
    case False
    show thesis by (rule moved) (use st ASpawn False in \<open>simp_all add: task_spawn_def\<close>)
  qed
next
  case (AResume c)
  show thesis by (rule moved) (use st AResume moved_resume moved_resume_yield in auto)
next
  case (ASuspend y)
  show thesis by (rule queue) (use st ASuspend entered_suspend in auto)
next
  case (ABlock y)
  show thesis
  proof (cases "tk_scope t")
    case True
    show thesis by (rule queue) (use st ABlock True entered_block in auto)
  next
    case False
    show thesis by (rule moved) (use st ABlock False in simp_all)
  qed
next
  case ACancel
  show thesis by (rule moved) (use st ACancel moved_cancel in \<open>auto simp: yield_ok_def\<close>)
next
  case ACancelled
  show thesis by (rule moved) (use st ACancelled moved_cancel in \<open>auto simp: yield_ok_def\<close>)
next
  case AYield
  show thesis
  proof (cases "tk_status t = TaskRunning")
    case True
    show thesis by (rule queue) (use st AYield True entered_yield [OF True, of co "tk_yielding t"]
        in \<open>auto simp: task_yield_coroutine_def\<close>)
  next
    case False
    show thesis by (rule moved) (use st AYield False in \<open>simp_all add: task_yield_coroutine_def\<close>)
  qed
next
  case AYieldTask
  show thesis
  proof (cases "tk_status t = TaskRunning")
    case True
    show thesis by (rule queue) (use st AYieldTask True entered_yield [OF True, of co True]
        in \<open>auto simp: task_yield_def task_yield_coroutine_def\<close>)
  next
    case False
    show thesis by (rule none) (use st AYieldTask False
        in \<open>auto simp: task_yield_def task_yield_coroutine_def queued_def yield_ok_def\<close>)
  qed
next
  case AMainReturns
  show thesis
  proof (cases "co = tk_main t")
    case True
    show thesis by (rule main) (use st AMainReturns True in \<open>auto simp: queued_def\<close>)
  next
    case False
    show thesis by (rule moved) (use st AMainReturns False in simp_all)
  qed
next
  case AComplete
  show thesis
  proof (cases "co = tk_main t \<and> tk_status t = TaskRunning")
    case True
    show thesis by (rule moved) (use st AComplete True in simp_all)
  next
    case False
    show thesis by (rule finish) (use st AComplete False in \<open>auto simp: queued_def yield_ok_def\<close>)
  qed
qed

lemma act_step_kept:
  assumes "act_step co a t = (r, t')"
  shows "(kept c t \<longrightarrow> kept c t') \<and> (r \<noteq> None \<longrightarrow> kept co t') \<and> tk_main t' = tk_main t \<and>
    (co_status t c = CoCompleted \<longrightarrow> co_status t' c = CoCompleted) \<and>
    (r = Some True \<longrightarrow> co_status t' co = CoCompleted) \<and>
    (tk_status t \<noteq> TaskRunning \<longrightarrow> tk_status t' \<noteq> TaskRunning)"
  using assms
proof (cases rule: act_step_effect)
  case moved
  then show ?thesis using moved_kept [OF moved(2)] by (auto simp: moved_def)
qed (auto simp: kept_def entered_def)

lemma spawned_cases: "spawned (a # as) = (case a of ASpawn c \<Rightarrow> c # spawned as | _ \<Rightarrow> spawned as)"
  by (cases a) simp_all

lemma act_step_ok:
  assumes st: "act_step co a t = (r, t')" and ok: "turn_ok co (spawned (a # as) @ fresh) t"
  shows "case r of
      None \<Rightarrow> turn_ok co (spawned as @ fresh) t' \<and> tk_status t' = tk_status t
    | Some fin \<Rightarrow> distinct (queued t' @ fresh) \<and> yield_ok t' \<and>
        (tk_status t = TaskRunning \<longrightarrow> tk_status t' \<noteq> TaskCompleted \<and> \<not> (fin \<and> co = tk_main t'))"
proof -
  have ok': "turn_ok co (spawned as @ fresh) t"
    using ok unfolding spawned_cases by (cases a) (auto simp: turn_ok_def)
  show ?thesis using st
  proof (cases rule: act_step_effect)
    case moved
    then show ?thesis using moved_turn_ok [OF moved(2) _ ok'] ok' by (simp add: turn_ok_def moved_def)
  next
    case none
    then show ?thesis using ok' by (simp add: turn_ok_def)
  next
    case spawn
    then show ?thesis using ok by (auto simp: turn_ok_def entered_def)
  next
    case queue
    then show ?thesis using ok' by (auto simp: turn_ok_def entered_def)
  next
    case main
    then show ?thesis using ok' by (auto simp: turn_ok_def yield_ok_def)
  next
    case finish
    then show ?thesis using ok' by (auto simp: turn_ok_def)
  qed
qed

lemma co_turn_ok:
  "co_turn co as t = Some (fin, t') \<Longrightarrow> turn_ok co (spawned as @ fresh) t \<Longrightarrow>
    distinct (queued t' @ fresh) \<and> yield_ok t' \<and>
    (tk_status t = TaskRunning \<longrightarrow> tk_status t' \<noteq> TaskCompleted \<and> \<not> (fin \<and> co = tk_main t'))"
proof (induction as arbitrary: t)
  case (Cons a as)
  obtain r t1 where st: "act_step co a t = (r, t1)" by (cases "act_step co a t")
  note ok = act_step_ok [OF st Cons.prems(2)]
  show ?case
  proof (cases r)
    case None
    then show ?thesis using Cons.IH [of t1] Cons.prems(1) st ok by (simp split: if_splits)
  next
    case (Some f)
    then show ?thesis using Cons.prems(1) st ok by (simp split: if_splits)
  qed
qed simp

lemma co_turn_kept:
  "co_turn co as t = Some (fin, t') \<Longrightarrow>
    (kept c t \<longrightarrow> kept c t') \<and> kept co t' \<and> tk_main t' = tk_main t \<and>
    (co_status t c = CoCompleted \<longrightarrow> co_status t' c = CoCompleted) \<and>
    (fin \<longrightarrow> co_status t' co = CoCompleted) \<and>
    (tk_status t \<noteq> TaskRunning \<longrightarrow> tk_status t' \<noteq> TaskRunning)"
proof (induction as arbitrary: t)
  case (Cons a as)
  obtain r t1 where st: "act_step co a t = (r, t1)" by (cases "act_step co a t")
  note kept = act_step_kept [OF st, of c]
  show ?case
  proof (cases r)
    case None
    then show ?thesis using Cons.IH [of t1] Cons.prems(1) st kept by (simp split: if_splits)
  next
    case (Some f)
    then show ?thesis using Cons.prems(1) st kept by (simp split: if_splits)
  qed
qed simp

lemma run_coroutine_kept:
  assumes "run_coroutine co as t = Some (fin, t')"
  shows "(kept c t \<longrightarrow> kept c t') \<and> kept co t' \<and> tk_main t' = tk_main t \<and>
    (co_status t c = CoCompleted \<longrightarrow> co_status t' c = CoCompleted) \<and>
    (fin \<longrightarrow> co_status t' co = CoCompleted) \<and>
    (tk_status t \<noteq> TaskRunning \<longrightarrow> tk_status t' \<noteq> TaskRunning)"
proof -
  from assms obtain t1 where t1: "co_turn co as t = Some (fin, t1)"
      and t': "t' = (if fin \<and> co = tk_main t1 then t1\<lparr>tk_status := TaskCompleted\<rparr> else t1)"
    by (auto simp: run_coroutine_def split: option.splits)
  note k = co_turn_kept [OF t1, of c] co_turn_kept [OF t1, of co]
  show ?thesis
  proof (cases "fin \<and> co = tk_main t1")
    case True
    then have fin: "co_status t1 (tk_main t1) = CoCompleted" using k by blast
    have eq: "t' = t1\<lparr>tk_status := TaskCompleted\<rparr>" using t' True by simp
    have "kept x t1 \<longrightarrow> kept x t'" for x
      using fin by (auto simp: kept_def eq queued_def)
    then show ?thesis using k unfolding eq by simp
  next
    case False
    have "t' = t1" unfolding t' by (rule if_not_P [OF False])
    then show ?thesis using k by simp
  qed
qed

lemma run_coroutine_ok:
  assumes run: "run_coroutine co as t = Some (fin, t')" and ok: "turn_ok co (spawned as @ fresh) t"
    and st: "tk_status t = TaskRunning"
  shows "distinct (queued t' @ fresh) \<and> yield_ok t' \<and> tk_status t' \<noteq> TaskCompleted"
proof -
  from run obtain t1 where t1: "co_turn co as t = Some (fin, t1)"
      and t': "t' = (if fin \<and> co = tk_main t1 then t1\<lparr>tk_status := TaskCompleted\<rparr> else t1)"
    by (auto simp: run_coroutine_def split: option.splits)
  note ok1 = co_turn_ok [OF t1 ok]
  have "\<not> (fin \<and> co = tk_main t1)" using ok1 st by blast
  then have "t' = t1" unfolding t' by (rule if_not_P)
  then show ?thesis using ok1 st by simp
qed

section \<open>Scheduling\<close>

lemma sched_loop_ok:
  "sched_loop turns t = Some t' \<Longrightarrow> distinct (queued t @ spawned (concat turns)) \<Longrightarrow> yield_ok t \<Longrightarrow>
    tk_status t \<noteq> TaskCompleted \<Longrightarrow>
    distinct (queued t') \<and> yield_ok t' \<and> (kept c t \<longrightarrow> kept c t') \<and> tk_status t' \<noteq> TaskCompleted \<and>
    (tk_yielding t' \<or> tk_status t' \<noteq> TaskRunning \<or> running_cos t' = [])"
proof (induction turns arbitrary: t)
  case Nil
  then have "t' = t" "\<not> (\<not> tk_yielding t \<and> tk_status t = TaskRunning \<and> running_cos t \<noteq> [])"
    by (subst (asm) sched_loop.simps, simp split: if_splits)+
  then show ?case using Nil by auto
next
  case (Cons as turns)
  show ?case
  proof (cases "\<not> tk_yielding t \<and> tk_status t = TaskRunning \<and> running_cos t \<noteq> []")
    case False
    then have "t' = t" using Cons.prems(1) by (subst (asm) sched_loop.simps) (simp split: if_splits)
    then show ?thesis using Cons.prems(2-4) False by auto
  next
    case True
    then obtain co cos where r: "running_cos t = co # cos" by (cases "running_cos t") auto
    let ?t = "t\<lparr>running_cos := cos\<rparr>"
    have "sched_loop (as # turns) t =
        (case run_coroutine co as ?t of None \<Rightarrow> None | Some (fin, t1) \<Rightarrow> sched_loop turns t1)"
      using True r by (subst sched_loop.simps) simp
    then obtain fin t1 where run: "run_coroutine co as ?t = Some (fin, t1)"
        and l: "sched_loop turns t1 = Some t'"
      using Cons.prems(1) by (auto split: option.splits)
    have sp: "spawned (concat (as # turns)) = spawned as @ spawned (concat turns)"
      by (induction as rule: spawned.induct) simp_all
    have ok: "turn_ok co (spawned as @ spawned (concat turns)) ?t"
      using Cons.prems(2,3) r unfolding sp by (auto simp: turn_ok_def queued_def yield_ok_def)
    have st: "tk_status ?t = TaskRunning" using True by simp
    have k: "kept c t \<longrightarrow> c = co \<or> kept c ?t"
      using r by (auto simp: kept_def queued_def)
    note ok1 = run_coroutine_ok [OF run ok st] and kept1 = run_coroutine_kept [OF run, of c]
    have "distinct (queued t') \<and> yield_ok t' \<and> (kept c t1 \<longrightarrow> kept c t') \<and> tk_status t' \<noteq> TaskCompleted \<and>
        (tk_yielding t' \<or> tk_status t' \<noteq> TaskRunning \<or> running_cos t' = [])"
      by (rule Cons.IH [OF l]) (use ok1 in blast)+
    then show ?thesis using k kept1 by blast
  qed
qed

section \<open>Aborting\<close>

text \<open>What an abort keeps of \<open>t\<close>: every coroutine is accounted for, and the end of the main is for good.\<close>

definition abort_kept :: "'y task \<Rightarrow> 'y task \<Rightarrow> bool" where
  "abort_kept t t' \<longleftrightarrow> (\<forall>c. kept c t \<longrightarrow> kept c t') \<and> tk_main t' = tk_main t \<and>
    (tk_status t \<noteq> TaskRunning \<longrightarrow> tk_status t' \<noteq> TaskRunning)"

lemma abort_kept_trans: "abort_kept t t' \<Longrightarrow> abort_kept t' t'' \<Longrightarrow> abort_kept t t''"
  by (simp add: abort_kept_def)

lemma moved_abort_kept: "moved t t' \<Longrightarrow> abort_kept t t'"
  using moved_kept by (auto simp: abort_kept_def moved_def)

lemma drain_kept: "drain_running turns t = Some t' \<Longrightarrow> abort_kept t t'"
proof (induction turns t rule: drain_running.induct)
  case (1 t)
  then show ?case by (auto simp: abort_kept_def split: if_splits)
next
  case (2 as turns t)
  show ?case
  proof (cases "running_cos t")
    case Nil
    then show ?thesis using 2 by (simp add: abort_kept_def)
  next
    case (Cons co cos)
    then obtain fin t1 where run: "run_coroutine co as (t\<lparr>running_cos := cos\<rparr>) = Some (fin, t1)"
        and d: "drain_running turns t1 = Some t'"
      using 2(2) by (auto split: option.splits)
    have "abort_kept t t1"
    proof -
      have "kept c t \<longrightarrow> c = co \<or> kept c (t\<lparr>running_cos := cos\<rparr>)" for c
        using Cons by (auto simp: kept_def queued_def)
      then show ?thesis using run_coroutine_kept [OF run] unfolding abort_kept_def by simp blast
    qed
    then show ?thesis using 2(1) [OF Cons run refl d] abort_kept_trans by blast
  qed
qed

lemma fold_unblock_fields:
  "yielding_cos (fold unblock_one cos t) = yielding_cos t \<and> suspending_cos (fold unblock_one cos t) = suspending_cos t"
  by (induction cos arbitrary: t) (simp_all add: unblock_one_def)

lemma interrupt_drains: "yielding_cos (task_interrupt intr t) = [] \<and> suspending_cos (task_interrupt intr t) = []"
  by (simp add: task_interrupt_def Let_def task_unblock_def fold_unblock_fields abort_fold)

lemma abort_loop_kept:
  "abort_loop intr rounds t = Some t' \<Longrightarrow> abort_kept t t' \<and> queued t' = []"
proof (induction intr rounds t rule: abort_loop.induct)
  case (2 intr woken turns rounds t)
  define t1 where "t1 = task_interrupt intr (t\<lparr>unblocking_cos := unblocking_cos t @ woken\<rparr>)"
  have k: "abort_kept t t1"
    unfolding t1_def by (rule moved_abort_kept [OF moved_trans [OF moved_fields(1) moved_interrupt]])
  have l: "abort_loop intr ((woken, turns) # rounds) t =
      (if running_cos t1 = [] then (if blocking_cos t1 \<noteq> [] then abort_loop intr rounds t1 else Some t1)
       else (case drain_running turns t1 of None \<Rightarrow> None | Some t2 \<Rightarrow> abort_loop intr rounds t2))"
    by (simp add: t1_def Let_def)
  consider (spin) "running_cos t1 = []" "blocking_cos t1 \<noteq> []" | (empty) "running_cos t1 = []" "blocking_cos t1 = []"
    | (run) "running_cos t1 \<noteq> []" by blast
  then show ?case
  proof cases
    case spin
    then show ?thesis using 2(1) [OF t1_def] 2(3) l k abort_kept_trans by auto
  next
    case empty
    then show ?thesis using 2(3) l k interrupt_drains [of intr "t\<lparr>unblocking_cos := unblocking_cos t @ woken\<rparr>"]
      by (simp add: queued_def t1_def)
  next
    case run
    then obtain t2 where d: "drain_running turns t1 = Some t2" and a: "abort_loop intr rounds t2 = Some t'"
      using 2(3) l by (auto split: option.splits)
    show ?thesis using 2(2) [OF t1_def run d a] drain_kept [OF d] k abort_kept_trans by blast
  qed
qed simp

lemma final_turn:
  "co_turn co as t = Some (True, t') \<Longrightarrow> queued t = [] \<Longrightarrow> tk_status t \<noteq> TaskRunning \<Longrightarrow> queued t' = []"
proof (induction as arbitrary: t)
  case (Cons a as)
  obtain r t1 where st: "act_step co a t = (r, t1)" by (cases "act_step co a t")
  have s1: "tk_status t1 \<noteq> TaskRunning" using act_step_kept [OF st] Cons.prems(3) by blast
  have q: "r \<noteq> Some False \<Longrightarrow> queued t1 = []" using st
  proof (cases rule: act_step_effect)
    case moved
    then show ?thesis using Cons.prems(2) by (simp add: moved_def)
  qed (use Cons.prems in simp_all)
  show ?case
  proof (cases r)
    case None
    then show ?thesis using Cons.IH [of t1] Cons.prems(1) st s1 q by (simp split: if_splits)
  next
    case (Some f)
    then show ?thesis using Cons.prems(1) st q by (simp split: if_splits)
  qed
qed simp

lemma task_abort_ok:
  assumes "task_abort intr rounds final t = Some t'"
  shows "(\<forall>c. kept c t \<longrightarrow> co_status t' c = CoCompleted) \<and> (tk_status t \<noteq> TaskRunning \<longrightarrow> queued t' = [])"
proof -
  from assms obtain t1 where l: "abort_loop intr rounds t = Some t1"
      and run: "run_coroutine (tk_main t1) final t1 = Some (True, t')"
    by (auto simp: task_abort_def split: option.splits if_splits)
  from abort_loop_kept [OF l] have k: "abort_kept t t1" and q: "queued t1 = []" by simp_all
  have "co_status t' c = CoCompleted" if "kept c t" for c
  proof -
    have "co_status t1 c = CoCompleted \<or> c = tk_main t1"
      using that k q by (auto simp: abort_kept_def kept_def)
    then show ?thesis using run_coroutine_kept [OF run, of c] by blast
  qed
  moreover have "queued t' = []" if "tk_status t \<noteq> TaskRunning"
  proof -
    have "tk_status t1 \<noteq> TaskRunning" using that k by (simp add: abort_kept_def)
    moreover from run obtain t2 where "co_turn (tk_main t1) final t1 = Some (True, t2)"
        "queued t' = queued t2"
      by (auto simp: run_coroutine_def queued_def split: option.splits if_splits)
    ultimately show ?thesis using final_turn q by simp
  qed
  ultimately show ?thesis by blast
qed

section \<open>Properties\<close>

lemma unblock_true:
  assumes "task_unblock True t = (b, t')"
  shows "moved t t'" and "\<not> b \<Longrightarrow> blocking_cos t \<noteq> [] \<Longrightarrow>
    blocking_cos t' = blocking_cos t \<and> unblocking_cos t' = [] \<and> \<not> tk_running t' \<and>
    running_cos t' = running_cos t \<and> yielding_cos t' = yielding_cos t"
  using moved_unblock [of t True] assms by (auto simp: task_unblock_def split: if_splits)

lemma in_scope_keeps_coroutines:
  assumes run: "sched_in_scope intr turns woken rounds final t = Some (flow, t')"
    and fresh: "distinct (queued t @ spawned (concat turns))"
    and start: "\<not> tk_yielding t" "tk_status t = TaskRunning"
  shows "case flow of
      FlowCease \<Rightarrow> \<forall>c\<in>set (queued t). co_status t' c = CoCompleted
    | _ \<Rightarrow> distinct (queued t') \<and> tk_status t' = TaskRunning \<and> \<not> tk_yielding t' \<and>
        (\<forall>c\<in>set (queued t). c \<in> set (queued t') \<or> co_status t' c = CoCompleted) \<and>
        (flow = FlowBlock \<longrightarrow> running_cos t' = [] \<and> yielding_cos t' = [] \<and> blocking_cos t' \<noteq> [] \<and>
          unblocking_cos t' = [] \<and> \<not> tk_running t')"
proof -
  define t0 where "t0 = t\<lparr>running_cos := running_cos t @ yielding_cos t, yielding_cos := []\<rparr>"
  define t1 where "t1 = snd (task_unblock False t0)"
  have m1: "moved t t1" unfolding t1_def t0_def by (rule moved_trans [OF moved_yielding moved_unblock])
  have s1: "distinct (queued t1 @ spawned (concat turns))" "yield_ok t1" "tk_status t1 \<noteq> TaskCompleted"
    using m1 fresh start by (auto simp: moved_def yield_ok_def)
  from run obtain t2 where l: "sched_loop turns t1 = Some t2"
    by (auto simp: sched_in_scope_def Let_def t1_def t0_def split: option.splits)
  have k2: "kept c t2" if "c \<in> set (queued t)" for c
    using that m1 sched_loop_ok [OF l s1, of c] by (auto simp: moved_def kept_def)
  note ok2 = sched_loop_ok [OF l s1]
  show ?thesis
  proof (cases "tk_status t2 = TaskCompleting")
    case True
    then obtain t3 where a: "task_abort intr rounds final t2 = Some t3"
      using run l by (auto simp: sched_in_scope_def Let_def t1_def t0_def split: option.splits)
    have q: "queued t3 = []" and all: "\<forall>c\<in>set (queued t). co_status t3 c = CoCompleted"
      using task_abort_ok [OF a] True k2 by auto
    have "sched_verdict intr woken rounds final (t3\<lparr>tk_yielding := False\<rparr>) = Some (flow, t')"
      using run l True a by (simp add: sched_in_scope_def t1_def t0_def)
    then have "flow = FlowCease" "t' = t3\<lparr>tk_yielding := False\<rparr>"
      using q by (simp_all add: sched_verdict_def queued_def)
    then show ?thesis using all by simp
  next
    case False
    then have running: "tk_status t2 = TaskRunning" using ok2 by (cases "tk_status t2") auto
    define t4 where "t4 = t2\<lparr>tk_yielding := False\<rparr>"
    have q4: "queued t4 = queued t2" "tk_status t4 = TaskRunning" "co_status t4 = co_status t2"
        "tk_main t4 = tk_main t2" "\<not> tk_yielding t4"
      by (simp_all add: t4_def queued_def running)
    have k4: "kept c t4" if "c \<in> set (queued t)" for c
      using k2 [OF that] q4 running by (simp add: kept_def)
    have idle: "yielding_cos t4 = [] \<Longrightarrow> running_cos t4 = []"
      using ok2 running by (auto simp: t4_def yield_ok_def)
    have sched: "sched_verdict intr woken rounds final t4 = Some (flow, t')"
      using run l False by (simp add: sched_in_scope_def t1_def t0_def t4_def)
    consider (yields) "yielding_cos t4 \<noteq> []" | (deadlock) "yielding_cos t4 = []" "blocking_cos t4 = []" "suspending_cos t4 \<noteq> []"
      | (ends) "yielding_cos t4 = []" "blocking_cos t4 = []" "suspending_cos t4 = []"
      | (blocks) "yielding_cos t4 = []" "blocking_cos t4 \<noteq> []" by blast
    then show ?thesis
    proof cases
      case yields
      then have "flow = FlowYield" "t' = t4" using sched by (simp_all add: sched_verdict_def)
      then show ?thesis using q4 k4 ok2 by (auto simp: kept_def)
    next
      case deadlock
      then obtain t5 where a: "task_abort intr rounds final t4 = Some t5" and f: "flow = FlowCease" "t' = t5"
        using sched by (auto simp: sched_verdict_def)
      have "\<forall>c\<in>set (queued t). co_status t5 c = CoCompleted" using task_abort_ok [OF a] k4 by blast
      then show ?thesis using f by simp
    next
      case ends
      then have "flow = FlowCease" "t' = t4" "queued t4 = []"
        using sched idle by (simp_all add: queued_def sched_verdict_def)
      then show ?thesis using k4 q4 by (auto simp: kept_def)
    next
      case blocks
      let ?t = "t4\<lparr>unblocking_cos := unblocking_cos t4 @ woken\<rparr>"
      obtain b t5 where u: "task_unblock True ?t = (b, t5)" by (cases "task_unblock True ?t")
      then have f: "flow = (if b then FlowYield else FlowBlock)" "t' = t5"
        using sched blocks by (simp_all add: sched_verdict_def)
      have m: "moved t4 t5" using moved_trans [OF moved_fields(1) unblock_true(1) [OF u]] .
      have "kept c t5" if "c \<in> set (queued t)" for c using k4 [OF that] moved_kept [OF m] by blast
      then have "distinct (queued t5) \<and> tk_status t5 = TaskRunning \<and> \<not> tk_yielding t5 \<and>
          (\<forall>c\<in>set (queued t). c \<in> set (queued t5) \<or> co_status t5 c = CoCompleted)"
        using m q4 ok2 by (auto simp: moved_def kept_def)
      moreover have "\<not> b \<Longrightarrow> running_cos t5 = [] \<and> yielding_cos t5 = [] \<and> blocking_cos t5 \<noteq> [] \<and>
          unblocking_cos t5 = [] \<and> \<not> tk_running t5"
        using unblock_true(2) [OF u] blocks idle by simp
      ultimately show ?thesis using f by simp
    qed
  qed
qed



end
