(* ===== verification/Runtime.thy ===== *)
theory Runtime
  imports Task_Correct
begin

text \<open>
  \<open>src/src/runtime.rs\<close>: the scheduler that serves tasks with several threads, from their start to
  the two stop signals of \<open>Runtime::drop\<close>. Its steps are the critical sections of the code and the
  parts between them, interleaved in any order, with the wakers of tasks among them. \<open>None\<close> as the
  result of a step means that the step cannot be taken.
\<close>

section \<open>The builder\<close>

text \<open>\<open>None\<close> is the failed assertion; what the standard library makes of the machine is \<open>available\<close>.\<close>

definition builder_parallelism :: "nat \<Rightarrow> nat option option" where
  "builder_parallelism n = (if n > 0 then Some (Some n) else None)"

definition build_parallelism :: "nat option \<Rightarrow> nat option \<Rightarrow> nat" where
  "build_parallelism parallelism available =
    (case parallelism of Some n \<Rightarrow> n | None \<Rightarrow> (case available of None \<Rightarrow> 4 | Some n \<Rightarrow> n))"

section \<open>The scheduler of a thread\<close>

text \<open>
  \<open>SCHEDULER\<close> is set while a thread serves. \<open>spawn\<close> goes to the scheduler of its builder, or else to that
  of the thread; \<open>None\<close> is the panic ``no runtime''.
\<close>

definition sched_scope_enter :: "'s \<Rightarrow> 's option \<Rightarrow> 's option option" where
  "sched_scope_enter scheduler cell = (case cell of None \<Rightarrow> Some (Some scheduler) | Some _ \<Rightarrow> None)"

definition sched_scope_drop :: "'s option \<Rightarrow> 's option option" where
  "sched_scope_drop cell = (case cell of None \<Rightarrow> None | Some _ \<Rightarrow> Some None)"

definition builder_scheduler :: "'s option \<Rightarrow> 's option \<Rightarrow> 's option" where
  "builder_scheduler own cell = (case own of Some s \<Rightarrow> Some s | None \<Rightarrow> cell)"

section \<open>The scheduler\<close>

record sched_state =
  runq :: "nat list"
  registry :: "nat list"
  stopped :: int

definition sched_state_new :: sched_state where
  "sched_state_new = \<lparr>runq = [], registry = [], stopped = -1\<rparr>"

definition sched_stop :: "sched_state \<Rightarrow> sched_state" where
  "sched_stop st = st\<lparr>stopped := stopped st + 1\<rparr>"

definition sched_sched :: "nat \<Rightarrow> sched_state \<Rightarrow> sched_state" where
  "sched_sched t st = st\<lparr>registry := registry st @ [t], runq := runq st @ [t]\<rparr>"

definition sched_resume :: "nat \<Rightarrow> sched_state \<Rightarrow> sched_state" where
  "sched_resume t st = st\<lparr>runq := runq st @ [t]\<rparr>"

text \<open>The second half of \<open>run\<close>: what becomes of a task that has been scheduled.\<close>

fun run_flow :: "nat \<Rightarrow> sched_flow \<Rightarrow> sched_state \<Rightarrow> sched_state" where
  "run_flow t FlowYield st = st\<lparr>runq := runq st @ [t]\<rparr>"
| "run_flow t FlowBlock st = st"
| "run_flow t FlowCease st = st\<lparr>registry := filter (\<lambda>x. x \<noteq> t) (registry st)\<rparr>"

section \<open>The system\<close>

text \<open>
  Where a scheduling thread is: at the head of the first or second loop of \<open>serve\<close>, executing a
  task it popped in one of them, past that with the verdict, sending the timer its \<open>Stop\<close>, in the
  final loop, aborting a task there, or done.
\<close>

datatype serve_phase = Serving | Draining

datatype sched_thread =
    TLoop serve_phase
  | TExec serve_phase nat
  | TFlow serve_phase nat sched_flow
  | TSend
  | TFinal
  | TAborts
  | TAborting nat
  | TDone

record 'y sys =
  sst :: sched_state
  tasks :: "nat \<Rightarrow> 'y task"
  threads :: "sched_thread list"
  pushes :: "nat list"       \<comment> \<open>tasks whose waker has won and is about to call \<open>resume\<close>\<close>
  stops :: nat               \<comment> \<open>how often \<open>Runtime::drop\<close> has called \<open>stop\<close>\<close>

definition sys_new :: "nat \<Rightarrow> 'y sys" where
  "sys_new parallelism = \<lparr>sst = sched_state_new, tasks = (\<lambda>t. task_with_main t 0),
    threads = replicate parallelism (TLoop Serving), pushes = [], stops = 0\<rparr>"

definition set_thread :: "nat \<Rightarrow> sched_thread \<Rightarrow> 'y sys \<Rightarrow> 'y sys" where
  "set_thread i th s = s\<lparr>threads := (threads s)[i := th]\<rparr>"

definition set_task :: "nat \<Rightarrow> 'y task \<Rightarrow> 'y sys \<Rightarrow> 'y sys" where
  "set_task t k s = s\<lparr>tasks := (tasks s)(t := k)\<rparr>"

definition on_sst :: "(sched_state \<Rightarrow> sched_state) \<Rightarrow> 'y sys \<Rightarrow> 'y sys" where
  "on_sst f s = s\<lparr>sst := f (sst s)\<rparr>"

text \<open>The first half of \<open>run\<close>: pop a task, or wait on the condition variable for another turn.\<close>

definition run_pop :: "serve_phase \<Rightarrow> nat \<Rightarrow> 'y sys \<Rightarrow> 'y sys" where
  "run_pop ph i s =
    (case runq (sst s) of
       [] \<Rightarrow> s
     | t # q \<Rightarrow> set_thread i (TExec ph t) (on_sst (\<lambda>st. st\<lparr>runq := q\<rparr>) s))"

text \<open>One test of the loops of \<open>serve\<close>, and what follows when it fails.\<close>

definition serve_step :: "nat \<Rightarrow> 'y sys \<Rightarrow> 'y sys option" where
  "serve_step i s =
    (if i < length (threads s) then
       (case threads s ! i of
          TLoop Serving \<Rightarrow>
            if stopped (sst s) < 0 then Some (run_pop Serving i s)
            else (let n = stopped (sst s) + 1 in
              Some (set_thread i (if n \<noteq> int (length (threads s)) then TDone else TSend)
                (on_sst (\<lambda>st. st\<lparr>stopped := n\<rparr>) s)))
        | TLoop Draining \<Rightarrow>
            if stopped (sst s) = int (length (threads s)) then Some (run_pop Draining i s)
            else Some (set_thread i TFinal s)
        | TSend \<Rightarrow> Some (set_thread i (TLoop Draining) s)
        | _ \<Rightarrow> None)
     else None)"

text \<open>The scheduling of the task a thread has popped, outside the lock.\<close>

definition exec_step :: "('y \<Rightarrow> bool) \<Rightarrow> 'y act list list \<Rightarrow> nat list \<Rightarrow> (nat list \<times> 'y act list list) list \<Rightarrow>
    'y act list \<Rightarrow> nat \<Rightarrow> 'y sys \<Rightarrow> 'y sys option" where
  "exec_step intr turns woken rounds final i s =
    (if i < length (threads s) then
       (case threads s ! i of
          TExec ph t \<Rightarrow>
            map_option (\<lambda>(flow, k). set_thread i (TFlow ph t flow) (set_task t k s))
              (task_sched intr turns woken rounds final (tasks s t))
        | _ \<Rightarrow> None)
     else None)"

text \<open>Read the task's id, take the lock and act on the verdict.\<close>

definition flow_step :: "nat \<Rightarrow> 'y sys \<Rightarrow> 'y sys option" where
  "flow_step i s =
    (if i < length (threads s) then
       (case threads s ! i of
          TFlow ph t flow \<Rightarrow> Some (set_thread i (TLoop ph) (on_sst (run_flow t flow) s))
        | _ \<Rightarrow> None)
     else None)"

text \<open>
  The final loop: with tasks left, grab those that are blocked, abort what is in the run queue, and
  start over; with none left, the thread is done.
\<close>

fun grab_all :: "nat list \<Rightarrow> 'y sys \<Rightarrow> 'y sys" where
  "grab_all [] s = s"
| "grab_all (t # ts) s =
    (case task_grab (tasks s t) of
       (True, k) \<Rightarrow> grab_all ts (on_sst (sched_resume t) (set_task t k s))
     | (False, k) \<Rightarrow> grab_all ts s)"

definition final_step :: "nat \<Rightarrow> 'y sys \<Rightarrow> 'y sys option" where
  "final_step i s =
    (if i < length (threads s) then
       (case threads s ! i of
          TFinal \<Rightarrow>
            if registry (sst s) = [] then Some (set_thread i TDone s)
            else Some (set_thread i TAborts (grab_all (registry (sst s)) s))
        | TAborts \<Rightarrow>
            (case runq (sst s) of
               [] \<Rightarrow> Some (set_thread i TFinal s)
             | t # q \<Rightarrow> Some (set_thread i (TAborting t) (on_sst (\<lambda>st. st\<lparr>runq := q\<rparr>) s)))
        | _ \<Rightarrow> None)
     else None)"

definition aborted_step :: "('y \<Rightarrow> bool) \<Rightarrow> (nat list \<times> 'y act list list) list \<Rightarrow> 'y act list \<Rightarrow> nat \<Rightarrow>
    'y sys \<Rightarrow> 'y sys option" where
  "aborted_step intr rounds final i s =
    (if i < length (threads s) then
       (case threads s ! i of
          TAborting t \<Rightarrow>
            map_option (\<lambda>k. set_thread i TAborts (on_sst (run_flow t FlowCease) (set_task t k s)))
              (task_abort intr rounds final (tasks s t))
        | _ \<Rightarrow> None)
     else None)"

text \<open>A waker wakes a blocked coroutine, and resumes the task if \<open>wake\<close> told it to.\<close>

definition wake_step :: "nat \<Rightarrow> nat \<Rightarrow> 'y sys \<Rightarrow> 'y sys option" where
  "wake_step t co s =
    (if t \<in> set (registry (sst s)) \<and> co \<in> fst ` set (blocking_cos (tasks s t)) then
       (let (b, k) = task_wake co (tasks s t); s' = set_task t k s in
        Some (if b then s'\<lparr>pushes := pushes s' @ [t]\<rparr> else s'))
     else None)"

definition push_step :: "nat \<Rightarrow> 'y sys \<Rightarrow> 'y sys option" where
  "push_step t s =
    (if t \<in> set (pushes s) then Some (on_sst (sched_resume t) (s\<lparr>pushes := remove1 t (pushes s)\<rparr>)) else None)"

text \<open>\<open>Builder::spawn\<close>: a task with a fresh id goes to the registry and the run queue.\<close>

definition spawn_step :: "nat \<Rightarrow> nat \<Rightarrow> 'y sys \<Rightarrow> 'y sys option" where
  "spawn_step t co s =
    (if t \<in> set (registry (sst s)) then None
     else Some (on_sst (sched_sched t) (set_task t (task_with_main t co) s)))"

text \<open>
  \<open>Runtime::drop\<close>: stop, join the timer task and the ticker, stop again. The timer task returns when it
  gets the \<open>Stop\<close> of the last thread, so the second stop comes after that was sent.
\<close>

fun stop_sent :: "sched_thread \<Rightarrow> bool" where
  "stop_sent (TLoop ph) \<longleftrightarrow> ph = Draining"
| "stop_sent (TExec ph t) \<longleftrightarrow> ph = Draining"
| "stop_sent (TFlow ph t flow) \<longleftrightarrow> ph = Draining"
| "stop_sent TSend \<longleftrightarrow> False"
| "stop_sent TDone \<longleftrightarrow> False"
| "stop_sent _ \<longleftrightarrow> True"

definition drop_step :: "'y sys \<Rightarrow> 'y sys option" where
  "drop_step s =
    (if stops s = 0 \<or> stops s = 1 \<and> list_ex stop_sent (threads s)
     then Some (on_sst sched_stop (s\<lparr>stops := stops s + 1\<rparr>)) else None)"

datatype 'y rt_op =
    RtServe nat
  | RtExec nat "'y \<Rightarrow> bool" "'y act list list" "nat list" "(nat list \<times> 'y act list list) list" "'y act list"
  | RtFlow nat
  | RtFinal nat
  | RtAborted nat "'y \<Rightarrow> bool" "(nat list \<times> 'y act list list) list" "'y act list"
  | RtWake nat nat
  | RtPush nat
  | RtSpawn nat nat
  | RtDrop

fun rt_step :: "'y rt_op \<Rightarrow> 'y sys \<Rightarrow> 'y sys option" where
  "rt_step (RtServe i) s = serve_step i s"
| "rt_step (RtExec i intr turns woken rounds final) s = exec_step intr turns woken rounds final i s"
| "rt_step (RtFlow i) s = flow_step i s"
| "rt_step (RtFinal i) s = final_step i s"
| "rt_step (RtAborted i intr rounds final) s = aborted_step intr rounds final i s"
| "rt_step (RtWake t co) s = wake_step t co s"
| "rt_step (RtPush t) s = push_step t s"
| "rt_step (RtSpawn t co) s = spawn_step t co s"
| "rt_step RtDrop s = drop_step s"

fun rt_run :: "'y rt_op list \<Rightarrow> 'y sys \<Rightarrow> 'y sys option" where
  "rt_run [] s = Some s"
| "rt_run (x # xs) s = (case rt_step x s of None \<Rightarrow> None | Some s' \<Rightarrow> rt_run xs s')"

section \<open>Building a runtime\<close>

text \<open>
  What \<open>build\<close> starts, in this order; each of them may fail, which is a panic. The timer task is the
  first task of the scheduler.
\<close>

datatype build_step = NewNetPoller | StartNetPoller | StartIoPoller | SpawnTicker | SpawnScheduling nat

definition build_steps :: "nat \<Rightarrow> build_step list" where
  "build_steps n = [NewNetPoller, StartNetPoller, StartIoPoller, SpawnTicker] @ map SpawnScheduling [0..<n]"

definition runtime_build :: "(build_step \<Rightarrow> bool) \<Rightarrow> nat option \<Rightarrow> nat option \<Rightarrow> nat \<Rightarrow> nat \<Rightarrow> 'y sys option" where
  "runtime_build works parallelism available timer co =
    (let n = build_parallelism parallelism available in
     if list_all works (build_steps n) then spawn_step timer co (sys_new n) else None)"

text \<open>A runtime that has been built is one step into a run.\<close>

lemma runtime_build_run:
  "runtime_build works parallelism available timer co = Some s \<Longrightarrow>
    rt_run [RtSpawn timer co] (sys_new (build_parallelism parallelism available)) = Some s"
  by (simp add: runtime_build_def Let_def split: if_splits)

end
