(* ===== verification/Runtime_Correct.thy ===== *)
theory Runtime_Correct
  imports Runtime
begin

text \<open>
  A task is run by one thread at a time and no wake of it is lost; the thread of the final loop is
  the only one left. A task that blocks can be gone before the thread that ran it reads its id.
\<close>

section \<open>Scheduling and the flag \<open>running\<close> of a task\<close>

lemma fold_unblock_running [simp]:
  "tk_running (fold unblock_one cos t) = tk_running t" "unblocking_cos (fold unblock_one cos t) = unblocking_cos t"
  by (induction cos arbitrary: t) (simp_all add: unblock_one_def)

lemma unblock_keeps_running [simp]: "tk_running (snd (task_unblock False t)) = tk_running t"
  by (simp add: task_unblock_def)

lemma abort_fold_running [simp]: "tk_running (fold abort_co cos t) = tk_running t"
  by (simp add: abort_fold)

lemma interrupt_keeps_running [simp]: "tk_running (task_interrupt intr t) = tk_running t"
  by (simp add: task_interrupt_def Let_def)

lemma act_step_running: "act_step co a t = (r, t') \<Longrightarrow> tk_running t' = tk_running t"
  by (cases a) (auto simp: task_spawn_def task_resume_def task_suspend_def task_block_def task_cancelling_def task_cancelled_def
      task_yield_coroutine_def task_yield_def Let_def split: if_splits)

lemma co_turn_running: "co_turn co as t = Some (fin, t') \<Longrightarrow> tk_running t' = tk_running t"
  by (induction co as t rule: co_turn.induct) (auto split: option.splits prod.splits if_splits dest: act_step_running)

lemma run_coroutine_running: "run_coroutine co as t = Some (fin, t') \<Longrightarrow> tk_running t' = tk_running t"
  by (auto simp: run_coroutine_def split: option.splits if_splits dest: co_turn_running)

lemma drain_running_running: "drain_running turns t = Some t' \<Longrightarrow> tk_running t' = tk_running t"
proof (induction turns arbitrary: t)
  case (Cons as turns)
  show ?case
  proof (cases "running_cos t")
    case (Cons co cos)
    then obtain fin t1 where "run_coroutine co as (t\<lparr>running_cos := cos\<rparr>) = Some (fin, t1)"
        and "drain_running turns t1 = Some t'"
      using Cons.prems by (auto split: option.splits)
    then show ?thesis using Cons.IH run_coroutine_running by fastforce
  qed (use Cons.prems in simp)
qed (simp split: if_splits)

lemma abort_loop_running: "abort_loop intr rounds t = Some t' \<Longrightarrow> tk_running t' = tk_running t"
  by (induction intr rounds t rule: abort_loop.induct)
    (auto simp: Let_def split: option.splits if_splits dest: drain_running_running)

lemma task_abort_running: "task_abort intr rounds final t = Some t' \<Longrightarrow> tk_running t' = tk_running t"
  by (auto simp: task_abort_def split: option.splits if_splits dest: abort_loop_running run_coroutine_running)

lemma sched_loop_running: "sched_loop turns t = Some t' \<Longrightarrow> tk_running t' = tk_running t"
proof (induction turns arbitrary: t)
  case Nil
  then show ?case by (subst (asm) sched_loop.simps) (simp split: if_splits)
next
  case (Cons as turns)
  from Cons.prems show ?case
    by (subst (asm) sched_loop.simps) (auto split: if_splits option.splits dest: run_coroutine_running Cons.IH)
qed

text \<open>Only the verdict \<open>Block\<close> gives the task to its wakers, with nothing woken.\<close>

lemma sched_verdict_running:
  assumes "sched_verdict intr woken rounds final t = Some (flow, t')" "tk_running t"
  shows "tk_running t' \<longleftrightarrow> flow \<noteq> FlowBlock"
    and "flow = FlowBlock \<Longrightarrow> unblocking_cos t' = [] \<and> blocking_cos t' \<noteq> []"
  using assms by (auto simp: sched_verdict_def task_unblock_def Let_def dest: task_abort_running split: if_splits)

lemma sched_in_scope_running:
  assumes run: "sched_in_scope intr turns woken rounds final t = Some (flow, t')" and t: "tk_running t"
  shows "tk_running t' \<longleftrightarrow> flow \<noteq> FlowBlock"
    and "flow = FlowBlock \<Longrightarrow> unblocking_cos t' = [] \<and> blocking_cos t' \<noteq> []"
proof -
  from run obtain t3 where r: "tk_running t3"
      and v: "sched_verdict intr woken rounds final (t3\<lparr>tk_yielding := False\<rparr>) = Some (flow, t')"
    using t by (auto simp: sched_in_scope_def Let_def split: option.splits if_splits
        dest!: sched_loop_running task_abort_running)
  show "tk_running t' \<longleftrightarrow> flow \<noteq> FlowBlock"
    and "flow = FlowBlock \<Longrightarrow> unblocking_cos t' = [] \<and> blocking_cos t' \<noteq> []"
    using sched_verdict_running [OF v] r by simp_all
qed

lemma task_sched_running:
  assumes run: "task_sched intr turns woken rounds final t = Some (flow, t')" and t: "tk_running t"
  shows "tk_running t' \<longleftrightarrow> flow \<noteq> FlowBlock"
    and "flow = FlowBlock \<Longrightarrow> unblocking_cos t' = [] \<and> blocking_cos t' \<noteq> []"
  using run sched_in_scope_running [of intr turns woken rounds final "t\<lparr>tk_scope := True\<rparr>" flow] t
  by (auto simp: task_sched_def)

section \<open>Who has a task\<close>

text \<open>
  A thread has a task from the pop of the run queue until it has acted on the verdict, except on
  \<open>Block\<close>: the task is its wakers' then.
\<close>

fun executes :: "nat \<Rightarrow> sched_thread \<Rightarrow> bool" where
  "executes t (TExec ph u) \<longleftrightarrow> u = t"
| "executes t (TFlow ph u flow) \<longleftrightarrow> u = t \<and> flow \<noteq> FlowBlock"
| "executes t (TAborting u) \<longleftrightarrow> u = t"
| "executes t _ \<longleftrightarrow> False"

definition executors :: "nat \<Rightarrow> 'y sys \<Rightarrow> nat" where
  "executors t s = length (filter (executes t) (threads s))"

definition tokens :: "nat \<Rightarrow> 'y sys \<Rightarrow> nat" where
  "tokens t s = count_list (runq (sst s)) t + count_list (pushes s) t + executors t s"

text \<open>
  A registered task with \<open>running\<close> set has one token: it is in the run queue, or a waker is about to
  push it, or a thread has it. A task without \<open>running\<close> has none, and waits for a wake.
\<close>

definition token_inv :: "'y sys \<Rightarrow> bool" where
  "token_inv s \<longleftrightarrow> distinct (registry (sst s)) \<and>
    (\<forall>t. tokens t s = (if t \<in> set (registry (sst s)) \<and> tk_running (tasks s t) then 1 else 0)) \<and>
    (\<forall>t. t \<in> set (registry (sst s)) \<and> \<not> tk_running (tasks s t) \<longrightarrow> unblocking_cos (tasks s t) = [])"

lemma token_invD:
  assumes "token_inv s"
  shows "distinct (registry (sst s))"
    and "tokens t s = (if t \<in> set (registry (sst s)) \<and> tk_running (tasks s t) then 1 else 0)"
    and "t \<in> set (registry (sst s)) \<Longrightarrow> \<not> tk_running (tasks s t) \<Longrightarrow> unblocking_cos (tasks s t) = []"
  using assms by (auto simp: token_inv_def)

lemma token_invI:
  assumes "distinct (registry (sst s))"
    and "\<And>t. tokens t s = (if t \<in> set (registry (sst s)) \<and> tk_running (tasks s t) then 1 else 0)"
    and "\<And>t. t \<in> set (registry (sst s)) \<Longrightarrow> \<not> tk_running (tasks s t) \<Longrightarrow> unblocking_cos (tasks s t) = []"
  shows "token_inv s"
  using assms by (simp add: token_inv_def)

lemma filter_list_update:
  "i < length xs \<Longrightarrow>
    length (filter P (xs[i := x])) + of_bool (P (xs ! i)) = length (filter P xs) + of_bool (P x)"
proof (induction xs arbitrary: i)
  case (Cons y ys)
  then show ?case using Cons.IH [of "i - 1"] by (cases i) auto
qed simp

lemma filter_update_same:
  "i < length xs \<Longrightarrow> P x = P (xs ! i) \<Longrightarrow> length (filter P (xs[i := x])) = length (filter P xs)"
  using filter_list_update [of i xs P x] by simp

lemma filter_update_le:
  "i < length xs \<Longrightarrow> P x \<longrightarrow> P (xs ! i) \<Longrightarrow> length (filter P (xs[i := x])) \<le> length (filter P xs)"
  using filter_list_update [of i xs P x] by (cases "P x"; cases "P (xs ! i)") simp_all

lemma executors_set_thread:
  "i < length (threads s) \<Longrightarrow>
    executors t (set_thread i th s) + of_bool (executes t (threads s ! i)) = executors t s + of_bool (executes t th)"
  unfolding executors_def set_thread_def by (simp add: filter_list_update)

lemma count_list_pos: "x \<in> set xs \<Longrightarrow> 0 < count_list xs x"
  by (metis count_list_0_iff not_gr_zero)

lemma sys_fields [simp]:
  "sst (set_thread i th s) = sst s" "tasks (set_thread i th s) = tasks s" "pushes (set_thread i th s) = pushes s"
  "stops (set_thread i th s) = stops s"
  "sst (set_task t k s) = sst s" "threads (set_task t k s) = threads s" "pushes (set_task t k s) = pushes s"
  "stops (set_task t k s) = stops s" "tasks (set_task t k s) = (tasks s)(t := k)"
  "sst (on_sst f s) = f (sst s)" "tasks (on_sst f s) = tasks s" "threads (on_sst f s) = threads s"
  "pushes (on_sst f s) = pushes s" "stops (on_sst f s) = stops s"
  by (simp_all add: set_thread_def set_task_def on_sst_def)

lemma executors_fields [simp]:
  "executors t (set_task u k s) = executors t s" "executors t (on_sst f s) = executors t s"
  "executors t (s\<lparr>pushes := ps\<rparr>) = executors t s" "executors t (s\<lparr>stops := n\<rparr>) = executors t s"
  by (simp_all add: executors_def)

lemma threads_set_thread [simp]: "threads (set_thread i th s) = (threads s)[i := th]"
  by (simp add: set_thread_def)

text \<open>What a thread that has a task knows of it.\<close>

lemma executes_token:
  assumes inv: "token_inv s" and i: "i < length (threads s)" and ex: "executes t (threads s ! i)"
  shows "t \<in> set (registry (sst s))" and "tk_running (tasks s t)" and "executors t s = 1"
    and "t \<notin> set (runq (sst s))" and "t \<notin> set (pushes s)"
proof -
  have "threads s ! i \<in> set (filter (executes t) (threads s))" using i ex by simp
  then have "executors t s \<noteq> 0" unfolding executors_def by (metis length_0_conv list.set(1) empty_iff)
  then have "tokens t s = 1" "t \<in> set (registry (sst s)) \<and> tk_running (tasks s t)" "executors t s \<noteq> 0"
    using token_invD(2) [OF inv, of t] by (auto simp: tokens_def split: if_splits)
  then show "t \<in> set (registry (sst s))" "tk_running (tasks s t)" "executors t s = 1"
      "t \<notin> set (runq (sst s))" "t \<notin> set (pushes s)"
    by (auto simp: tokens_def count_list_0_iff [symmetric])
qed

text \<open>A step in which thread \<open>i\<close> takes a task or hands it on, and the tasks stay.\<close>

lemma token_inv_set_thread:
  assumes inv: "token_inv s" and i: "i < length (threads s)"
    and reg: "registry (sst s') = registry (sst s)" and keep: "tasks s' = tasks s" "pushes s' = pushes s"
    and thr: "threads s' = (threads s)[i := th]"
    and count: "\<And>t. count_list (runq (sst s')) t + of_bool (executes t th) =
      count_list (runq (sst s)) t + of_bool (executes t (threads s ! i))"
  shows "token_inv s'"
proof -
  have "tokens t s' = tokens t s" for t
    using filter_list_update [OF i, of "executes t" th] count [of t] by (simp add: tokens_def executors_def keep thr)
  then show ?thesis using token_invD [OF inv] by (intro token_invI) (simp_all add: reg keep)
qed

lemma serve_token: "token_inv s \<Longrightarrow> serve_step i s = Some s' \<Longrightarrow> token_inv s'"
proof -
  assume inv: "token_inv s" and st: "serve_step i s = Some s'"
  have i: "i < length (threads s)" using st by (simp add: serve_step_def split: if_splits)
  have pop: "token_inv (run_pop ph i s)" if "threads s ! i = TLoop ph" for ph
  proof (cases "runq (sst s)")
    case Nil
    then show ?thesis using inv by (simp add: run_pop_def)
  next
    case (Cons t q)
    show ?thesis
      by (rule token_inv_set_thread [OF inv i, where th = "TExec ph t"]) (auto simp: run_pop_def Cons that)
  qed
  have move: "token_inv (set_thread i th (on_sst f s))"
    if "\<And>t. \<not> executes t th" "\<And>t. \<not> executes t (threads s ! i)" "registry (f (sst s)) = registry (sst s)"
      "runq (f (sst s)) = runq (sst s)" for th f
    by (rule token_inv_set_thread [OF inv i, where th = th]) (simp_all add: that)
  have stay: "token_inv (set_thread i th s)"
    if "\<And>t. \<not> executes t th" "\<And>t. \<not> executes t (threads s ! i)" for th
    by (rule token_inv_set_thread [OF inv i, where th = th]) (simp_all add: that)
  show "token_inv s'"
    using st i pop move [of _ "\<lambda>st. st\<lparr>stopped := stopped (sst s) + 1\<rparr>"] stay
    by (auto simp: serve_step_def Let_def split: sched_thread.splits serve_phase.splits if_splits)
qed

lemma exec_token: "token_inv s \<Longrightarrow> exec_step intr turns woken rounds final i s = Some s' \<Longrightarrow> token_inv s'"
proof -
  assume inv: "token_inv s" and st: "exec_step intr turns woken rounds final i s = Some s'"
  from st obtain ph t flow k where i: "i < length (threads s)" and at: "threads s ! i = TExec ph t"
      and run: "task_sched intr turns woken rounds final (tasks s t) = Some (flow, k)"
      and s': "s' = set_thread i (TFlow ph t flow) (set_task t k s)"
    by (auto simp: exec_step_def split: if_splits sched_thread.splits)
  have tok: "t \<in> set (registry (sst s))" "tk_running (tasks s t)" using executes_token [OF inv i, of t] at by auto
  note flag = task_sched_running [OF run tok(2)]
  have count: "tokens u s' + of_bool (u = t) = tokens u s + of_bool (u = t \<and> flow \<noteq> FlowBlock)" for u
    using executors_set_thread [of i "set_task t k s" u "TFlow ph t flow"] i at by (auto simp: tokens_def s')
  show "token_inv s'"
  proof (rule token_invI)
    show "distinct (registry (sst s'))" using token_invD(1) [OF inv] by (simp add: s')
    show "tokens u s' = (if u \<in> set (registry (sst s')) \<and> tk_running (tasks s' u) then 1 else 0)" for u
      using count [of u] token_invD(2) [OF inv, of u] tok flag(1) by (cases "u = t"; cases flow) (simp_all add: s')
    show "unblocking_cos (tasks s' u) = []" if "u \<in> set (registry (sst s'))" "\<not> tk_running (tasks s' u)" for u
      using that token_invD(3) [OF inv, of u] flag by (cases "u = t") (simp_all add: s')
  qed
qed

text \<open>A thread gives its task up for good.\<close>

lemma token_inv_cease:
  assumes inv: "token_inv s" and i: "i < length (threads s)" and ex: "executes t (threads s ! i)"
    and th: "\<And>u. \<not> executes u th" and other: "\<And>u. u \<noteq> t \<Longrightarrow> \<not> executes u (threads s ! i)"
    and tasks: "\<And>u. u \<noteq> t \<Longrightarrow> tasks s' u = tasks s u" and push: "pushes s' = pushes s"
    and sst: "sst s' = run_flow t FlowCease (sst s)" and thr: "threads s' = (threads s)[i := th]"
  shows "token_inv s'"
proof -
  have count: "tokens u s' + of_bool (u = t) = tokens u s" for u
    using filter_list_update [OF i, of "executes u" th] ex th other [of u]
    by (cases "u = t") (simp_all add: tokens_def executors_def thr push sst)
  have "tokens t s = 1" using token_invD(2) [OF inv, of t] executes_token [OF inv i ex] by simp
  then have t: "tokens t s' = 0" using count [of t] by simp
  show ?thesis
  proof (rule token_invI)
    show "distinct (registry (sst s'))" using token_invD(1) [OF inv] by (simp add: sst)
    show "tokens u s' = (if u \<in> set (registry (sst s')) \<and> tk_running (tasks s' u) then 1 else 0)" for u
      using count [of u] t token_invD(2) [OF inv, of u] tasks [of u] by (cases "u = t") (simp_all add: sst)
    show "unblocking_cos (tasks s' u) = []" if "u \<in> set (registry (sst s'))" "\<not> tk_running (tasks s' u)" for u
      using that token_invD(3) [OF inv, of u] tasks [of u] by (simp add: sst)
  qed
qed

lemma flow_token: "token_inv s \<Longrightarrow> flow_step i s = Some s' \<Longrightarrow> token_inv s'"
proof -
  assume inv: "token_inv s" and st: "flow_step i s = Some s'"
  from st obtain ph t flow where i: "i < length (threads s)" and at: "threads s ! i = TFlow ph t flow"
      and s': "s' = set_thread i (TLoop ph) (on_sst (run_flow t flow) s)"
    by (auto simp: flow_step_def split: if_splits sched_thread.splits)
  show "token_inv s'"
  proof (cases flow)
    case FlowCease
    show ?thesis by (rule token_inv_cease [OF inv i, of t "TLoop ph"]) (auto simp: at s' FlowCease)
  qed (rule token_inv_set_thread [OF inv i, where th = "TLoop ph"]; simp add: at s')+
qed

lemma aborted_token: "token_inv s \<Longrightarrow> aborted_step intr rounds final i s = Some s' \<Longrightarrow> token_inv s'"
proof -
  assume inv: "token_inv s" and st: "aborted_step intr rounds final i s = Some s'"
  from st obtain t k where i: "i < length (threads s)" and at: "threads s ! i = TAborting t"
      and s': "s' = set_thread i TAborts (on_sst (run_flow t FlowCease) (set_task t k s))"
    by (auto simp: aborted_step_def split: if_splits sched_thread.splits)
  show "token_inv s'" by (rule token_inv_cease [OF inv i, of t TAborts]) (auto simp: at s')
qed

text \<open>The flags of a task change with the tokens it has.\<close>

lemma token_inv_set_task:
  assumes inv: "token_inv s" and reg: "distinct (registry (sst s'))"
    and others: "\<And>u. u \<noteq> t \<Longrightarrow> tokens u s' = tokens u s \<and> tasks s' u = tasks s u \<and>
      (u \<in> set (registry (sst s')) \<longleftrightarrow> u \<in> set (registry (sst s)))"
    and one: "tokens t s' = 1" "t \<in> set (registry (sst s'))" "tk_running (tasks s' t)"
  shows "token_inv s'"
proof (rule token_invI [OF reg])
  show "tokens u s' = (if u \<in> set (registry (sst s')) \<and> tk_running (tasks s' u) then 1 else 0)" for u
    using one others [of u] token_invD(2) [OF inv, of u] by (cases "u = t") simp_all
  show "unblocking_cos (tasks s' u) = []" if "u \<in> set (registry (sst s'))" "\<not> tk_running (tasks s' u)" for u
    using that one others [of u] token_invD(3) [OF inv, of u] by (cases "u = t") simp_all
qed

lemma grab_token:
  "token_inv s \<Longrightarrow> set ts \<subseteq> set (registry (sst s)) \<Longrightarrow>
    token_inv (grab_all ts s) \<and> threads (grab_all ts s) = threads s"
proof (induction ts arbitrary: s)
  case (Cons t ts)
  show ?case
  proof (cases "tk_running (tasks s t)")
    case True
    then show ?thesis using Cons by (simp add: task_grab_def)
  next
    case False
    let ?s = "on_sst (sched_resume t) (set_task t ((tasks s t)\<lparr>tk_running := True\<rparr>) s)"
    have "token_inv ?s"
      by (rule token_inv_set_task [OF Cons.prems(1), where t = t])
        (use token_invD [OF Cons.prems(1)] Cons.prems(2) False in \<open>auto simp: tokens_def sched_resume_def\<close>)
    then have "token_inv (grab_all ts ?s) \<and> threads (grab_all ts ?s) = threads ?s"
      by (rule Cons.IH) (use Cons.prems(2) in \<open>simp add: sched_resume_def\<close>)
    then show ?thesis using False by (simp add: task_grab_def)
  qed
qed simp

lemma final_token: "token_inv s \<Longrightarrow> final_step i s = Some s' \<Longrightarrow> token_inv s'"
proof -
  assume inv: "token_inv s" and st: "final_step i s = Some s'"
  have i: "i < length (threads s)" using st by (simp add: final_step_def split: if_splits)
  note grab = grab_token [OF inv order_refl]
  from st i consider (finish) "threads s ! i = TFinal" "s' = set_thread i TDone s"
    | (grab) "threads s ! i = TFinal" "s' = set_thread i TAborts (grab_all (registry (sst s)) s)"
    | (again) "threads s ! i = TAborts" "s' = set_thread i TFinal s"
    | (pop) t q where "threads s ! i = TAborts" "runq (sst s) = t # q"
        "s' = set_thread i (TAborting t) (on_sst (\<lambda>st. st\<lparr>runq := q\<rparr>) s)"
    by (auto simp: final_step_def split: sched_thread.splits if_splits list.splits)
  then show "token_inv s'"
  proof cases
    case grab
    show ?thesis
      by (rule token_inv_set_thread [of "grab_all (registry (sst s)) s" i _ TAborts]) (use grab \<open>token_inv (grab_all _ _) \<and> _\<close> i in simp_all)
  next
    case pop
    show ?thesis by (rule token_inv_set_thread [OF inv i, where th = "TAborting t"]) (auto simp: pop)
  next
    case finish
    show ?thesis by (rule token_inv_set_thread [OF inv i, where th = TDone]) (simp_all add: finish)
  next
    case again
    show ?thesis by (rule token_inv_set_thread [OF inv i, where th = TFinal]) (simp_all add: again)
  qed
qed

lemma wake_token: "token_inv s \<Longrightarrow> wake_step t co s = Some s' \<Longrightarrow> token_inv s'"
proof -
  assume inv: "token_inv s" and st: "wake_step t co s = Some s'"
  have reg: "t \<in> set (registry (sst s))" using st by (simp add: wake_step_def split: if_splits)
  note tok = token_invD(2) [OF inv, of t] and idle = token_invD(3) [OF inv reg]
  show "token_inv s'"
    by (rule token_inv_set_task [OF inv, where t = t])
      (use st reg tok idle token_invD(1) [OF inv] in \<open>auto simp: wake_step_def task_wake_def tokens_def split: if_splits\<close>)
qed

lemma push_token: "token_inv s \<Longrightarrow> push_step t s = Some s' \<Longrightarrow> token_inv s'"
proof -
  assume inv: "token_inv s" and st: "push_step t s = Some s'"
  from st have mem: "t \<in> set (pushes s)" and s': "s' = on_sst (sched_resume t) (s\<lparr>pushes := remove1 t (pushes s)\<rparr>)"
    by (auto simp: push_step_def split: if_splits)
  have "tokens u s' = tokens u s" for u
    using mem by (cases "t = u") (auto simp: tokens_def s' sched_resume_def count_list_0_iff Suc_pred'
        dest!: count_list_pos)
  then show "token_inv s'" using token_invD [OF inv] by (intro token_invI) (simp_all add: s' sched_resume_def)
qed

lemma spawn_token: "token_inv s \<Longrightarrow> spawn_step t co s = Some s' \<Longrightarrow> token_inv s'"
proof -
  assume inv: "token_inv s" and st: "spawn_step t co s = Some s'"
  have reg: "t \<notin> set (registry (sst s))" and s': "s' = on_sst (sched_sched t) (set_task t (task_with_main t co) s)"
    using st by (auto simp: spawn_step_def split: if_splits)
  show "token_inv s'"
    by (rule token_inv_set_task [OF inv, where t = t])
      (use reg token_invD(1) [OF inv] token_invD(2) [OF inv, of t] in \<open>auto simp: s' sched_sched_def tokens_def task_with_main_def\<close>)
qed

lemma drop_token: "token_inv s \<Longrightarrow> drop_step s = Some s' \<Longrightarrow> token_inv s'"
  by (auto simp: drop_step_def token_inv_def tokens_def sched_stop_def split: if_splits)

lemma rt_step_token: "token_inv s \<Longrightarrow> rt_step x s = Some s' \<Longrightarrow> token_inv s'"
  by (cases x) (auto dest: serve_token exec_token flow_token final_token aborted_token wake_token push_token
      spawn_token drop_token)

lemma rt_run_invariant:
  assumes step: "\<And>x s s'. I s \<Longrightarrow> rt_step x s = Some s' \<Longrightarrow> I s'"
  shows "I s \<Longrightarrow> rt_run ops s = Some s' \<Longrightarrow> I s'"
  by (induction ops arbitrary: s) (auto split: option.splits dest: step)

lemma token_inv_new: "token_inv (sys_new n)"
  by (simp add: token_inv_def tokens_def executors_def sys_new_def sched_state_new_def)

lemma filter_at_most_one:
  assumes "length (filter P xs) \<le> 1" "i < length xs" "j < length xs" "P (xs ! i)" "P (xs ! j)"
  shows "i = j"
  using assms card_le_Suc0_iff_eq [of "{i. i < length xs \<and> P (xs ! i)}"] by (simp add: length_filter_conv_card)

lemma count_at_most_one: "(\<And>t. count_list xs t \<le> 1) \<Longrightarrow> distinct xs"
proof (induction xs)
  case (Cons x xs)
  have "count_list xs t \<le> 1" for t using Cons.prems [of t] by (simp split: if_splits)
  moreover have "count_list xs x = 0" using Cons.prems [of x] by simp
  ultimately show ?case using Cons.IH by (simp add: count_list_0_iff)
qed simp

text \<open>
  C7. However threads, wakers, spawns and the runtime's drop interleave, no two threads run the same
  task; a task that is run is registered and not in the run queue; the run queue has no duplicate
  and only registered tasks, so no pointer in it dangles; and no wake is lost: a task with a woken
  coroutine is in the run queue, about to be pushed there, or run by a thread.
\<close>

theorem runtime_exclusive:
  assumes run: "rt_run ops (sys_new n) = Some s"
  shows "(\<forall>i j t. i < length (threads s) \<and> j < length (threads s) \<and>
        executes t (threads s ! i) \<and> executes t (threads s ! j) \<longrightarrow> i = j) \<and>
      (\<forall>i t. i < length (threads s) \<and> executes t (threads s ! i) \<longrightarrow>
        t \<in> set (registry (sst s)) \<and> t \<notin> set (runq (sst s))) \<and>
      distinct (runq (sst s)) \<and> set (runq (sst s)) \<subseteq> set (registry (sst s)) \<and>
      (\<forall>t\<in>set (registry (sst s)). unblocking_cos (tasks s t) \<noteq> [] \<longrightarrow>
        t \<in> set (runq (sst s)) \<or> t \<in> set (pushes s) \<or> (\<exists>i<length (threads s). executes t (threads s ! i)))"
proof -
  have inv: "token_inv s" using rt_run_invariant [where I = token_inv, OF rt_step_token token_inv_new run] .
  have le: "tokens t s \<le> 1" for t using token_invD(2) [OF inv, of t] by simp
  have one: "count_list (runq (sst s)) t \<le> 1" "executors t s \<le> 1" for t
    using le [of t] by (simp_all add: tokens_def)
  have held: "t \<in> set (registry (sst s))" if "t \<in> set (runq (sst s))" for t
    using token_invD(2) [OF inv, of t] count_list_pos [OF that] by (simp add: tokens_def split: if_splits)
  have woken: "t \<in> set (runq (sst s)) \<or> t \<in> set (pushes s) \<or> (\<exists>i<length (threads s). executes t (threads s ! i))"
    if reg: "t \<in> set (registry (sst s))" and "unblocking_cos (tasks s t) \<noteq> []" for t
  proof (rule ccontr)
    assume no: "\<not> ?thesis"
    then have "executors t s = 0" by (auto simp: executors_def filter_empty_conv in_set_conv_nth)
    then have "tokens t s = 0" using no by (simp add: tokens_def)
    then show False using token_invD(2,3) [OF inv] that by (metis zero_neq_one)
  qed
  show ?thesis
    using executes_token(1,4) [OF inv] count_at_most_one [OF one(1)] held woken
      filter_at_most_one [OF one(2) [unfolded executors_def]] by blast
qed

text \<open>Two threads: the first runs a task that blocks, a waker hands it to the second.\<close>

lemmas rt_simps = sys_new_def sched_state_new_def serve_step_def run_pop_def exec_step_def flow_step_def wake_step_def
  push_step_def spawn_step_def set_thread_def set_task_def on_sst_def sched_sched_def sched_resume_def
  task_with_main_def task_wake_def task_sched_def sched_in_scope_def sched_verdict_def task_unblock_def unblock_one_def
  sched_loop.simps run_coroutine_def task_block_def map_insert_def map_remove_def task_abort_def
  task_interrupt_def Let_def

definition handover :: "unit rt_op list" where
  "handover = [RtSpawn 1 10, RtServe 0, RtExec 0 (\<lambda>y. True) [[ABlock (AsInterruptible ())]] [] [] [],
    RtWake 1 10, RtPush 1, RtServe 1]"

definition handover_ceases :: "unit rt_op list" where
  "handover_ceases = handover @ [RtExec 1 (\<lambda>y. True) [[AMainReturns]] [] [([], [])] [AComplete], RtFlow 1]"

lemma runtime_exclusive_witness:
  "\<exists>s. rt_run handover (sys_new 2) = Some s \<and> threads s = [TFlow Serving 1 FlowBlock, TExec Serving 1] \<and>
    1 \<in> set (registry (sst s)) \<and> 1 \<notin> set (runq (sst s))"
proof -
  have "map_option threads (rt_run handover (sys_new 2)) = Some [TFlow Serving 1 FlowBlock, TExec Serving 1]"
    by (simp add: handover_def rt_simps eval_nat_numeral)
  then obtain s where "rt_run handover (sys_new 2) = Some s" "threads s = [TFlow Serving 1 FlowBlock, TExec Serving 1]"
    by auto
  moreover have "executes 1 (threads s ! 1)" "1 < length (threads s)" using calculation by simp_all
  ultimately show ?thesis using runtime_exclusive [of handover 2 s] by blast
qed

text \<open>
  The first thread is still before its \<open>task.id()\<close> when the second is through: the registry, which
  owns the task, has dropped it.
\<close>

theorem blocked_task_outlived:
  "\<exists>s. rt_run handover_ceases (sys_new 2) = Some s \<and> threads s ! 0 = TFlow Serving 1 FlowBlock \<and>
    1 \<notin> set (registry (sst s))"
proof -
  have "map_option (\<lambda>s. (threads s, registry (sst s))) (rt_run handover_ceases (sys_new 2)) =
      Some ([TFlow Serving 1 FlowBlock, TLoop Serving], [])"
    by (simp add: handover_def handover_ceases_def rt_simps eval_nat_numeral)
  then show ?thesis by auto
qed

section \<open>Stopping\<close>

fun serving :: "sched_thread \<Rightarrow> bool" where
  "serving (TLoop ph) \<longleftrightarrow> ph = Serving"
| "serving (TExec ph t) \<longleftrightarrow> ph = Serving"
| "serving (TFlow ph t flow) \<longleftrightarrow> ph = Serving"
| "serving _ \<longleftrightarrow> False"

definition late :: "sched_thread \<Rightarrow> bool" where
  "late th \<longleftrightarrow> \<not> serving th \<and> th \<noteq> TDone"

fun in_final_loop :: "sched_thread \<Rightarrow> bool" where
  "in_final_loop (TAborting t) \<longleftrightarrow> True"
| "in_final_loop th \<longleftrightarrow> th \<in> {TFinal, TAborts}"

text \<open>How \<open>stopped\<close> counts: the threads past the first loop, and the two stops.\<close>

definition stop_inv :: "nat \<Rightarrow> 'y sys \<Rightarrow> bool" where
  "stop_inv n s \<longleftrightarrow> length (threads s) = n \<and>
    (let servers = length (filter serving (threads s)); lates = length (filter late (threads s)) in
     (stops s = 0 \<and> stopped (sst s) = -1 \<and> servers = n \<and> lates = 0 \<or>
      stops s = 1 \<and> stopped (sst s) + int servers = int n \<and> lates \<le> of_bool (servers = 0) \<or>
      stops s = 2 \<and> stopped (sst s) = int n + 1 \<and> servers = 0 \<and> lates \<le> 1) \<and>
     (stops s < 2 \<longrightarrow> length (filter in_final_loop (threads s)) = 0))"

lemma stop_inv_new: "stop_inv n (sys_new n)"
  by (simp add: stop_inv_def sys_new_def sched_state_new_def late_def filter_False)

text \<open>A step that leaves the thread where it is with respect to the stops.\<close>

lemma stop_inv_stay:
  assumes inv: "stop_inv n s" and i: "i < length (threads s)" and thr: "threads s' = (threads s)[i := th]"
    and same: "stopped (sst s') = stopped (sst s)" "stops s' = stops s"
    and th: "serving th = serving (threads s ! i)" "late th = late (threads s ! i)"
    and fin: "in_final_loop th \<longrightarrow> in_final_loop (threads s ! i)"
  shows "stop_inv n s'"
proof -
  have "length (filter serving (threads s')) = length (filter serving (threads s))"
      "length (filter late (threads s')) = length (filter late (threads s))"
      "length (filter in_final_loop (threads s')) \<le> length (filter in_final_loop (threads s))"
    unfolding thr using filter_update_same [OF i] filter_update_le [OF i] th fin by blast+
  then show ?thesis using inv by (auto simp: stop_inv_def Let_def thr same)
qed

lemma stop_inv_same:
  assumes "stop_inv n s" "threads s' = threads s" "stopped (sst s') = stopped (sst s)" "stops s' = stops s"
  shows "stop_inv n s'"
  using assms by (simp add: stop_inv_def)

lemma stop_invD:
  assumes "stop_inv n s"
  shows "length (threads s) = n"
    and "i < n \<Longrightarrow> serving (threads s ! i) \<Longrightarrow> stops s < 2 \<and> length (filter late (threads s)) = 0"
    and "i < n \<Longrightarrow> late (threads s ! i) \<Longrightarrow> length (filter serving (threads s)) = 0 \<and> length (filter late (threads s)) = 1"
    and "i < n \<Longrightarrow> in_final_loop (threads s ! i) \<Longrightarrow> stops s = 2"
proof -
  have pos: "0 < length (filter P (threads s))" if "i < n" "P (threads s ! i)" for P
  proof -
    have "threads s ! i \<in> set (filter P (threads s))" using that assms by (simp add: stop_inv_def)
    then show ?thesis by (rule length_pos_if_in_set)
  qed
  show "length (threads s) = n" using assms by (simp add: stop_inv_def)
  show "stops s < 2 \<and> length (filter late (threads s)) = 0" if "i < n" "serving (threads s ! i)"
    using pos [of serving, OF that] assms by (auto simp: stop_inv_def Let_def simp del: length_greater_0_conv)
  show "length (filter serving (threads s)) = 0 \<and> length (filter late (threads s)) = 1" if "i < n" "late (threads s ! i)"
  proof -
    have "length (filter late (threads s)) \<le> of_bool (length (filter serving (threads s)) = 0)"
      using assms by (auto simp: stop_inv_def Let_def)
    then show ?thesis using pos [of late, OF that]
      by (cases "length (filter serving (threads s)) = 0") (auto simp: le_Suc_eq)
  qed
  show "stops s = 2" if "i < n" "in_final_loop (threads s ! i)"
    using pos [of in_final_loop, OF that] assms by (auto simp: stop_inv_def Let_def)
qed

lemma serve_stop: "stop_inv n s \<Longrightarrow> serve_step i s = Some s' \<Longrightarrow> stop_inv n s'"
proof -
  assume inv: "stop_inv n s" and st: "serve_step i s = Some s'"
  have i: "i < length (threads s)" using st by (simp add: serve_step_def split: if_splits)
  have n: "length (threads s) = n" using stop_invD(1) [OF inv] .
  have pop: "stop_inv n (run_pop ph i s)" if "threads s ! i = TLoop ph" for ph
  proof (cases "runq (sst s)")
    case Nil
    then show ?thesis using inv by (simp add: run_pop_def)
  next
    case (Cons t q)
    show ?thesis
      by (rule stop_inv_stay [OF inv i, where th = "TExec ph t"]) (auto simp: run_pop_def Cons that late_def)
  qed
  from st i consider (pop) ph where "threads s ! i = TLoop ph" "s' = run_pop ph i s"
    | (leave) "threads s ! i = TLoop Serving" "\<not> stopped (sst s) < 0"
        "s' = set_thread i (if stopped (sst s) + 1 \<noteq> int (length (threads s)) then TDone else TSend)
          (on_sst (\<lambda>st. st\<lparr>stopped := stopped (sst s) + 1\<rparr>) s)"
    | (final) "threads s ! i = TLoop Draining" "stopped (sst s) \<noteq> int (length (threads s))" "s' = set_thread i TFinal s"
    | (send) "threads s ! i = TSend" "s' = set_thread i (TLoop Draining) s"
    by (auto simp: serve_step_def Let_def split: sched_thread.splits serve_phase.splits if_splits)
  then show "stop_inv n s'"
  proof cases
    case pop
    then show ?thesis using \<open>\<And>ph. threads s ! i = TLoop ph \<Longrightarrow> stop_inv n (run_pop ph i s)\<close> by simp
  next
    case leave
    let ?th = "if stopped (sst s) + 1 \<noteq> int (length (threads s)) then TDone else TSend"
    have th: "\<not> serving ?th" "late ?th \<longleftrightarrow> stopped (sst s) + 1 = int n" "\<not> in_final_loop ?th"
      using n by (auto simp: late_def)
    have old: "serving (threads s ! i)" "\<not> late (threads s ! i)" "\<not> in_final_loop (threads s ! i)"
      using leave by (simp_all add: late_def)
    have s: "stops s = 1" "stopped (sst s) + int (length (filter serving (threads s))) = int n"
        "length (filter late (threads s)) = 0" "length (filter in_final_loop (threads s)) = 0"
      using inv stop_invD(2) [OF inv, of i] old i n leave(2) by (auto simp: stop_inv_def Let_def)
    have "length (filter serving ((threads s)[i := ?th])) + 1 = length (filter serving (threads s))"
        "length (filter late ((threads s)[i := ?th])) = of_bool (stopped (sst s) + 1 = int n)"
        "length (filter in_final_loop ((threads s)[i := ?th])) = 0"
      using filter_list_update [OF i, of serving ?th] filter_list_update [OF i, of late ?th]
        filter_list_update [OF i, of in_final_loop ?th] th old s by simp_all
    moreover from this(1) have "filter serving ((threads s)[i := ?th]) = []" if "stopped (sst s) + 1 = int n"
      using that s(2) by (simp only: length_0_conv [symmetric])
    ultimately show ?thesis using s n unfolding stop_inv_def leave(3) Let_def sys_fields threads_set_thread
      by (auto simp del: length_0_conv)
  next
    case final
    have "late (threads s ! i)" using final by (simp add: late_def)
    then have "stops s = 2" using stop_invD(3) [OF inv, of i] inv final(2) i n by (auto simp: stop_inv_def Let_def)
    moreover have "length (filter serving ((threads s)[i := TFinal])) = length (filter serving (threads s))"
        "length (filter late ((threads s)[i := TFinal])) = length (filter late (threads s))"
      using filter_list_update [OF i, of serving TFinal] filter_list_update [OF i, of late TFinal] final
      by (simp_all add: late_def)
    ultimately show ?thesis using inv unfolding stop_inv_def final(3) Let_def sys_fields threads_set_thread by auto
  next
    case send
    show ?thesis by (rule stop_inv_stay [OF inv i, where th = "TLoop Draining"]) (auto simp: send late_def)
  qed
qed

lemma exec_stop: "stop_inv n s \<Longrightarrow> exec_step intr turns woken rounds final i s = Some s' \<Longrightarrow> stop_inv n s'"
proof -
  assume inv: "stop_inv n s" and st: "exec_step intr turns woken rounds final i s = Some s'"
  from st obtain ph t flow k where i: "i < length (threads s)" and at: "threads s ! i = TExec ph t"
      and s': "s' = set_thread i (TFlow ph t flow) (set_task t k s)"
    by (auto simp: exec_step_def split: if_splits sched_thread.splits)
  show "stop_inv n s'" by (rule stop_inv_stay [OF inv i, where th = "TFlow ph t flow"]) (simp_all add: at s' late_def)
qed

lemma flow_stop: "stop_inv n s \<Longrightarrow> flow_step i s = Some s' \<Longrightarrow> stop_inv n s'"
proof -
  assume inv: "stop_inv n s" and st: "flow_step i s = Some s'"
  from st obtain ph t flow where i: "i < length (threads s)" and at: "threads s ! i = TFlow ph t flow"
      and s': "s' = set_thread i (TLoop ph) (on_sst (run_flow t flow) s)"
    by (auto simp: flow_step_def split: if_splits sched_thread.splits)
  have "stopped (run_flow t flow (sst s)) = stopped (sst s)" by (cases flow) simp_all
  then show "stop_inv n s'" by (intro stop_inv_stay [OF inv i, where th = "TLoop ph"]) (simp_all add: at s' late_def)
qed

lemma aborted_stop: "stop_inv n s \<Longrightarrow> aborted_step intr rounds final i s = Some s' \<Longrightarrow> stop_inv n s'"
proof -
  assume inv: "stop_inv n s" and st: "aborted_step intr rounds final i s = Some s'"
  from st obtain t k where i: "i < length (threads s)" and at: "threads s ! i = TAborting t"
      and s': "s' = set_thread i TAborts (on_sst (run_flow t FlowCease) (set_task t k s))"
    by (auto simp: aborted_step_def split: if_splits sched_thread.splits)
  show "stop_inv n s'" by (rule stop_inv_stay [OF inv i, where th = TAborts]) (simp_all add: at s' late_def)
qed

lemma grab_all_fields:
  "stopped (sst (grab_all ts s)) = stopped (sst s) \<and> stops (grab_all ts s) = stops s \<and>
    threads (grab_all ts s) = threads s"
  by (induction ts arbitrary: s) (simp_all add: task_grab_def sched_resume_def split: bool.splits)

lemma final_stop: "stop_inv n s \<Longrightarrow> final_step i s = Some s' \<Longrightarrow> stop_inv n s'"
proof -
  assume inv: "stop_inv n s" and st: "final_step i s = Some s'"
  have i: "i < length (threads s)" using st by (simp add: final_step_def split: if_splits)
  from st i consider (finish) "threads s ! i = TFinal" "s' = set_thread i TDone s"
    | (grab) "threads s ! i = TFinal" "s' = set_thread i TAborts (grab_all (registry (sst s)) s)"
    | (again) "threads s ! i = TAborts" "s' = set_thread i TFinal s"
    | (pop) t q where "threads s ! i = TAborts"
        "s' = set_thread i (TAborting t) (on_sst (\<lambda>st. st\<lparr>runq := q\<rparr>) s)"
    by (auto simp: final_step_def split: sched_thread.splits if_splits list.splits)
  then show "stop_inv n s'"
  proof cases
    case finish
    have "stops s = 2" using stop_invD(1,4) [OF inv] i finish by fastforce
    moreover have "length (filter serving ((threads s)[i := TDone])) \<le> length (filter serving (threads s))"
        "length (filter late ((threads s)[i := TDone])) \<le> length (filter late (threads s))"
      using i by (intro filter_update_le; simp add: late_def)+
    ultimately show ?thesis using inv unfolding stop_inv_def finish(2) Let_def sys_fields threads_set_thread by auto
  next
    case grab
    show ?thesis
      by (rule stop_inv_stay [OF inv i, where th = TAborts]) (simp_all add: grab grab_all_fields late_def)
  next
    case again
    show ?thesis by (rule stop_inv_stay [OF inv i, where th = TFinal]) (simp_all add: again late_def)
  next
    case pop
    show ?thesis by (rule stop_inv_stay [OF inv i, where th = "TAborting t"]) (simp_all add: pop late_def)
  qed
qed

lemma wake_stop: "stop_inv n s \<Longrightarrow> wake_step t co s = Some s' \<Longrightarrow> stop_inv n s'"
  by (erule stop_inv_same) (auto simp: wake_step_def Let_def split: if_splits prod.splits)

lemma push_stop: "stop_inv n s \<Longrightarrow> push_step t s = Some s' \<Longrightarrow> stop_inv n s'"
  by (erule stop_inv_same) (auto simp: push_step_def sched_resume_def split: if_splits)

lemma spawn_stop: "stop_inv n s \<Longrightarrow> spawn_step t co s = Some s' \<Longrightarrow> stop_inv n s'"
  by (erule stop_inv_same) (auto simp: spawn_step_def sched_sched_def split: if_splits)

lemma drop_stop: "stop_inv n s \<Longrightarrow> drop_step s = Some s' \<Longrightarrow> stop_inv n s'"
proof -
  assume inv: "stop_inv n s" and st: "drop_step s = Some s'"
  have s': "s' = on_sst sched_stop (s\<lparr>stops := stops s + 1\<rparr>)" using st by (simp add: drop_step_def split: if_splits)
  show "stop_inv n s'"
  proof (cases "stops s = 0")
    case True
    then show ?thesis using inv
      by (auto simp: s' stop_inv_def Let_def sched_stop_def)
  next
    case False
    then have s: "stops s = 1" "list_ex stop_sent (threads s)" using st by (simp_all add: drop_step_def split: if_splits)
    then obtain i where i: "i < n" "stop_sent (threads s ! i)"
      using stop_invD(1) [OF inv] by (auto simp: list_ex_length)
    have "late (threads s ! i)" using i(2) by (cases "threads s ! i") (auto simp: late_def)
    then show ?thesis using stop_invD(3) [OF inv i(1)] s(1) inv
      by (auto simp: s' stop_inv_def Let_def sched_stop_def)
  qed
qed

lemma rt_step_stop: "stop_inv n s \<Longrightarrow> rt_step x s = Some s' \<Longrightarrow> stop_inv n s'"
  by (cases x) (auto dest: serve_stop exec_stop flow_stop final_stop aborted_stop wake_stop push_stop
      spawn_stop drop_stop)

text \<open>
  C10. The last loop of \<open>serve\<close> runs alone: when a thread of the runtime is there, both stops of the
  drop have happened and every other scheduling thread has returned. Before the first stop no
  thread leaves its loop, and after it at most one is left to serve the timer.
\<close>

theorem final_loop_is_alone:
  assumes run: "rt_run ops (sys_new n) = Some s"
  shows "length (threads s) = n \<and> (stops s = 0 \<longrightarrow> stopped (sst s) = -1 \<and> list_all serving (threads s)) \<and>
    (\<forall>i<n. late (threads s ! i) \<longrightarrow> stops s > 0 \<and> (\<forall>j<n. j \<noteq> i \<longrightarrow> threads s ! j = TDone)) \<and>
    (\<forall>i<n. in_final_loop (threads s ! i) \<longrightarrow> stops s = 2 \<and> stopped (sst s) = int n + 1)"
proof -
  have inv: "stop_inv n s" using rt_run_invariant [where I = "stop_inv n", OF rt_step_stop stop_inv_new run] .
  have n: "length (threads s) = n" using stop_invD(1) [OF inv] .
  have zero: "stopped (sst s) = -1 \<and> list_all serving (threads s)" if "stops s = 0"
  proof -
    have "length (filter serving (threads s)) = length (threads s)" "stopped (sst s) = -1"
      using inv that by (simp_all add: stop_inv_def Let_def)
    then show ?thesis using length_filter_less [of _ "threads s" serving] by (auto simp: list_all_iff)
  qed
  have alone: "stops s > 0 \<and> (\<forall>j<n. j \<noteq> i \<longrightarrow> threads s ! j = TDone)" if i: "i < n" "late (threads s ! i)" for i
  proof -
    note one = stop_invD(3) [OF inv i]
    have "threads s ! j = TDone" if j: "j < n" "j \<noteq> i" for j
    proof -
      have "\<not> serving (threads s ! j)" using stop_invD(2) [OF inv j(1)] one by auto
      moreover have "\<not> late (threads s ! j)" using filter_at_most_one [of late "threads s" i j] one i j n by auto
      ultimately show ?thesis by (simp add: late_def)
    qed
    moreover have "stops s \<noteq> 0" using zero i n by (auto simp: late_def list_all_length)
    ultimately show ?thesis by simp
  qed
  have "stops s = 2 \<and> stopped (sst s) = int n + 1" if "i < n" "in_final_loop (threads s ! i)" for i
    using stop_invD(4) [OF inv that] inv by (auto simp: stop_inv_def Let_def)
  then show ?thesis using n zero alone by blast
qed

text \<open>A runtime of two threads, without tasks, is dropped.\<close>

lemma final_loop_is_alone_witness:
  "\<exists>s. rt_run [RtDrop, RtServe 0, RtServe 1, RtServe 1, RtDrop, RtServe 1] (sys_new 2 :: unit sys) = Some s \<and>
    in_final_loop (threads s ! 1) \<and> threads s ! 0 = TDone"
proof -
  let ?run = "rt_run [RtDrop, RtServe 0, RtServe 1, RtServe 1, RtDrop, RtServe 1] (sys_new 2 :: unit sys)"
  have "map_option threads ?run = Some [TDone, TFinal]"
    by (simp add: rt_simps drop_step_def sched_stop_def eval_nat_numeral)
  then obtain s where s: "?run = Some s" "threads s = [TDone, TFinal]" by auto
  from final_loop_is_alone [OF s(1)] s show ?thesis by (auto simp: late_def)
qed

end
