(* ===== verification/Io_Poller.thy ===== *)
theory Io_Poller
  imports Prelude
begin

text \<open>
  \<open>src/src/io/poller\<close>: operations on files are requests to a thread that drives an \<open>io_uring\<close>, or to a
  pool of threads for what the ring cannot do. A request carries the waker of the session its
  client waits on, known by its address, which is also the user data of its entry in the ring.
\<close>

section \<open>Operations\<close>

text \<open>\<open>operation.rs\<close>; pointers and descriptors are numbers.\<close>

datatype io_operation =
    OpOpen nat "32 word" "32 word"
  | OpRead nat nat "64 word" "64 word"      \<comment> \<open>descriptor, buffer, length, offset\<close>
  | OpWrite nat nat "64 word" "64 word"
  | OpFsync nat bool
  | OpCancel nat
  | OpTruncate nat "64 word"
  | OpStat nat nat nat

datatype op_code = CodeOpen | CodeRead | CodeWrite | CodeFsync | CodeCancel | CodeTruncate | CodeStat

fun op_code_of :: "io_operation \<Rightarrow> op_code" where
  "op_code_of (OpOpen p f m) = CodeOpen"
| "op_code_of (OpRead fd b l off) = CodeRead"
| "op_code_of (OpWrite fd b l off) = CodeWrite"
| "op_code_of (OpFsync fd d) = CodeFsync"
| "op_code_of (OpCancel ud) = CodeCancel"
| "op_code_of (OpTruncate fd n) = CodeTruncate"
| "op_code_of (OpStat fd p m) = CodeStat"

record io_request =
  rq_waker :: nat
  rq_operation :: io_operation

text \<open>A result: an error number of the system, or a count.\<close>

type_synonym io_result = "int + int"

definition ECANCELED :: int where
  "ECANCELED = 125"

section \<open>Entries of the ring\<close>

datatype stat_flag = AT_SYMLINK_NOFOLLOW | AT_STATX_SYNC_AS_STAT | AT_EMPTY_PATH

datatype squeue_op =
    SqOpenAt nat "32 word" "32 word"         \<comment> \<open>relative to the working directory\<close>
  | SqRead nat nat "32 word" "64 word"
  | SqWrite nat nat "32 word" "64 word"
  | SqFsync nat bool
  | SqStatx nat nat nat "stat_flag set"
  | SqAsyncCancel nat

record squeue_entry =
  sq_op :: squeue_op
  sq_user_data :: nat

text \<open>\<open>None\<close> is the \<open>unreachable!\<close> on an operation the ring does not know.\<close>

fun uring_op :: "io_operation \<Rightarrow> squeue_op option" where
  "uring_op (OpOpen p f m) = Some (SqOpenAt p f m)"
| "uring_op (OpRead fd b l off) = Some (SqRead fd b (ucast l) off)"
| "uring_op (OpWrite fd b l off) = Some (SqWrite fd b (ucast l) off)"
| "uring_op (OpFsync fd d) = Some (SqFsync fd d)"
| "uring_op (OpStat fd p m) =
    Some (SqStatx fd p m {AT_SYMLINK_NOFOLLOW, AT_STATX_SYNC_AS_STAT, AT_EMPTY_PATH})"
| "uring_op (OpTruncate fd n) = None"
| "uring_op (OpCancel ud) = Some (SqAsyncCancel ud)"

definition uring_entry :: "io_request \<Rightarrow> squeue_entry option" where
  "uring_entry r = map_option (\<lambda>op. \<lparr>sq_op = op, sq_user_data = rq_waker r\<rparr>) (uring_op (rq_operation r))"

section \<open>The state of the ring's thread\<close>

record uring_state =
  entries :: "squeue_entry list"
  requests :: "nat \<rightharpoonup> io_request"

definition uring_state_new :: uring_state where
  "uring_state_new = \<lparr>entries = [], requests = Map.empty\<rparr>"

definition uring_is_empty :: "uring_state \<Rightarrow> bool" where
  "uring_is_empty s \<longleftrightarrow> dom (requests s) = {}"

text \<open>The wakes of a step are listed with their results, oldest first.\<close>

type_synonym wakes = "(nat \<times> io_result) list"

definition uring_enqueue :: "io_request \<Rightarrow> uring_state \<Rightarrow> (uring_state \<times> wakes) option" where
  "uring_enqueue r s =
    map_option (\<lambda>e. (s\<lparr>requests := (requests s)(rq_waker r \<mapsto> r), entries := entries s @ [e]\<rparr>, []))
      (uring_entry r)"

abbreviation entry_position :: "nat \<Rightarrow> squeue_entry list \<Rightarrow> nat option" where
  "entry_position ud \<equiv> position (\<lambda>e. sq_user_data e = ud)"

definition swap_remove :: "nat \<Rightarrow> 'a list \<Rightarrow> 'a list" where
  "swap_remove i xs = butlast (xs[i := last xs])"

text \<open>
  A cancellation of what has completed already has nothing to do; one of what has not been submitted
  yet takes it back; any other is an entry of its own.
\<close>

definition uring_push :: "io_request \<Rightarrow> uring_state \<Rightarrow> (uring_state \<times> wakes) option" where
  "uring_push r s =
    (case rq_operation r of
       OpCancel ud \<Rightarrow>
         (case requests s ud of
            None \<Rightarrow> Some (s, [(rq_waker r, Inr 0)])
          | Some target \<Rightarrow>
            (case entry_position ud (entries s) of
               Some i \<Rightarrow>
                 Some (s\<lparr>entries := swap_remove i (entries s), requests := (requests s)(ud := None)\<rparr>,
                   [(rq_waker r, Inr 0), (rq_waker target, Inl ECANCELED)])
             | None \<Rightarrow> uring_enqueue r s))
     | _ \<Rightarrow> uring_enqueue r s)"

text \<open>The loop of \<open>submit\<close>: take more requests from the channel while the submission queue has room.\<close>

fun submit_loop :: "nat \<Rightarrow> io_request list \<Rightarrow> uring_state \<Rightarrow> (io_request list \<times> uring_state \<times> wakes) option" where
  "submit_loop room [] s = Some ([], s, [])"
| "submit_loop room (r # rs) s =
    (if length (entries s) < room then
       (case uring_push r s of
          None \<Rightarrow> None
        | Some (s', ws) \<Rightarrow> map_option (\<lambda>(rs', s'', ws'). (rs', s'', ws @ ws')) (submit_loop room rs s'))
     else Some (r # rs, s, []))"

text \<open>\<open>consume\<close>: every completion wakes its request; \<open>None\<close> is the failed \<open>expect\<close>.\<close>

definition completion_result :: "int \<Rightarrow> io_result" where
  "completion_result res = (if res < 0 then Inl (- res) else Inr res)"

fun uring_consume :: "(nat \<times> int) list \<Rightarrow> uring_state \<Rightarrow> (uring_state \<times> wakes) option" where
  "uring_consume [] s = Some (s, [])"
| "uring_consume ((ud, res) # cs) s =
    (case requests s ud of
       None \<Rightarrow> None
     | Some r \<Rightarrow>
       map_option (\<lambda>(s', ws). (s', (rq_waker r, completion_result res) # ws))
         (uring_consume cs (s\<lparr>requests := (requests s)(ud := None)\<rparr>)))"

section \<open>The thread, its channel and the kernel\<close>

text \<open>
  \<open>rq_chan\<close> is the queue of the channel to the thread, \<open>inflight\<close> what the kernel has and \<open>completions\<close>
  the completion queue. The kernel is relied on to take what \<open>submit\<close> gives it and to complete each
  entry once, with the entry's user data. \<open>sent\<close> and \<open>woken\<close> record the history.
\<close>

record io_sys =
  uring :: uring_state
  rq_chan :: "io_request list"
  inflight :: "squeue_entry list"
  completions :: "(nat \<times> int) list"
  sent :: "nat list"
  woken :: wakes

definition io_sys_new :: io_sys where
  "io_sys_new = \<lparr>uring = uring_state_new, rq_chan = [], inflight = [], completions = [], sent = [], woken = []\<rparr>"

definition io_consume :: "io_sys \<Rightarrow> io_sys option" where
  "io_consume s =
    map_option (\<lambda>(u, ws). s\<lparr>uring := u, completions := [], woken := woken s @ ws\<rparr>)
      (uring_consume (completions s) (uring s))"

fun complete_all :: "(nat \<times> int) list \<Rightarrow> io_sys \<Rightarrow> io_sys" where
  "complete_all [] s = s"
| "complete_all ((ud, res) # cs) s =
    (case entry_position ud (inflight s) of
       None \<Rightarrow> complete_all cs s
     | Some i \<Rightarrow>
       complete_all cs (s\<lparr>inflight := remove_at i (inflight s),
         completions := completions s @ [(ud, res)]\<rparr>))"

text \<open>
  \<open>submit\<close> on the request received: fill up, push to the submission queue, which panics if that has
  no room, and let the kernel have them; what it completes at once is \<open>inline\<close>.
\<close>

definition io_submit :: "nat \<Rightarrow> (nat \<times> int) list \<Rightarrow> io_sys \<Rightarrow> io_sys option" where
  "io_submit capacity inline s =
    (case rq_chan s of
       [] \<Rightarrow> Some s
     | r # rs \<Rightarrow>
       (case uring_push r (uring s) of
          None \<Rightarrow> None
        | Some (u1, ws1) \<Rightarrow>
          (case submit_loop capacity rs u1 of
             None \<Rightarrow> None
           | Some (rs', u2, ws2) \<Rightarrow>
             if length (entries u2) \<le> capacity then
               io_consume (complete_all inline
                 (s\<lparr>uring := u2\<lparr>entries := []\<rparr>, rq_chan := rs', inflight := inflight s @ entries u2,
                    woken := woken s @ ws1 @ ws2\<rparr>))
             else None)))"

datatype io_op =
    IoSend io_request
  | IoServe "(nat \<times> int) list"
  | IoComplete nat int
  | IoReadable

fun io_step :: "nat \<Rightarrow> io_op \<Rightarrow> io_sys \<Rightarrow> io_sys option" where
  "io_step capacity (IoSend r) s = Some (s\<lparr>rq_chan := rq_chan s @ [r], sent := sent s @ [rq_waker r]\<rparr>)"
| "io_step capacity (IoServe inline) s = io_submit capacity inline s"
| "io_step capacity (IoComplete ud res) s = Some (complete_all [(ud, res)] s)"
| "io_step capacity IoReadable s = io_consume s"

fun io_run :: "nat \<Rightarrow> io_op list \<Rightarrow> io_sys \<Rightarrow> io_sys option" where
  "io_run capacity [] s = Some s"
| "io_run capacity (x # xs) s =
    (case io_step capacity x s of None \<Rightarrow> None | Some s' \<Rightarrow> io_run capacity xs s')"

text \<open>\<open>serve\<close> of the ring's thread goes on until nothing is pending and the channel is drained.\<close>

definition serve_ends :: "bool \<Rightarrow> io_sys \<Rightarrow> bool" where
  "serve_ends drained s \<longleftrightarrow> uring_is_empty (uring s) \<and> drained"

section \<open>Routing and the pool\<close>

datatype route = ToUring | ToPool

text \<open>\<open>Requester::send\<close> of \<open>linux.rs\<close>; elsewhere the pool serves everything.\<close>

definition linux_route :: "io_operation \<Rightarrow> route" where
  "linux_route op = (case op of OpTruncate fd n \<Rightarrow> ToPool | _ \<Rightarrow> ToUring)"

text \<open>\<open>Requester::cancel\<close>: the request it sends, if any.\<close>

definition linux_cancel :: "op_code \<Rightarrow> nat \<Rightarrow> io_operation option" where
  "linux_cancel code ud = (if code = CodeTruncate then None else Some (OpCancel ud))"

datatype pool_call =
    CallOpen nat "32 word" "32 word"
  | CallRead nat nat "64 word"
  | CallPread nat nat "64 word" "64 word"
  | CallWrite nat nat "64 word"
  | CallPwrite nat nat "64 word" "64 word"
  | CallSyncData nat
  | CallSyncAll nat
  | CallSetLen nat "64 word"
  | CallFstat nat nat

text \<open>\<open>process\<close> of \<open>pool.rs\<close>: the call it makes, \<open>None\<close> for its \<open>unreachable!\<close> arms.\<close>

fun pool_process :: "bool \<Rightarrow> io_operation \<Rightarrow> pool_call option" where
  "pool_process linux (OpOpen p f m) = Some (CallOpen p f m)"
| "pool_process linux (OpRead fd b l off) =
    Some (if off = - 1 then CallRead fd b l else CallPread fd b l off)"
| "pool_process linux (OpWrite fd b l off) =
    Some (if off = - 1 then CallWrite fd b l else CallPwrite fd b l off)"
| "pool_process linux (OpFsync fd d) = Some (if d then CallSyncData fd else CallSyncAll fd)"
| "pool_process linux (OpTruncate fd n) = Some (CallSetLen fd n)"
| "pool_process linux (OpStat fd p m) = (if linux then None else Some (CallFstat fd m))"
| "pool_process linux (OpCancel ud) = None"

text \<open>What the call returns becomes the result: an error number below zero, the count as an \<open>i32\<close>.\<close>

definition pool_result :: "int \<Rightarrow> int \<Rightarrow> io_result" where
  "pool_result rc errno = (if rc < 0 then Inl errno else Inr (signed_take_bit 31 rc))"

end
