(* ===== verification/Io_Correct.thy ===== *)
theory Io_Correct
  imports Io_Poller "HOL-Library.Multiset"
begin

text \<open>
  Every request sent to the ring is woken exactly once and its thread does not panic; no operation
  is sent where it is not known.
\<close>

section \<open>Positions and removals\<close>

abbreviation user_datas :: "squeue_entry list \<Rightarrow> nat list" where
  "user_datas es \<equiv> map sq_user_data es"

lemma entry_position_Some:
  "entry_position ud es = Some i \<Longrightarrow> i < length es \<and> sq_user_data (es ! i) = ud"
  by (rule position_SomeD)

lemma entry_position_None: "entry_position ud es = None \<longleftrightarrow> ud \<notin> set (user_datas es)"
  by (auto simp: position_None)

lemma mset_swap_remove:
  assumes "i < length xs"
  shows "mset (swap_remove i xs) = mset xs - {#xs ! i#}"
proof -
  let ?ys = "xs[i := last xs]"
  have ne: "?ys \<noteq> []" using assms by auto
  have "last ?ys = last xs" using assms last_list_update [of xs i "last xs"] by (cases "xs = []") simp_all
  then have "mset ?ys = add_mset (last xs) (mset (butlast ?ys))"
    using ne by (metis append_butlast_last_id mset_append mset_single_iff union_mset_add_mset_right add_0_right mset.simps)
  then show ?thesis using assms by (simp add: swap_remove_def mset_update)
qed

lemma user_datas_swap_remove:
  assumes "entry_position ud es = Some i"
  shows "mset (user_datas (swap_remove i es)) = mset (user_datas es) - {#ud#}"
    and "length (swap_remove i es) < length es"
proof -
  from entry_position_Some [OF assms] have i: "i < length es" and ud: "sq_user_data (es ! i) = ud" by simp_all
  show "mset (user_datas (swap_remove i es)) = mset (user_datas es) - {#ud#}"
    using i by (simp add: mset_swap_remove image_mset_Diff ud)
  show "length (swap_remove i es) < length es" using i by (simp add: swap_remove_def)
qed

lemma count_list_distinct: "distinct xs \<Longrightarrow> count_list xs w = of_bool (w \<in> set xs)"
  by (induction xs) auto

section \<open>The requests of the ring\<close>

text \<open>
  \<open>others\<close> are the requests the kernel has or has completed, \<open>waiting\<close> those still in the channel.
  Every request of the map is in one place.
\<close>

definition ring_ok :: "nat list \<Rightarrow> nat list \<Rightarrow> uring_state \<Rightarrow> bool" where
  "ring_ok waiting others u \<longleftrightarrow> distinct (waiting @ user_datas (entries u) @ others) \<and>
    dom (requests u) = set (user_datas (entries u)) \<union> set others \<and>
    (\<forall>w r. requests u w = Some r \<longrightarrow> rq_waker r = w)"

lemma ring_okD:
  assumes "ring_ok waiting others u"
  shows "distinct (waiting @ user_datas (entries u) @ others)"
    and "dom (requests u) = set (user_datas (entries u)) \<union> set others"
    and "requests u w = Some r \<Longrightarrow> rq_waker r = w"
  using assms by (simp_all add: ring_ok_def)

lemma ring_okI:
  assumes "distinct (waiting @ user_datas (entries u) @ others)"
    and "dom (requests u) = set (user_datas (entries u)) \<union> set others"
    and "\<And>w r. requests u w = Some r \<Longrightarrow> rq_waker r = w"
  shows "ring_ok waiting others u"
  using assms by (simp add: ring_ok_def)

definition ring_live :: "nat list \<Rightarrow> nat list \<Rightarrow> uring_state \<Rightarrow> nat set" where
  "ring_live waiting others u = set waiting \<union> set (user_datas (entries u)) \<union> set others"

lemma ring_ok_mset:
  assumes "ring_ok waiting others u" "mset others = mset others'"
  shows "ring_ok waiting others' u" and "ring_live waiting others' u = ring_live waiting others u"
proof -
  have "set others' = set others" "distinct others' = distinct others"
    using assms(2) by (metis set_mset_mset, metis mset_eq_imp_distinct_iff)
  then show "ring_ok waiting others' u" "ring_live waiting others' u = ring_live waiting others u"
    using assms(1) by (simp_all add: ring_ok_def ring_live_def)
qed

text \<open>The wakes of a step are of the requests that are not live any more, one each.\<close>

definition accounts :: "nat set \<Rightarrow> wakes \<Rightarrow> nat set \<Rightarrow> bool" where
  "accounts before ws after \<longleftrightarrow>
    (\<forall>w. count_list (map fst ws) w + of_bool (w \<in> after) = of_bool (w \<in> before))"

lemma accounts_nil [simp]: "accounts A [] A"
  by (simp add: accounts_def)

lemma accounts_append: "accounts A ws B \<Longrightarrow> accounts B ws' C \<Longrightarrow> accounts A (ws @ ws') C"
  unfolding accounts_def by (metis (no_types, opaque_lifting) add.assoc count_list_append map_append)

definition ringable :: "io_request \<Rightarrow> bool" where
  "ringable r \<longleftrightarrow> uring_op (rq_operation r) \<noteq> None"

lemma ring_enqueue_ok:
  assumes ok: "ring_ok (rq_waker r # waiting) others u" and r: "ringable r"
  obtains u' where "uring_enqueue r u = Some (u', [])" "ring_ok waiting others u'"
    "ring_live waiting others u' = ring_live (rq_waker r # waiting) others u"
    "length (entries u') \<le> Suc (length (entries u))"
proof -
  from r obtain op where op: "uring_op (rq_operation r) = Some op" by (auto simp: ringable_def)
  let ?u = "u\<lparr>requests := (requests u)(rq_waker r \<mapsto> r),
    entries := entries u @ [\<lparr>sq_op = op, sq_user_data = rq_waker r\<rparr>]\<rparr>"
  note okD = ring_okD [OF ok]
  show thesis
  proof (rule that)
    show "uring_enqueue r u = Some (?u, [])" by (simp add: uring_enqueue_def uring_entry_def op)
    show "ring_ok waiting others ?u"
    proof (rule ring_okI)
      show "distinct (waiting @ user_datas (entries ?u) @ others)" using okD(1) by auto
      show "dom (requests ?u) = set (user_datas (entries ?u)) \<union> set others" using okD(2) by auto
      show "rq_waker x = w" if "requests ?u w = Some x" for w x
        using that okD(3) by (auto split: if_splits)
    qed
    show "ring_live waiting others ?u = ring_live (rq_waker r # waiting) others u" by (auto simp: ring_live_def)
    show "length (entries ?u) \<le> Suc (length (entries u))" by simp
  qed
qed

lemma ring_push_ok:
  assumes ok: "ring_ok (rq_waker r # waiting) others u" and r: "ringable r"
  obtains u' ws where "uring_push r u = Some (u', ws)" "ring_ok waiting others u'"
    "accounts (ring_live (rq_waker r # waiting) others u) ws (ring_live waiting others u')"
    "length (entries u') \<le> Suc (length (entries u))"
proof -
  consider (enqueue) "uring_push r u = uring_enqueue r u"
    | (gone) ud where "rq_operation r = OpCancel ud" "requests u ud = None" "uring_push r u = Some (u, [(rq_waker r, Inr 0)])"
    | (cancel) ud target i where "rq_operation r = OpCancel ud" "requests u ud = Some target"
        "entry_position ud (entries u) = Some i"
        "uring_push r u = Some (u\<lparr>entries := swap_remove i (entries u), requests := (requests u)(ud := None)\<rparr>,
          [(rq_waker r, Inr 0), (rq_waker target, Inl ECANCELED)])"
  proof (cases "\<exists>ud target i. rq_operation r = OpCancel ud \<and> (requests u ud = None \<or>
      requests u ud = Some target \<and> entry_position ud (entries u) = Some i)")
    case True
    then show ?thesis using gone cancel by (auto simp: uring_push_def)
  next
    case False
    then have "uring_push r u = uring_enqueue r u"
      by (auto simp: uring_push_def split: io_operation.splits option.splits)
    then show ?thesis by (rule enqueue)
  qed
  then show thesis
  proof cases
    case enqueue
    obtain u' where u': "uring_enqueue r u = Some (u', [])" "ring_ok waiting others u'"
        "ring_live waiting others u' = ring_live (rq_waker r # waiting) others u"
        "length (entries u') \<le> Suc (length (entries u))"
      by (rule ring_enqueue_ok [OF ok r])
    show thesis by (rule that [of u' "[]"]) (use u' enqueue in simp_all)
  next
    case gone
    show thesis
      by (rule that [OF gone(3)]) (use ok in \<open>auto simp: ring_ok_def ring_live_def accounts_def\<close>)
  next
    case cancel
    let ?u = "u\<lparr>entries := swap_remove i (entries u), requests := (requests u)(ud := None)\<rparr>"
    note sw = user_datas_swap_remove [OF cancel(3)]
    have mem: "ud \<in> set (user_datas (entries u))"
      using cancel(3) entry_position_None [of ud "entries u"] by auto
    note okD = ring_okD [OF ok]
    have wk: "rq_waker target = ud" using okD(3) cancel(2) .
    have dist: "distinct (user_datas (entries u))" using okD(1) by simp
    have uds: "set (user_datas (swap_remove i (entries u))) = set (user_datas (entries u)) - {ud}"
        "distinct (user_datas (swap_remove i (entries u)))"
    proof -
      have eq: "mset (user_datas (swap_remove i (entries u))) = mset (remove1 ud (user_datas (entries u)))"
        using sw(1) by simp
      show "set (user_datas (swap_remove i (entries u))) = set (user_datas (entries u)) - {ud}"
        using mset_eq_setD [OF eq] set_remove1_eq [OF dist] by simp
      show "distinct (user_datas (swap_remove i (entries u)))"
        using mset_eq_imp_distinct_iff [OF eq] distinct_remove1 [OF dist] by simp
    qed
    show thesis
    proof (rule that [OF cancel(4)])
      show "ring_ok waiting others ?u"
      proof (rule ring_okI)
        show "distinct (waiting @ user_datas (entries ?u) @ others)" using okD(1) uds by auto
        have "ud \<notin> set others" using okD(1) mem by auto
        then show "dom (requests ?u) = set (user_datas (entries ?u)) \<union> set others"
          using okD(2) uds(1) by auto
        show "rq_waker x = w" if "requests ?u w = Some x" for w x
          using that okD(3) by (auto split: if_splits)
      qed
      show "length (entries ?u) \<le> Suc (length (entries u))" using sw(2) by simp
      have "ud \<noteq> rq_waker r" "ud \<notin> set waiting" "ud \<notin> set others" "rq_waker r \<notin> set waiting"
          "rq_waker r \<notin> set (user_datas (entries u))" "rq_waker r \<notin> set others"
        using okD(1) mem by (auto simp del: set_map)
      then have "count_list [rq_waker r, ud] w + of_bool (w \<in> ring_live waiting others ?u) =
          of_bool (w \<in> ring_live (rq_waker r # waiting) others u)" for w
        using mem uds(1) unfolding ring_live_def by (cases "w = ud"; cases "w = rq_waker r") simp_all
      then show "accounts (ring_live (rq_waker r # waiting) others u) [(rq_waker r, Inr 0), (rq_waker target, Inl ECANCELED)]
          (ring_live waiting others ?u)"
        by (simp add: accounts_def wk)
    qed
  qed
qed

abbreviation wakers :: "io_request list \<Rightarrow> nat list" where
  "wakers rs \<equiv> map rq_waker rs"

lemma submit_loop_ok:
  assumes "ring_ok (wakers rs) others u" "\<forall>r\<in>set rs. ringable r"
  shows "\<exists>rs' u' ws. submit_loop room rs u = Some (rs', u', ws) \<and> ring_ok (wakers rs') others u' \<and>
    accounts (ring_live (wakers rs) others u) ws (ring_live (wakers rs') others u') \<and>
    set rs' \<subseteq> set rs \<and> length (entries u') \<le> max room (length (entries u))"
  using assms
proof (induction rs arbitrary: u)
  case (Cons r rs)
  show ?case
  proof (cases "length (entries u) < room")
    case True
    have ok: "ring_ok (rq_waker r # wakers rs) others u" using Cons.prems(1) by simp
    obtain u1 ws where p: "uring_push r u = Some (u1, ws)" "ring_ok (wakers rs) others u1"
        "accounts (ring_live (rq_waker r # wakers rs) others u) ws (ring_live (wakers rs) others u1)"
        "length (entries u1) \<le> Suc (length (entries u))"
      by (rule ring_push_ok [OF ok]) (use Cons.prems(2) in auto)
    obtain rs' u' ws' where l: "submit_loop room rs u1 = Some (rs', u', ws')" "ring_ok (wakers rs') others u'"
        "accounts (ring_live (wakers rs) others u1) ws' (ring_live (wakers rs') others u')" "set rs' \<subseteq> set rs"
        "length (entries u') \<le> max room (length (entries u1))"
      using Cons.IH [OF p(2)] Cons.prems(2) by auto
    have "submit_loop room (r # rs) u = Some (rs', u', ws @ ws')" using True p(1) l(1) by simp
    moreover have "length (entries u') \<le> max room (length (entries u))" using True p(4) l(5) by simp
    ultimately show ?thesis using l(2,4) accounts_append [OF p(3) l(3)] by auto
  qed (use Cons.prems in auto)
qed simp

lemma ring_consume_ok:
  assumes "ring_ok waiting (others @ map fst cs) u"
  shows "\<exists>u'. uring_consume cs u = Some (u', map (\<lambda>(ud, res). (ud, completion_result res)) cs) \<and>
    ring_ok waiting others u' \<and> entries u' = entries u"
  using assms
proof (induction cs arbitrary: u)
  case (Cons c cs)
  obtain ud res where c: "c = (ud, res)" by (cases c)
  let ?u = "u\<lparr>requests := (requests u)(ud := None)\<rparr>"
  note okD = ring_okD [OF Cons.prems]
  obtain r where r: "requests u ud = Some r" using okD(2) c by auto
  have "ring_ok waiting (others @ map fst cs) ?u"
  proof (rule ring_okI)
    show "distinct (waiting @ user_datas (entries ?u) @ others @ map fst cs)" using okD(1) c by auto
    have "ud \<notin> set (user_datas (entries u)) \<union> set (others @ map fst cs)" using okD(1) c by (auto simp del: set_map)
    moreover have "set (user_datas (entries u)) \<union> set (others @ map fst (c # cs)) - {ud} =
        set (user_datas (entries u)) \<union> set (others @ map fst cs) - {ud}" using c by auto
    ultimately show "dom (requests ?u) = set (user_datas (entries ?u)) \<union> set (others @ map fst cs)"
      using okD(2) by (simp del: set_map map_append set_append)
    show "rq_waker x = w" if "requests ?u w = Some x" for w x using that okD(3) by (auto split: if_splits)
  qed
  then obtain u' where "uring_consume cs ?u = Some (u', map (\<lambda>(ud, res). (ud, completion_result res)) cs)"
      "ring_ok waiting others u'" "entries u' = entries ?u"
    using Cons.IH by blast
  then show ?case using c r okD(3) [OF r] by auto
qed simp

lemma complete_all_fields:
  "uring (complete_all cs s) = uring s \<and> rq_chan (complete_all cs s) = rq_chan s \<and>
    sent (complete_all cs s) = sent s \<and> woken (complete_all cs s) = woken s"
  by (induction cs s rule: complete_all.induct) (auto split: option.splits)

abbreviation in_kernel :: "io_sys \<Rightarrow> nat list" where
  "in_kernel s \<equiv> user_datas (inflight s) @ map fst (completions s)"

lemma complete_all_mset: "mset (in_kernel (complete_all cs s)) = mset (in_kernel s)"
proof (induction cs s rule: complete_all.induct)
  case (2 ud res cs s)
  show ?case
  proof (cases "entry_position ud (inflight s)")
    case None
    then show ?thesis using 2 by simp
  next
    case (Some i)
    have i: "i < length (inflight s)" "sq_user_data (inflight s ! i) = ud"
      using entry_position_Some [OF Some] by simp_all
    have "mset (user_datas (inflight s)) = add_mset ud (mset (user_datas (remove_at i (inflight s))))"
      by (subst id_take_nth_drop [OF i(1)]) (simp add: i(2) remove_at_def)
    then show ?thesis using 2(2) [OF Some] Some by simp
  qed
qed simp

section \<open>Runs of the thread\<close>

definition io_live :: "io_sys \<Rightarrow> nat set" where
  "io_live s = ring_live (wakers (rq_chan s)) (in_kernel s) (uring s)"

definition io_inv :: "io_sys \<Rightarrow> bool" where
  "io_inv s \<longleftrightarrow> ring_ok (wakers (rq_chan s)) (in_kernel s) (uring s) \<and> entries (uring s) = [] \<and>
    (\<forall>r\<in>set (rq_chan s). ringable r) \<and>
    (\<forall>w. count_list (map fst (woken s)) w + of_bool (w \<in> io_live s) = count_list (sent s) w)"

text \<open>A client sends what the ring knows, with the address of a session nobody else waits on.\<close>

fun io_allowed :: "io_op \<Rightarrow> io_sys \<Rightarrow> bool" where
  "io_allowed (IoSend r) s \<longleftrightarrow> linux_route (rq_operation r) = ToUring \<and> rq_waker r \<notin> io_live s"
| "io_allowed _ s \<longleftrightarrow> True"

fun io_allowed_run :: "nat \<Rightarrow> io_op list \<Rightarrow> io_sys \<Rightarrow> bool" where
  "io_allowed_run capacity [] s \<longleftrightarrow> True"
| "io_allowed_run capacity (x # xs) s \<longleftrightarrow> io_allowed x s \<and>
    (case io_step capacity x s of None \<Rightarrow> True | Some s' \<Rightarrow> io_allowed_run capacity xs s')"

lemma ringable_iff: "ringable r \<longleftrightarrow> linux_route (rq_operation r) = ToUring"
  by (cases "rq_operation r") (simp_all add: ringable_def linux_route_def)

lemma io_inv_consume:
  assumes "ring_ok (wakers (rq_chan s)) (in_kernel s) (uring s)" "entries (uring s) = []"
    and "\<forall>r\<in>set (rq_chan s). ringable r"
    and "\<forall>w. count_list (map fst (woken s)) w + of_bool (w \<in> io_live s) = count_list (sent s) w"
  shows "\<exists>s'. io_consume s = Some s' \<and> io_inv s'"
proof -
  obtain u where u: "uring_consume (completions s) (uring s) =
        Some (u, map (\<lambda>(ud, res). (ud, completion_result res)) (completions s))"
      "ring_ok (wakers (rq_chan s)) (user_datas (inflight s)) u" "entries u = entries (uring s)"
    using ring_consume_ok [OF assms(1)] by blast
  let ?s = "s\<lparr>uring := u, completions := [], woken := woken s @ map (\<lambda>(ud, res). (ud, completion_result res)) (completions s)\<rparr>"
  have keys: "map fst (map (\<lambda>(ud, res). (ud, completion_result res)) (completions s)) = map fst (completions s)"
    by (simp add: case_prod_unfold)
  have key: "count_list (map fst (completions s)) w + of_bool (w \<in> io_live ?s) = of_bool (w \<in> io_live s)" for w
  proof -
    have d: "distinct (wakers (rq_chan s) @ user_datas (inflight s) @ map fst (completions s))"
      using ring_okD(1) [OF assms(1)] assms(2) by simp
    have "count_list (map fst (completions s)) w = of_bool (w \<in> set (map fst (completions s)))"
      using d by (intro count_list_distinct) simp
    then show ?thesis using d assms(2) u(3) unfolding io_live_def ring_live_def by (auto simp del: set_map)
  qed
  have "count_list (map fst (woken ?s)) w + of_bool (w \<in> io_live ?s) = count_list (sent s) w" for w
  proof -
    have "map fst (woken ?s) = map fst (woken s) @ map fst (completions s)" using keys by simp
    then show ?thesis using key [of w] assms(4) [rule_format, of w] by (simp only: count_list_append)
  qed
  then have "io_inv ?s" using assms(2,3) u(2,3) unfolding io_inv_def by simp
  then show ?thesis using u(1) by (simp add: io_consume_def)
qed

lemma io_send_ok:
  assumes inv: "io_inv s" and al: "io_allowed (IoSend r) s"
  shows "io_inv (s\<lparr>rq_chan := rq_chan s @ [r], sent := sent s @ [rq_waker r]\<rparr>)"
proof -
  let ?s = "s\<lparr>rq_chan := rq_chan s @ [r], sent := sent s @ [rq_waker r]\<rparr>"
  have fresh: "rq_waker r \<notin> set (wakers (rq_chan s))" "rq_waker r \<notin> set (user_datas (entries (uring s)))"
      "rq_waker r \<notin> set (in_kernel s)"
    using al by (auto simp: io_live_def ring_live_def simp del: set_map)
  have live: "io_live ?s = insert (rq_waker r) (io_live s)" by (auto simp: io_live_def ring_live_def)
  have ok: "ring_ok (wakers (rq_chan ?s)) (in_kernel ?s) (uring ?s)"
    using inv fresh unfolding io_inv_def ring_ok_def by (auto simp del: set_map)
  have "count_list (map fst (woken s)) w + of_bool (w \<in> io_live ?s) = count_list (sent ?s) w" for w
  proof -
    have "count_list (map fst (woken s)) w + of_bool (w \<in> io_live s) = count_list (sent s) w"
      using inv by (simp add: io_inv_def)
    then show ?thesis using al unfolding live by (cases "w = rq_waker r") simp_all
  qed
  then show ?thesis using inv ok al ringable_iff by (auto simp: io_inv_def)
qed

lemma io_submit_ok:
  assumes inv: "io_inv s" and cap: "0 < capacity"
  shows "\<exists>s'. io_submit capacity inline s = Some s' \<and> io_inv s'"
proof (cases "rq_chan s")
  case Nil
  then show ?thesis using inv by (simp add: io_submit_def)
next
  case (Cons r rs)
  have ok: "ring_ok (rq_waker r # wakers rs) (in_kernel s) (uring s)" and r: "ringable r" "\<forall>x\<in>set rs. ringable x"
    using inv Cons by (auto simp: io_inv_def)
  obtain u1 ws1 where p: "uring_push r (uring s) = Some (u1, ws1)" "ring_ok (wakers rs) (in_kernel s) u1"
      "accounts (ring_live (rq_waker r # wakers rs) (in_kernel s) (uring s)) ws1 (ring_live (wakers rs) (in_kernel s) u1)"
      "length (entries u1) \<le> Suc (length (entries (uring s)))"
    by (rule ring_push_ok [OF ok r(1)])
  obtain rs' u2 ws2 where l: "submit_loop capacity rs u1 = Some (rs', u2, ws2)" "ring_ok (wakers rs') (in_kernel s) u2"
      "accounts (ring_live (wakers rs) (in_kernel s) u1) ws2 (ring_live (wakers rs') (in_kernel s) u2)"
      "set rs' \<subseteq> set rs" "length (entries u2) \<le> max capacity (length (entries u1))"
    using submit_loop_ok [OF p(2) r(2)] by blast
  have "entries (uring s) = []" using inv by (simp add: io_inv_def)
  then have room: "length (entries u2) \<le> capacity" using cap p(4) l(5) by simp
  define s1 where "s1 = s\<lparr>uring := u2\<lparr>entries := []\<rparr>, rq_chan := rs', inflight := inflight s @ entries u2,
    woken := woken s @ ws1 @ ws2\<rparr>"
  define s2 where "s2 = complete_all inline s1"
  have f2: "uring s2 = u2\<lparr>entries := []\<rparr>" "rq_chan s2 = rs'" "sent s2 = sent s" "woken s2 = woken s @ ws1 @ ws2"
    using complete_all_fields [of inline s1] by (simp_all add: s2_def s1_def)
  have k2: "mset (in_kernel s2) = mset (user_datas (entries u2) @ in_kernel s)"
    using complete_all_mset [of inline s1] by (simp add: s2_def s1_def)
  have "ring_ok (wakers rs') (user_datas (entries u2) @ in_kernel s) (u2\<lparr>entries := []\<rparr>)"
    using ring_okD [OF l(2)] by (intro ring_okI) auto
  then have ok2: "ring_ok (wakers rs') (in_kernel s2) (u2\<lparr>entries := []\<rparr>)"
    by (rule ring_ok_mset(1) [OF _ k2 [symmetric]])
  have live2: "io_live s2 = ring_live (wakers rs') (in_kernel s) u2"
    using mset_eq_setD [OF k2] unfolding io_live_def ring_live_def f2 by (auto simp del: set_map)
  have acc: "accounts (io_live s) (ws1 @ ws2) (io_live s2)"
    using accounts_append [OF p(3) l(3)] Cons unfolding live2 by (simp add: io_live_def)
  have "count_list (map fst (woken s2)) w + of_bool (w \<in> io_live s2) = count_list (sent s2) w" for w
  proof -
    have "count_list (map fst (woken s)) w + of_bool (w \<in> io_live s) = count_list (sent s) w"
      using inv by (simp add: io_inv_def)
    moreover have "count_list (map fst (ws1 @ ws2)) w + of_bool (w \<in> io_live s2) = of_bool (w \<in> io_live s)"
      using acc by (simp only: accounts_def)
    ultimately show ?thesis by (simp add: f2)
  qed
  then obtain s' where "io_consume s2 = Some s'" "io_inv s'"
    using io_inv_consume [of s2] ok2 l(4) r(2) by (auto simp: f2)
  then show ?thesis using p(1) l(1) room Cons by (simp add: io_submit_def s1_def s2_def)
qed

lemma io_step_ok:
  assumes inv: "io_inv s" and cap: "0 < capacity" and al: "io_allowed x s"
  shows "\<exists>s'. io_step capacity x s = Some s' \<and> io_inv s'"
proof (cases x)
  case (IoSend r)
  then show ?thesis using io_send_ok [OF inv] al by simp
next
  case (IoServe inline)
  then show ?thesis using io_submit_ok [OF inv cap] by simp
next
  case (IoComplete ud res)
  let ?s = "complete_all [(ud, res)] s"
  note f = complete_all_fields [of "[(ud, res)]" s]
  note k = complete_all_mset [of "[(ud, res)]" s]
  have "ring_ok (wakers (rq_chan s)) (in_kernel ?s) (uring s)"
      "ring_live (wakers (rq_chan s)) (in_kernel ?s) (uring s) = io_live s"
    using ring_ok_mset [of "wakers (rq_chan s)" "in_kernel s" "uring s" "in_kernel ?s"] inv k
    by (simp_all add: io_inv_def io_live_def)
  then have "io_inv ?s" using inv f unfolding io_inv_def by (simp add: io_live_def)
  then show ?thesis using IoComplete by simp
next
  case IoReadable
  then show ?thesis using io_inv_consume [of s] inv by (simp add: io_inv_def)
qed

lemma io_run_ok:
  "io_inv s \<Longrightarrow> 0 < capacity \<Longrightarrow> io_allowed_run capacity ops s \<Longrightarrow> \<exists>s'. io_run capacity ops s = Some s' \<and> io_inv s'"
proof (induction ops arbitrary: s)
  case (Cons x ops)
  obtain s1 where s1: "io_step capacity x s = Some s1" "io_inv s1"
    using io_step_ok [OF Cons.prems(1,2)] Cons.prems(3) by auto
  then show ?case using Cons.IH [OF s1(2) Cons.prems(2)] Cons.prems(3) by simp
qed simp

lemma io_inv_new: "io_inv io_sys_new"
  by (simp add: io_inv_def io_sys_new_def uring_state_new_def ring_ok_def io_live_def ring_live_def)

text \<open>
  C19. Whatever clients send and cancel and however the kernel completes, the ring's thread panics
  neither on a full submission queue, nor on a completion without a request, nor on an operation
  the ring does not know; each request is woken once for each time it was sent, or is still
  pending; what the kernel still has, and with it the buffer of its client, has not been woken; and
  when the thread ends, none is pending but what the channel still holds.
\<close>

theorem ring_wakes_each_request_once:
  assumes "0 < capacity" and "io_allowed_run capacity ops io_sys_new"
  shows "\<exists>s. io_run capacity ops io_sys_new = Some s \<and>
    (\<forall>w. count_list (map fst (woken s)) w + of_bool (w \<in> io_live s) = count_list (sent s) w) \<and>
    (\<forall>w\<in>set (in_kernel s). count_list (map fst (woken s)) w < count_list (sent s) w) \<and>
    (serve_ends (rq_chan s = []) s \<longrightarrow> (\<forall>w. count_list (map fst (woken s)) w = count_list (sent s) w))"
proof -
  obtain s where s: "io_run capacity ops io_sys_new = Some s" "io_inv s"
    using io_run_ok [OF io_inv_new assms] by blast
  have ends: "io_live s = {}" if "serve_ends (rq_chan s = []) s"
    using s(2) that by (auto simp: io_inv_def serve_ends_def uring_is_empty_def io_live_def ring_live_def ring_ok_def)
  have all: "count_list (map fst (woken s)) w + of_bool (w \<in> io_live s) = count_list (sent s) w" for w
    using s(2) by (simp add: io_inv_def)
  have "count_list (map fst (woken s)) w < count_list (sent s) w" if "w \<in> set (in_kernel s)" for w
  proof -
    have "w \<in> io_live s" using that by (simp add: io_live_def ring_live_def)
    then show ?thesis using all [of w] by simp
  qed
  moreover have "count_list (map fst (woken s)) w = count_list (sent s) w" if "serve_ends (rq_chan s = []) s" for w
    using all [of w] by (simp add: ends [OF that])
  ultimately show ?thesis using s(1) all by blast
qed

text \<open>A read, its cancellation in the same batch, and a write that the kernel completes inline.\<close>

lemma ring_wakes_each_request_once_witness:
  "\<exists>s. io_run 2 [IoSend \<lparr>rq_waker = 1, rq_operation = OpRead 3 100 8 (- 1)\<rparr>,
      IoSend \<lparr>rq_waker = 2, rq_operation = OpCancel 1\<rparr>,
      IoSend \<lparr>rq_waker = 4, rq_operation = OpWrite 3 100 8 (- 1)\<rparr>, IoServe [(4, 8)]] io_sys_new = Some s \<and>
    serve_ends (rq_chan s = []) s \<and> count_list (map fst (woken s)) 4 = count_list (sent s) 4"
proof -
  let ?ops = "[IoSend \<lparr>rq_waker = 1, rq_operation = OpRead 3 100 8 (- 1)\<rparr>,
      IoSend \<lparr>rq_waker = 2, rq_operation = OpCancel 1\<rparr>,
      IoSend \<lparr>rq_waker = 4, rq_operation = OpWrite 3 100 8 (- 1)\<rparr>, IoServe [(4, 8)]]"
  note defs = io_sys_new_def uring_state_new_def io_submit_def uring_push_def uring_enqueue_def uring_entry_def
    swap_remove_def io_consume_def
  have al: "io_allowed_run 2 ?ops io_sys_new"
    by (simp add: defs io_live_def ring_live_def linux_route_def)
  obtain s where s: "io_run 2 ?ops io_sys_new = Some s"
      "serve_ends (rq_chan s = []) s \<longrightarrow> (\<forall>w. count_list (map fst (woken s)) w = count_list (sent s) w)"
    using ring_wakes_each_request_once [OF _ al] by auto
  have "map_option (\<lambda>s. (rq_chan s, requests (uring s))) (io_run 2 ?ops io_sys_new) = Some ([], Map.empty)"
    by (simp add: defs fun_upd_def fun_eq_iff)
  then have "serve_ends (rq_chan s = []) s" using s(1) by (simp add: serve_ends_def uring_is_empty_def)
  then show ?thesis using s by blast
qed

section \<open>Routing\<close>

text \<open>
  On Linux, what \<open>send\<close> and \<open>cancel\<close> route to the ring is known there and what they route to the
  pool is known to the pool; on other systems the pool knows every operation but \<open>Cancel\<close>, which
  nobody sends there. So no \<open>unreachable!\<close> of the two threads is reached.
\<close>

theorem routed_operations_are_known:
  "(case linux_route op of
      ToUring \<Rightarrow> uring_op op \<noteq> None
    | ToPool \<Rightarrow> pool_process True op \<noteq> None) \<and>
   (\<forall>code ud. case linux_cancel code ud of None \<Rightarrow> True | Some c \<Rightarrow> linux_route c = ToUring) \<and>
   (linux_cancel (op_code_of op) ud = None \<longleftrightarrow> linux_route op = ToPool) \<and>
   (pool_process False op = None \<longleftrightarrow> op_code_of op = CodeCancel)"
  by (cases op) (auto simp: linux_route_def linux_cancel_def)

end
