(* ===== verification/Net.thy ===== *)
theory Net
  imports Prelude
begin

text \<open>
  \<open>src/src/net\<close>: the registry of sockets, the thread that polls them, and what a TCP stream does with
  both. A socket is known by a number of its own, which is also the name of its channels; the
  tokens of the poll are the keys of a slab, a vacant key being the slab's choice.
\<close>

section \<open>Entries and events\<close>

datatype net_entry = Reader nat | Stream nat

fun entry_source :: "net_entry \<Rightarrow> nat" where
  "entry_source (Reader src) = src"
| "entry_source (Stream src) = src"

definition WAKER_TOKEN :: nat where
  "WAKER_TOKEN = 2 ^ 64 - 1"

record net_event =
  ev_token :: nat
  ev_readable :: bool
  ev_writable :: bool
  ev_error :: bool
  ev_read_closed :: bool
  ev_write_closed :: bool

text \<open>The channels an event is sent to, by socket.\<close>

datatype notice = NoticeReadable nat | NoticeWritable nat

fun notice_source :: "notice \<Rightarrow> nat" where
  "notice_source (NoticeReadable src) = src"
| "notice_source (NoticeWritable src) = src"

definition check_readable :: "nat \<Rightarrow> net_event \<Rightarrow> notice list" where
  "check_readable src ev =
    (if ev_readable ev \<or> ev_error ev \<or> ev_read_closed ev then [NoticeReadable src] else [])"

definition check_writable :: "nat \<Rightarrow> net_event \<Rightarrow> notice list" where
  "check_writable src ev =
    (if ev_writable ev \<or> ev_error ev \<or> ev_write_closed ev then [NoticeWritable src] else [])"

fun wake_entry :: "net_entry \<Rightarrow> net_event \<Rightarrow> notice list" where
  "wake_entry (Reader src) ev = check_readable src ev"
| "wake_entry (Stream src) ev = check_readable src ev @ check_writable src ev"

section \<open>The registry\<close>

text \<open>\<open>unused\<close> is the queue of tokens handed over to the poller, which frees them.\<close>

record registry_state =
  slab :: "nat \<rightharpoonup> net_entry"
  unused :: "nat list"

definition registry_new :: registry_state where
  "registry_new = \<lparr>slab = Map.empty, unused = []\<rparr>"

text \<open>A slab gives a vacant key, an index of its vector, and panics on the removal of a vacant one.\<close>

definition register_entry :: "nat \<Rightarrow> net_entry \<Rightarrow> registry_state \<Rightarrow> registry_state option" where
  "register_entry key e r =
    (if slab r key = None \<and> key < 2 ^ 63 then Some (r\<lparr>slab := (slab r)(key \<mapsto> e)\<rparr>) else None)"

definition unregister_entry :: "nat \<Rightarrow> registry_state \<Rightarrow> registry_state option" where
  "unregister_entry key r = (if slab r key = None then None else Some (r\<lparr>slab := (slab r)(key := None)\<rparr>))"

definition deregister_token :: "nat \<Rightarrow> registry_state \<Rightarrow> registry_state" where
  "deregister_token key r = r\<lparr>unused := unused r @ [key]\<rparr>"

text \<open>
  \<open>wake_events\<close>: the notices of the events, and whether the poller has been told to stop. Only then are
  the unused tokens freed. Every event comes with the socket it was raised for, which is there for
  the statements only: the code looks at the token.
\<close>

type_synonym raised_event = "nat option \<times> net_event"

fun wake_loop :: "(nat \<rightharpoonup> net_entry) \<Rightarrow> raised_event list \<Rightarrow> bool \<times> (nat option \<times> notice) list" where
  "wake_loop m [] = (False, [])"
| "wake_loop m ((src, ev) # evs) =
    (let (stopped, ns) = wake_loop m evs in
     if ev_token ev = WAKER_TOKEN then (True, ns)
     else (case m (ev_token ev) of
         None \<Rightarrow> (stopped, ns)
       | Some e \<Rightarrow> (stopped, map (Pair src) (wake_entry e ev) @ ns)))"

fun free_loop :: "nat list \<Rightarrow> registry_state \<Rightarrow> registry_state option" where
  "free_loop [] r = Some r"
| "free_loop (key # keys) r = (case unregister_entry key r of None \<Rightarrow> None | Some r' \<Rightarrow> free_loop keys r')"

definition wake_events :: "raised_event list \<Rightarrow> registry_state \<Rightarrow> (bool \<times> (nat option \<times> notice) list \<times> registry_state) option" where
  "wake_events evs r =
    (let (stopped, ns) = wake_loop (slab r) evs in
     map_option (\<lambda>r'. (stopped, ns, r')) (free_loop (unused r) (r\<lparr>unused := []\<rparr>)))"

section \<open>The system\<close>

text \<open>
  \<open>registering\<close> sockets have an entry and are about to be registered with the poll, \<open>polled\<close> ones are,
  \<open>leaving\<close> ones have been deregistered and their token is about to be handed over. \<open>batch\<close> is what
  the last poll returned, if its events have not been handled yet, each with its socket.
\<close>

record net_sys =
  net_registry :: registry_state
  registering :: "nat \<rightharpoonup> nat"
  polled :: "nat \<rightharpoonup> nat"
  leaving :: "nat \<rightharpoonup> nat"
  batch :: "raised_event list option"
  notices :: "(nat option \<times> notice) list"
  net_stopped :: bool
  sockets :: "nat list"                   \<comment> \<open>all sockets so far\<close>

definition net_sys_new :: net_sys where
  "net_sys_new = \<lparr>net_registry = registry_new, registering = Map.empty, polled = Map.empty,
    leaving = Map.empty, batch = None, notices = [], net_stopped = False, sockets = []\<rparr>"

datatype net_op =
    NetEnter nat net_entry                \<comment> \<open>\<open>register_entry\<close> of a socket, with the slab's key\<close>
  | NetRegister nat bool                  \<comment> \<open>register with the poll, which may fail\<close>
  | NetDeregister nat
  | NetHandOver nat
  | NetPoll "raised_event list"
  | NetWake

text \<open>
  An event is raised for a socket the poll knows, with its token, or for the waker. \<open>None\<close> is a step
  that cannot be taken, or a panic of the slab.
\<close>

fun raised :: "net_sys \<Rightarrow> raised_event \<Rightarrow> bool" where
  "raised s (None, ev) \<longleftrightarrow> ev_token ev = WAKER_TOKEN"
| "raised s (Some src, ev) \<longleftrightarrow> polled s src = Some (ev_token ev)"

fun net_step :: "net_op \<Rightarrow> net_sys \<Rightarrow> net_sys option" where
  "net_step (NetEnter key e) s =
    (if entry_source e \<in> set (sockets s) then None
     else map_option (\<lambda>r. s\<lparr>net_registry := r, registering := (registering s)(entry_source e \<mapsto> key),
         sockets := sockets s @ [entry_source e]\<rparr>)
       (register_entry key e (net_registry s)))"
| "net_step (NetRegister src ok) s =
    (case registering s src of
       None \<Rightarrow> None
     | Some key \<Rightarrow>
       if ok then Some (s\<lparr>registering := (registering s)(src := None), polled := (polled s)(src \<mapsto> key)\<rparr>)
       else map_option (\<lambda>r. s\<lparr>net_registry := r, registering := (registering s)(src := None)\<rparr>)
         (unregister_entry key (net_registry s)))"
| "net_step (NetDeregister src) s =
    (case polled s src of
       None \<Rightarrow> None
     | Some key \<Rightarrow> Some (s\<lparr>polled := (polled s)(src := None), leaving := (leaving s)(src \<mapsto> key)\<rparr>))"
| "net_step (NetHandOver src) s =
    (case leaving s src of
       None \<Rightarrow> None
     | Some key \<Rightarrow> Some (s\<lparr>leaving := (leaving s)(src := None),
         net_registry := deregister_token key (net_registry s)\<rparr>))"
| "net_step (NetPoll evs) s =
    (if batch s = None \<and> \<not> net_stopped s \<and> list_all (raised s) evs then Some (s\<lparr>batch := Some evs\<rparr>) else None)"
| "net_step NetWake s =
    (case batch s of
       None \<Rightarrow> None
     | Some evs \<Rightarrow>
       map_option (\<lambda>(stopped, ns, r). s\<lparr>net_registry := r, batch := None,
           notices := notices s @ ns, net_stopped := stopped\<rparr>)
         (wake_events evs (net_registry s)))"

text \<open>
  The panic of a removal is told apart from a step that is not there.
\<close>

definition net_panics :: "net_op \<Rightarrow> net_sys \<Rightarrow> bool" where
  "net_panics x s \<longleftrightarrow>
    (case x of
       NetRegister src ok \<Rightarrow>
         (case registering s src of
            None \<Rightarrow> False
          | Some key \<Rightarrow> \<not> ok \<and> unregister_entry key (net_registry s) = None)
     | NetWake \<Rightarrow>
         (case batch s of
            None \<Rightarrow> False
          | Some evs \<Rightarrow> wake_events evs (net_registry s) = None)
     | _ \<Rightarrow> False)"

fun net_run :: "net_op list \<Rightarrow> net_sys \<Rightarrow> net_sys option" where
  "net_run [] s = Some s"
| "net_run (x # xs) s = (case net_step x s of None \<Rightarrow> None | Some s' \<Rightarrow> net_run xs s')"

section \<open>TCP streams\<close>

text \<open>\<open>set_linger\<close> and \<open>linger\<close>: the structure of the system, with two \<open>c_int\<close> fields.\<close>

record linger =
  l_onoff :: "32 word"
  l_linger :: "32 word"

text \<open>A duration is given by its whole seconds, a \<open>u64\<close>, and its nanoseconds.\<close>

type_synonym duration = "64 word \<times> 32 word"

definition linger_of :: "duration option \<Rightarrow> linger" where
  "linger_of d = \<lparr>l_onoff = (if d = None then 0 else 1),
    l_linger = (case d of None \<Rightarrow> 0 | Some (secs, nanos) \<Rightarrow> ucast secs)\<rparr>"

definition of_linger :: "linger \<Rightarrow> duration option" where
  "of_linger l = (if l_onoff l \<noteq> 0 then Some (scast (l_linger l), 0) else None)"

text \<open>
  The loops of \<open>accept\<close>, \<open>read\<close> and \<open>write\<close>: what each call of the system answers, and whether each
  \<open>recv\<close> of the channel returns. \<open>Waiting\<close> is a loop that has not come to an end yet.
\<close>

datatype 'r answer = Answered 'r | WouldBlock | Failed nat

datatype 'r tcp_result = Returned 'r | IoError nat | RuntimeClosing | Waiting

fun tcp_loop :: "'r answer list \<Rightarrow> bool list \<Rightarrow> 'r tcp_result" where
  "tcp_loop (Answered r # as) ns = Returned r"
| "tcp_loop (Failed e # as) ns = IoError e"
| "tcp_loop (WouldBlock # as) (n # ns) = (if n then tcp_loop as ns else RuntimeClosing)"
| "tcp_loop _ _ = Waiting"

text \<open>
  \<open>TcpStream::new\<close> registers and waits for the first writable notice, \<open>connect\<close> then asks for the error
  of the connection. The answers of the system are arguments, errors as \<open>Some\<close>.
\<close>

definition tcp_new :: "nat option \<Rightarrow> bool \<Rightarrow> unit tcp_result" where
  "tcp_new register_error notice =
    (case register_error of Some e \<Rightarrow> IoError e | None \<Rightarrow> if notice then Returned () else RuntimeClosing)"

text \<open>An accepted connection becomes a stream of its own.\<close>

definition tcp_accept :: "'r answer list \<Rightarrow> bool list \<Rightarrow> nat option \<Rightarrow> bool \<Rightarrow> 'r tcp_result" where
  "tcp_accept as ns register_error notice =
    (case tcp_loop as ns of
       Returned r \<Rightarrow>
         (case tcp_new register_error notice of
            Returned u \<Rightarrow> Returned r
          | IoError e \<Rightarrow> IoError e
          | RuntimeClosing \<Rightarrow> RuntimeClosing
          | Waiting \<Rightarrow> Waiting)
     | res \<Rightarrow> res)"

definition tcp_connect :: "nat option \<Rightarrow> nat option \<Rightarrow> bool \<Rightarrow> nat + nat option \<Rightarrow> unit tcp_result" where
  "tcp_connect connect_error register_error notice take_error =
    (case connect_error of Some e \<Rightarrow> IoError e | None \<Rightarrow>
     (case tcp_new register_error notice of
        Returned u \<Rightarrow>
          (case take_error of Inl e \<Rightarrow> IoError e | Inr (Some e) \<Rightarrow> IoError e | Inr None \<Rightarrow> Returned ())
      | r \<Rightarrow> r))"

text \<open>
  \<open>into_split\<close> shares the stream between two halves. The drop of a half shuts its direction down; the
  one that finds the other gone deregisters.
\<close>

record split_stream =
  split_count :: nat
  shut_read :: bool
  shut_write :: bool
  deregistered :: nat

definition into_split :: split_stream where
  "into_split = \<lparr>split_count = 2, shut_read = False, shut_write = False, deregistered = 0\<rparr>"

definition drop_half :: "split_stream \<Rightarrow> split_stream" where
  "drop_half s = s\<lparr>split_count := split_count s - 1,
    deregistered := (if split_count s = 1 then deregistered s + 1 else deregistered s)\<rparr>"

definition reader_drop :: "split_stream \<Rightarrow> split_stream" where
  "reader_drop s = drop_half (s\<lparr>shut_read := True\<rparr>)"

definition writer_drop :: "split_stream \<Rightarrow> split_stream" where
  "writer_drop s = drop_half (s\<lparr>shut_write := True\<rparr>)"

text \<open>A stream that is not split shuts its directions down alone; its drop deregisters it, as that of a listener does.\<close>

definition shutdown_read :: "split_stream \<Rightarrow> split_stream" where
  "shutdown_read s = s\<lparr>shut_read := True\<rparr>"

definition shutdown_write :: "split_stream \<Rightarrow> split_stream" where
  "shutdown_write s = s\<lparr>shut_write := True\<rparr>"

definition tcp_bind :: "nat option \<Rightarrow> nat option \<Rightarrow> unit tcp_result" where
  "tcp_bind bind_error register_error =
    (case bind_error of Some e \<Rightarrow> IoError e
     | None \<Rightarrow> (case register_error of Some e \<Rightarrow> IoError e | None \<Rightarrow> Returned ()))"

text \<open>The time to live is an octet here and a \<open>u32\<close> of the system.\<close>

definition set_ttl :: "8 word \<Rightarrow> 32 word" where
  "set_ttl n = ucast n"

definition ttl :: "32 word \<Rightarrow> 8 word" where
  "ttl n = ucast n"

lemma ttl_roundtrip: "ttl (set_ttl n) = n"
  by (rule bit_word_eqI) (simp add: ttl_def set_ttl_def bit_simps)

end
