(* ===== verification/Net_Correct.thy ===== *)
theory Net_Correct
  imports Net
begin

text \<open>
  Tokens of the poll: an event reaches the socket it was raised for, though sockets come and go while
  it is on its way, and the slab is never asked to remove what it does not hold.
\<close>

section \<open>Who holds a token\<close>

definition holds_token :: "net_sys \<Rightarrow> nat \<Rightarrow> nat \<Rightarrow> bool" where
  "holds_token s src key \<longleftrightarrow> registering s src = Some key \<or> polled s src = Some key \<or> leaving s src = Some key"

definition one_place :: "net_sys \<Rightarrow> nat \<Rightarrow> bool" where
  "one_place s src \<longleftrightarrow> (registering s src \<noteq> None \<longrightarrow> polled s src = None \<and> leaving s src = None) \<and>
    (polled s src \<noteq> None \<longrightarrow> leaving s src = None)"

definition entry_of :: "net_sys \<Rightarrow> nat \<Rightarrow> nat option" where
  "entry_of s key = map_option entry_source (slab (net_registry s) key)"

text \<open>
  A token held by a socket is its own in the slab; the others are unused. What the batch was raised
  for is still in the slab under the same token, and a socket that is not polled yet has no event.
\<close>

definition tokens_ok :: "net_sys \<Rightarrow> bool" where
  "tokens_ok s \<longleftrightarrow>
    (\<forall>src key. holds_token s src key \<longrightarrow> entry_of s key = Some src \<and> key \<notin> set (unused (net_registry s)) \<and>
      src \<in> set (sockets s) \<and> key < 2 ^ 63) \<and>
    (\<forall>src. one_place s src) \<and>
    distinct (unused (net_registry s)) \<and>
    (\<forall>key\<in>set (unused (net_registry s)). entry_of s key \<noteq> None) \<and>
    (\<forall>key. entry_of s key \<noteq> None \<longrightarrow> (\<exists>src. holds_token s src key) \<or> key \<in> set (unused (net_registry s)))"

definition batch_ok :: "net_sys \<Rightarrow> bool" where
  "batch_ok s \<longleftrightarrow> (\<forall>evs src ev. batch s = Some evs \<longrightarrow> (src, ev) \<in> set evs \<longrightarrow>
    (case src of
       None \<Rightarrow> ev_token ev = WAKER_TOKEN
     | Some x \<Rightarrow> entry_of s (ev_token ev) = Some x \<and> (\<forall>y. registering s y \<noteq> Some (ev_token ev))))"

definition notices_ok :: "net_sys \<Rightarrow> bool" where
  "notices_ok s \<longleftrightarrow> (\<forall>(src, n)\<in>set (notices s). src = Some (notice_source n))"

definition net_inv :: "net_sys \<Rightarrow> bool" where
  "net_inv s \<longleftrightarrow> tokens_ok s \<and> batch_ok s \<and> notices_ok s"

lemma tokens_okD:
  assumes "tokens_ok s"
  shows "holds_token s src key \<Longrightarrow> entry_of s key = Some src \<and> key \<notin> set (unused (net_registry s)) \<and>
      src \<in> set (sockets s) \<and> key < 2 ^ 63"
    and "one_place s src" and "distinct (unused (net_registry s))"
    and "key \<in> set (unused (net_registry s)) \<Longrightarrow> entry_of s key \<noteq> None"
    and "entry_of s key \<noteq> None \<Longrightarrow> (\<exists>src. holds_token s src key) \<or> key \<in> set (unused (net_registry s))"
  using assms by (auto simp: tokens_ok_def)

lemma tokens_okI:
  assumes "\<And>src key. holds_token s src key \<Longrightarrow> entry_of s key = Some src \<and> key \<notin> set (unused (net_registry s)) \<and>
      src \<in> set (sockets s) \<and> key < 2 ^ 63"
    and "\<And>src. one_place s src" and "distinct (unused (net_registry s))"
    and "\<And>key. key \<in> set (unused (net_registry s)) \<Longrightarrow> entry_of s key \<noteq> None"
    and "\<And>key. entry_of s key \<noteq> None \<Longrightarrow> (\<exists>src. holds_token s src key) \<or> key \<in> set (unused (net_registry s))"
  shows "tokens_ok s"
  using assms by (simp add: tokens_ok_def)

lemma batch_okD:
  assumes "batch_ok s" "batch s = Some evs" "(Some src, ev) \<in> set evs"
  shows "entry_of s (ev_token ev) = Some src" and "registering s y \<noteq> Some (ev_token ev)"
  using assms by (fastforce simp: batch_ok_def)+

lemma batch_okI:
  assumes "\<And>evs ev. batch s = Some evs \<Longrightarrow> (None, ev) \<in> set evs \<Longrightarrow> ev_token ev = WAKER_TOKEN"
    and "\<And>evs src ev y. batch s = Some evs \<Longrightarrow> (Some src, ev) \<in> set evs \<Longrightarrow>
      entry_of s (ev_token ev) = Some src \<and> registering s y \<noteq> Some (ev_token ev)"
  shows "batch_ok s"
  using assms by (auto simp: batch_ok_def split: option.splits)

lemma batch_ok_waker:
  "batch_ok s \<Longrightarrow> batch s = Some evs \<Longrightarrow> (None, ev) \<in> set evs \<Longrightarrow> ev_token ev = WAKER_TOKEN"
  by (fastforce simp: batch_ok_def)

lemma token_holder_unique:
  "tokens_ok s \<Longrightarrow> holds_token s src key \<Longrightarrow> holds_token s src' key \<Longrightarrow> src = src'"
  using tokens_okD(1) [of s src key] tokens_okD(1) [of s src' key] by simp

section \<open>Steps\<close>

lemma net_enter_ok:
  assumes inv: "net_inv s" and st: "net_step (NetEnter key e) s = Some s'"
  shows "net_inv s'"
proof -
  let ?src = "entry_source e"
  from st have new: "?src \<notin> set (sockets s)" "slab (net_registry s) key = None" "key < 2 ^ 63"
    and s': "s' = s\<lparr>net_registry := (net_registry s)\<lparr>slab := (slab (net_registry s))(key \<mapsto> e)\<rparr>,
      registering := (registering s)(?src \<mapsto> key), sockets := sockets s @ [?src]\<rparr>"
    by (auto simp: register_entry_def split: if_splits)
  have tok: "tokens_ok s" and bat: "batch_ok s" using inv by (simp_all add: net_inv_def)
  have entry: "entry_of s' k = (if k = key then Some ?src else entry_of s k)" for k
    by (simp add: entry_of_def s')
  have unknown: "\<not> holds_token s ?src k" for k using tokens_okD(1) [OF tok, of ?src k] new(1) by auto
  have none: "registering s ?src = None" "polled s ?src = None" "leaving s ?src = None"
    using unknown by (auto simp: holds_token_def intro: ccontr)
  have free: "entry_of s key = None" using new(2) by (simp add: entry_of_def)
  have holds: "holds_token s' src k \<longleftrightarrow> (src = ?src \<and> k = key) \<or> holds_token s src k" for src k
    using unknown by (auto simp: holds_token_def s')
  have "tokens_ok s'"
  proof (rule tokens_okI)
    show "entry_of s' k = Some src \<and> k \<notin> set (unused (net_registry s')) \<and> src \<in> set (sockets s') \<and> k < 2 ^ 63"
      if "holds_token s' src k" for src k
    proof (cases "src = ?src \<and> k = key")
      case True
      then show ?thesis using tokens_okD(4) [OF tok, of key] free new(3) unfolding entry by (auto simp: s')
    next
      case False
      then have "holds_token s src k" using that unfolding holds by blast
      then show ?thesis using tokens_okD(1) [OF tok, of src k] free unfolding entry by (auto simp: s')
    qed
    show "one_place s' src" for src
      using tokens_okD(2) [OF tok, of src] none by (auto simp: one_place_def s')
    show "distinct (unused (net_registry s'))" using tokens_okD(3) [OF tok] by (simp add: s')
    show "entry_of s' k \<noteq> None" if "k \<in> set (unused (net_registry s'))" for k
      using that tokens_okD(4) [OF tok, of k] unfolding entry by (simp add: s')
    show "(\<exists>src. holds_token s' src k) \<or> k \<in> set (unused (net_registry s'))" if "entry_of s' k \<noteq> None" for k
      using that tokens_okD(5) [OF tok, of k] unfolding entry holds by (auto simp: s' split: if_splits)
  qed
  moreover have "batch_ok s'"
  proof (rule batch_okI)
    show "ev_token ev = WAKER_TOKEN" if "batch s' = Some evs" "(None, ev) \<in> set evs" for evs ev
      using that batch_ok_waker [OF bat] by (simp add: s')
    show "entry_of s' (ev_token ev) = Some src \<and> registering s' y \<noteq> Some (ev_token ev)"
      if "batch s' = Some evs" "(Some src, ev) \<in> set evs" for evs src ev y
    proof -
      have "entry_of s (ev_token ev) = Some src" "registering s y \<noteq> Some (ev_token ev)"
        using batch_okD [OF bat _ that(2)] that(1) by (simp_all add: s')
      then show ?thesis using free unfolding entry by (auto simp: s')
    qed
  qed
  ultimately show ?thesis using inv by (simp add: net_inv_def notices_ok_def s')
qed

text \<open>A socket moves on with its token.\<close>

lemma net_move_ok:
  assumes inv: "net_inv s"
    and reg: "net_registry s' = net_registry s" "notices s' = notices s" "sockets s' = sockets s"
    and holds: "\<And>src k. holds_token s' src k \<longleftrightarrow> holds_token s src k" and place: "\<And>src. one_place s' src"
    and bat: "batch s' = batch s" "\<And>y k. registering s' y = Some k \<Longrightarrow> registering s y = Some k"
  shows "net_inv s'"
proof -
  have entry: "entry_of s' k = entry_of s k" for k by (simp add: entry_of_def reg)
  have tok: "tokens_ok s" and bok: "batch_ok s" using inv by (simp_all add: net_inv_def)
  have "tokens_ok s'"
    using tok place unfolding tokens_ok_def holds entry reg by blast
  moreover have "batch_ok s'"
  proof (rule batch_okI)
    show "ev_token ev = WAKER_TOKEN" if "batch s' = Some evs" "(None, ev) \<in> set evs" for evs ev
      using batch_ok_waker [OF bok _ that(2)] that(1) bat(1) by simp
    show "entry_of s' (ev_token ev) = Some src \<and> registering s' y \<noteq> Some (ev_token ev)"
      if "batch s' = Some evs" "(Some src, ev) \<in> set evs" for evs src ev y
      using batch_okD [OF bok _ that(2)] that(1) bat unfolding entry by auto
  qed
  ultimately show ?thesis using inv by (simp add: net_inv_def notices_ok_def reg)
qed

lemma net_register_ok:
  assumes inv: "net_inv s" and st: "net_step (NetRegister src True) s = Some s'"
  shows "net_inv s'"
proof -
  from st obtain key where r: "registering s src = Some key"
    and s': "s' = s\<lparr>registering := (registering s)(src := None), polled := (polled s)(src \<mapsto> key)\<rparr>"
    by (auto split: option.splits)
  have place: "one_place s x" for x using inv by (simp add: net_inv_def tokens_okD(2))
  show ?thesis
    by (rule net_move_ok [OF inv])
      (use r place in \<open>auto simp: s' holds_token_def one_place_def split: if_splits\<close>)
qed

lemma net_deregister_ok:
  assumes inv: "net_inv s" and st: "net_step (NetDeregister src) s = Some s'"
  shows "net_inv s'"
proof -
  from st obtain key where r: "polled s src = Some key"
    and s': "s' = s\<lparr>polled := (polled s)(src := None), leaving := (leaving s)(src \<mapsto> key)\<rparr>"
    by (auto split: option.splits)
  have place: "one_place s x" for x using inv by (simp add: net_inv_def tokens_okD(2))
  have "registering s src = None" using place [of src] r by (auto simp: one_place_def)
  note r = r this
  show ?thesis
    by (rule net_move_ok [OF inv])
      (use r place in \<open>auto simp: s' holds_token_def one_place_def split: if_splits\<close>)
qed

text \<open>A token leaves its socket: to the unused ones, or out of the slab after a failed registration.\<close>

lemma net_release_ok:
  assumes inv: "net_inv s" and held: "holds_token s src key"
    and holds: "\<And>x k. holds_token s' x k \<longleftrightarrow> holds_token s x k \<and> x \<noteq> src" and place: "\<And>x. one_place s' x"
    and entry: "\<And>k. entry_of s' k = (if gone \<and> k = key then None else entry_of s k)"
    and un: "unused (net_registry s') = unused (net_registry s) @ (if gone then [] else [key])"
    and same: "batch s' = batch s" "notices s' = notices s" "sockets s' = sockets s"
    and reg: "\<And>y k. registering s' y = Some k \<Longrightarrow> registering s y = Some k" "gone \<Longrightarrow> registering s src = Some key"
  shows "net_inv s'"
proof -
  have tok: "tokens_ok s" and bat: "batch_ok s" using inv by (simp_all add: net_inv_def)
  note own = tokens_okD(1) [OF tok held]
  have only: "x = src" if "holds_token s x key" for x using token_holder_unique [OF tok that held] .
  have "tokens_ok s'"
  proof (rule tokens_okI)
    show "entry_of s' k = Some x \<and> k \<notin> set (unused (net_registry s')) \<and> x \<in> set (sockets s') \<and> k < 2 ^ 63"
      if "holds_token s' x k" for x k
    proof -
      from that have h: "holds_token s x k" "x \<noteq> src" by (simp_all add: holds)
      then have "k \<noteq> key" using only by auto
      then show ?thesis using tokens_okD(1) [OF tok h(1)] by (simp add: entry un same)
    qed
    show "distinct (unused (net_registry s'))" using tokens_okD(3) [OF tok] own by (simp add: un)
    show "entry_of s' k \<noteq> None" if "k \<in> set (unused (net_registry s'))" for k
      using that tokens_okD(4) [OF tok, of k] own by (auto simp: un entry split: if_splits)
    show "(\<exists>x. holds_token s' x k) \<or> k \<in> set (unused (net_registry s'))" if k: "entry_of s' k \<noteq> None" for k
    proof (cases "holds_token s src k")
      case True
      then have "k = key" using tokens_okD(2) [OF tok, of src] held by (auto simp: holds_token_def one_place_def)
      then show ?thesis using k by (simp add: entry un split: if_splits)
    next
      case False
      have "entry_of s k \<noteq> None" using k by (simp add: entry split: if_splits)
      then show ?thesis using tokens_okD(5) [OF tok, of k] False unfolding holds un by auto
    qed
  qed (rule place)
  moreover have "batch_ok s'"
  proof (rule batch_okI)
    show "ev_token ev = WAKER_TOKEN" if "batch s' = Some evs" "(None, ev) \<in> set evs" for evs ev
      using batch_ok_waker [OF bat _ that(2)] that(1) by (simp add: same)
    show "entry_of s' (ev_token ev) = Some x \<and> registering s' y \<noteq> Some (ev_token ev)"
      if "batch s' = Some evs" "(Some x, ev) \<in> set evs" for evs x ev y
      using batch_okD [OF bat _ that(2)] that(1) reg by (auto simp: entry same)
  qed
  ultimately show ?thesis using inv by (simp add: net_inv_def notices_ok_def same)
qed

lemma net_hand_over_ok:
  assumes inv: "net_inv s" and st: "net_step (NetHandOver src) s = Some s'"
  shows "net_inv s'"
proof -
  from st obtain key where r: "leaving s src = Some key"
    and s': "s' = s\<lparr>leaving := (leaving s)(src := None), net_registry := deregister_token key (net_registry s)\<rparr>"
    by (auto split: option.splits)
  have place: "one_place s x" for x using inv by (simp add: net_inv_def tokens_okD(2))
  have rest: "registering s src = None" "polled s src = None" using place [of src] r by (auto simp: one_place_def)
  show ?thesis
  proof (rule net_release_ok [OF inv, where src = src and key = key and gone = False])
    show "holds_token s' x k \<longleftrightarrow> holds_token s x k \<and> x \<noteq> src" for x k using rest by (simp add: holds_token_def s')
    show "one_place s' x" for x using place [of x] by (simp add: one_place_def s')
  qed (use r in \<open>simp_all add: holds_token_def entry_of_def deregister_token_def s'\<close>)
qed

lemma net_refused_ok:
  assumes inv: "net_inv s" and r: "registering s src = Some key"
  obtains s' where "net_step (NetRegister src False) s = Some s'" "net_inv s'"
proof -
  have tok: "tokens_ok s" using inv by (simp add: net_inv_def)
  have held: "holds_token s src key" using r by (simp add: holds_token_def)
  have occ: "slab (net_registry s) key \<noteq> None" using tokens_okD(1) [OF tok held] by (auto simp: entry_of_def)
  have place: "one_place s x" for x using tokens_okD(2) [OF tok] .
  have rest: "leaving s src = None" "polled s src = None" using place [of src] r by (auto simp: one_place_def)
  let ?s = "s\<lparr>net_registry := (net_registry s)\<lparr>slab := (slab (net_registry s))(key := None)\<rparr>,
    registering := (registering s)(src := None)\<rparr>"
  have "net_inv ?s"
  proof (rule net_release_ok [OF inv held, where gone = True])
    show "holds_token ?s x k \<longleftrightarrow> holds_token s x k \<and> x \<noteq> src" for x k using rest by (simp add: holds_token_def)
    show "one_place ?s x" for x using place [of x] by (simp add: one_place_def)
    show "registering s y = Some k" if "registering ?s y = Some k" for y k using that by (simp split: if_splits)
  qed (use r in \<open>simp_all add: entry_of_def\<close>)
  then show thesis by (rule that [rotated]) (use r occ in \<open>auto simp: unregister_entry_def\<close>)
qed

section \<open>Polling\<close>

lemma net_poll_ok:
  assumes inv: "net_inv s" and st: "net_step (NetPoll evs) s = Some s'"
  shows "net_inv s'"
proof -
  from st have s': "s' = s\<lparr>batch := Some evs\<rparr>" and evs: "\<And>x. x \<in> set evs \<Longrightarrow> raised s x"
    by (auto simp: list_all_iff split: if_splits)
  have tok: "tokens_ok s" using inv by (simp add: net_inv_def)
  have same: "entry_of s' k = entry_of s k" "holds_token s' x k = holds_token s x k" "one_place s' x = one_place s x" for x k
    by (simp_all add: entry_of_def holds_token_def one_place_def s')
  have "batch_ok s'"
  proof (rule batch_okI)
    show "ev_token ev = WAKER_TOKEN" if "batch s' = Some es" "(None, ev) \<in> set es" for es ev
      using evs [of "(None, ev)"] that by (simp add: s')
    show "entry_of s' (ev_token ev) = Some x \<and> registering s' y \<noteq> Some (ev_token ev)"
      if "batch s' = Some es" "(Some x, ev) \<in> set es" for es x ev y
    proof -
      have p: "polled s x = Some (ev_token ev)" using evs [of "(Some x, ev)"] that by (simp add: s')
      then have h: "holds_token s x (ev_token ev)" by (simp add: holds_token_def)
      have "registering s y \<noteq> Some (ev_token ev)"
      proof
        assume y: "registering s y = Some (ev_token ev)"
        then have "y = x" using token_holder_unique [OF tok _ h] by (simp add: holds_token_def)
        then show False using tokens_okD(2) [OF tok, of x] y p by (simp add: one_place_def)
      qed
      then show ?thesis using tokens_okD(1) [OF tok h] unfolding same by (simp add: s')
    qed
  qed
  moreover have "tokens_ok s'" using tok by (simp add: tokens_ok_def same) (simp add: s')
  ultimately show ?thesis using inv by (simp add: net_inv_def notices_ok_def s')
qed

lemma wake_entry_source: "n \<in> set (wake_entry e ev) \<Longrightarrow> notice_source n = entry_source e"
  by (cases e) (auto simp: check_readable_def check_writable_def split: if_splits)

lemma wake_loop_sources:
  assumes "\<And>src ev. (src, ev) \<in> set evs \<Longrightarrow>
      (case src of None \<Rightarrow> ev_token ev = WAKER_TOKEN | Some x \<Rightarrow> map_option entry_source (m (ev_token ev)) = Some x)"
    and "(src, n) \<in> set (snd (wake_loop m evs))"
  shows "src = Some (notice_source n)"
  using assms
proof (induction evs)
  case (Cons x evs)
  obtain y ev where x: "x = (y, ev)" by (cases x)
  have rest: "(src, n) \<in> set (snd (wake_loop m evs)) \<Longrightarrow> src = Some (notice_source n)"
    using Cons.IH Cons.prems(1) by simp
  have head: "case y of None \<Rightarrow> ev_token ev = WAKER_TOKEN | Some x \<Rightarrow> map_option entry_source (m (ev_token ev)) = Some x"
    using Cons.prems(1) x by simp
  have "(src, n) \<in> set (snd (wake_loop m evs)) \<or> (\<exists>e. m (ev_token ev) = Some e \<and> ev_token ev \<noteq> WAKER_TOKEN \<and>
      src = y \<and> n \<in> set (wake_entry e ev))"
    using Cons.prems(2) x by (auto simp: Let_def split: prod.splits if_splits option.splits)
  then show ?case using rest head wake_entry_source by (fastforce split: option.splits)
qed simp

lemma free_loop_ok:
  assumes "distinct keys" "\<And>k. k \<in> set keys \<Longrightarrow> slab r k \<noteq> None"
  shows "free_loop keys r = Some (r\<lparr>slab := (\<lambda>k. if k \<in> set keys then None else slab r k)\<rparr>)"
  using assms
proof (induction keys arbitrary: r)
  case (Cons key keys)
  obtain e where e: "slab r key = Some e" using Cons.prems(2) [of key] by auto
  let ?r = "r\<lparr>slab := (slab r)(key := None)\<rparr>"
  have "free_loop keys ?r = Some (?r\<lparr>slab := (\<lambda>k. if k \<in> set keys then None else slab ?r k)\<rparr>)"
    using Cons.prems by (intro Cons.IH) auto
  moreover have "(\<lambda>k. if k \<in> set keys then None else slab ?r k) =
      (\<lambda>k. if k \<in> set (key # keys) then None else slab r k)" by auto
  ultimately show ?case using e by (simp add: unregister_entry_def)
qed simp

lemma net_wake_ok:
  assumes inv: "net_inv s" and b: "batch s = Some evs"
  obtains s' where "net_step NetWake s = Some s'" "net_inv s'"
proof -
  have tok: "tokens_ok s" and bat: "batch_ok s" using inv by (simp_all add: net_inv_def)
  let ?un = "unused (net_registry s)"
  obtain stopped ns where w: "wake_loop (slab (net_registry s)) evs = (stopped, ns)" by fastforce
  have occ: "slab (net_registry s) k \<noteq> None" if "k \<in> set ?un" for k
    using tokens_okD(4) [OF tok that] by (simp add: entry_of_def)
  define r where "r = (net_registry s)\<lparr>unused := [], slab := (\<lambda>k. if k \<in> set ?un then None else slab (net_registry s) k)\<rparr>"
  define s' where "s' = s\<lparr>net_registry := r, batch := None, notices := notices s @ ns, net_stopped := stopped\<rparr>"
  have "free_loop ?un ((net_registry s)\<lparr>unused := []\<rparr>) = Some r"
    using free_loop_ok [OF tokens_okD(3) [OF tok], of "(net_registry s)\<lparr>unused := []\<rparr>"] occ by (simp add: r_def cong: if_cong)
  then have st: "net_step NetWake s = Some s'" using b w by (simp add: wake_events_def s'_def)
  have entry: "entry_of s' k = (if k \<in> set ?un then None else entry_of s k)" for k
    by (simp add: entry_of_def s'_def r_def)
  have same: "holds_token s' x k = holds_token s x k" "one_place s' x = one_place s x" "sockets s' = sockets s"
      "unused (net_registry s') = []" for x k
    by (simp_all add: holds_token_def one_place_def s'_def r_def)
  have "tokens_ok s'"
    using tok unfolding tokens_ok_def entry same by auto
  moreover have "batch_ok s'" by (rule batch_okI) (simp_all add: s'_def)
  moreover have "src = Some (notice_source n)" if "(src, n) \<in> set ns" for src n
  proof (rule wake_loop_sources [where m = "slab (net_registry s)"])
    show "(src, n) \<in> set (snd (wake_loop (slab (net_registry s)) evs))" using that w by simp
    show "case y of None \<Rightarrow> ev_token ev = WAKER_TOKEN
        | Some x \<Rightarrow> map_option entry_source (slab (net_registry s) (ev_token ev)) = Some x"
      if "(y, ev) \<in> set evs" for y ev
      using that batch_okD(1) [OF bat b] batch_ok_waker [OF bat b] by (cases y) (auto simp: entry_of_def)
  qed
  ultimately have "net_inv s'" using inv by (auto simp: net_inv_def notices_ok_def s'_def)
  then show thesis using st by (rule that [rotated])
qed

lemma net_step_ok: "net_inv s \<Longrightarrow> net_step x s = Some s' \<Longrightarrow> net_inv s'"
proof (cases x)
  case (NetRegister src ok)
  assume a: "net_inv s" "net_step x s = Some s'"
  then obtain key where r: "registering s src = Some key" using NetRegister by (auto split: option.splits)
  show ?thesis
  proof (cases ok)
    case True
    then show ?thesis using net_register_ok [OF a(1), of src s'] a(2) NetRegister by simp
  next
    case False
    then show ?thesis using net_refused_ok [OF a(1) r] a(2) NetRegister by fastforce
  qed
next
  case NetWake
  assume a: "net_inv s" "net_step x s = Some s'"
  then obtain evs where b: "batch s = Some evs" using NetWake by (auto split: option.splits)
  show ?thesis using net_wake_ok [OF a(1) b] a(2) NetWake by fastforce
qed (use net_enter_ok net_deregister_ok net_hand_over_ok net_poll_ok in blast)+

lemma net_inv_new: "net_inv net_sys_new"
  by (simp add: net_inv_def tokens_ok_def batch_ok_def notices_ok_def net_sys_new_def registry_new_def
      holds_token_def one_place_def entry_of_def)

lemma net_run_ok: "net_inv s \<Longrightarrow> net_run ops s = Some s' \<Longrightarrow> net_inv s'"
  by (induction ops arbitrary: s) (auto split: option.splits dest: net_step_ok)

lemma net_never_panics: "net_inv s \<Longrightarrow> \<not> net_panics x s"
proof
  assume inv: "net_inv s" and p: "net_panics x s"
  show False
  proof (cases x)
    case (NetRegister src ok)
    then obtain key where "registering s src = Some key" "\<not> ok" "unregister_entry key (net_registry s) = None"
      using p by (auto simp: net_panics_def split: option.splits)
    then show False using net_refused_ok [OF inv, of src key] by auto
  next
    case NetWake
    then obtain evs where "batch s = Some evs" "wake_events evs (net_registry s) = None"
      using p by (auto simp: net_panics_def split: option.splits)
    then show False using net_wake_ok [OF inv, of evs] by auto
  qed (use p in \<open>simp_all add: net_panics_def\<close>)
qed



section \<open>TCP streams\<close>

lemma signed_wrap:
  fixes u :: int
  assumes "0 \<le> u" "u < 2 ^ 64"
  shows "((u + 2 ^ 31) mod 2 ^ 32 - 2 ^ 31) mod 2 ^ 64 = u \<longleftrightarrow> u < 2 ^ 31 \<or> 2 ^ 64 - 2 ^ 31 \<le> u"
proof -
  define s where "s = (u + 2 ^ 31) mod 2 ^ 32 - 2 ^ 31"
  have s: "- (2 ^ 31) \<le> s" "s < 2 ^ 31" by (simp_all add: s_def)
  have wrap: "s mod 2 ^ 64 = (if 0 \<le> s then s else s + 2 ^ 64)"
  proof (cases "0 \<le> s")
    case False
    then have "(s + 2 ^ 64) mod 2 ^ 64 = s + 2 ^ 64" using s by (intro mod_pos_pos_trivial) simp_all
    then show ?thesis using False by simp
  qed (use s in simp)
  have low: "s = u" if "u < 2 ^ 31" using that assms unfolding s_def by simp
  have high: "s = u - 2 ^ 64" if "2 ^ 64 - 2 ^ 31 \<le> u"
  proof -
    have "(u + 2 ^ 31) mod 2 ^ 32 = (u + 2 ^ 31 - 2 ^ 32 * 2 ^ 32) mod 2 ^ 32"
      by (simp add: mod_eq_dvd_iff)
    also have "\<dots> = u + 2 ^ 31 - 2 ^ 32 * 2 ^ 32" using that assms by (intro mod_pos_pos_trivial) simp_all
    finally show ?thesis by (simp add: s_def)
  qed
  show ?thesis using wrap low high s assms unfolding s_def [symmetric] by (auto split: if_splits)
qed

text \<open>
  \<open>linger\<close> reads back what \<open>set_linger\<close> has stored: nothing if the option is off, and else the
  whole seconds of the duration, provided they fit a \<open>c_int\<close>. Longer durations come back different,
  unless they are within 2 ^ 31 seconds of the longest one.
\<close>

theorem linger_roundtrip:
  "of_linger (linger_of d) =
    (case d of None \<Rightarrow> None | Some (secs, nanos) \<Rightarrow> Some (scast (ucast secs :: 32 word), 0)) \<and>
   ((scast (ucast (secs :: 64 word) :: 32 word) :: 64 word) = secs \<longleftrightarrow>
     unat secs < 2 ^ 31 \<or> 2 ^ 64 - 2 ^ 31 \<le> unat secs)"
proof -
  have narrow: "int u < 2 ^ 31 \<or> 2 ^ 64 - 2 ^ 31 \<le> int u \<longleftrightarrow> u < 2 ^ 31 \<or> 2 ^ 64 - 2 ^ 31 \<le> u" for u
    by auto
  have "sint (ucast secs :: 32 word) = (uint secs + 2 ^ 31) mod 2 ^ 32 - 2 ^ 31"
    by (simp add: sint_uint signed_take_bit_eq_take_bit_shift take_bit_eq_mod unsigned_ucast_eq mod_simps)
  then have "uint (scast (ucast secs :: 32 word) :: 64 word) = ((uint secs + 2 ^ 31) mod 2 ^ 32 - 2 ^ 31) mod 2 ^ 64"
    unfolding scast_eq uint_word_of_int by simp
  then have "scast (ucast secs :: 32 word) = secs \<longleftrightarrow>
      ((uint secs + 2 ^ 31) mod 2 ^ 32 - 2 ^ 31) mod 2 ^ 64 = uint secs"
    by (simp add: word_uint_eq_iff)
  also have "\<dots> \<longleftrightarrow> uint secs < 2 ^ 31 \<or> 2 ^ 64 - 2 ^ 31 \<le> uint secs"
    using signed_wrap [of "uint secs"] uint_lt2p [of secs] by simp
  also have "\<dots> \<longleftrightarrow> unat secs < 2 ^ 31 \<or> 2 ^ 64 - 2 ^ 31 \<le> unat secs"
    unfolding uint_nat by (rule narrow)
  finally have "scast (ucast secs :: 32 word) = secs \<longleftrightarrow> unat secs < 2 ^ 31 \<or> 2 ^ 64 - 2 ^ 31 \<le> unat secs" .
  moreover have "of_linger (linger_of d) =
    (case d of None \<Rightarrow> None | Some (secs, nanos) \<Rightarrow> Some (scast (ucast secs :: 32 word), 0))"
    by (auto simp: of_linger_def linger_of_def split: option.splits)
  ultimately show ?thesis by simp
qed

text \<open>
  The drop of the second half deregisters the stream, whichever half that is, and each half shuts
  down its own direction.
\<close>

lemma halves_deregister_once:
  "writer_drop (reader_drop into_split) = reader_drop (writer_drop into_split)"
  "deregistered (reader_drop into_split) = 0" "deregistered (writer_drop into_split) = 0"
  "deregistered (writer_drop (reader_drop into_split)) = 1"
  "shut_read (reader_drop into_split)" "\<not> shut_write (reader_drop into_split)"
  by (simp_all add: reader_drop_def writer_drop_def drop_half_def into_split_def)

text \<open>A stream operation returns only what the system answered last.\<close>

lemma tcp_loop_returned:
  "tcp_loop as ns = Returned r \<longleftrightarrow>
    (\<exists>k rest. as = replicate k WouldBlock @ Answered r # rest \<and> k \<le> length ns \<and> list_all (\<lambda>n. n) (take k ns))"
proof (induction as ns rule: tcp_loop.induct)
  case (3 as n ns)
  show ?case
  proof
    assume "tcp_loop (WouldBlock # as) (n # ns) = Returned r"
    then have n: "n" "tcp_loop as ns = Returned r" by (simp_all split: if_splits)
    from 3 [OF n(1)] n(2) obtain k rest where "n" "as = replicate k WouldBlock @ Answered r # rest"
        "k \<le> length ns" "list_all (\<lambda>n. n) (take k ns)"
      using n(1) by blast
    then show "\<exists>k rest. WouldBlock # as = replicate k WouldBlock @ Answered r # rest \<and> k \<le> length (n # ns) \<and>
        list_all (\<lambda>n. n) (take k (n # ns))"
      by (intro exI [of _ "Suc k"] exI [of _ rest]) simp
  next
    assume "\<exists>k rest. WouldBlock # as = replicate k WouldBlock @ Answered r # rest \<and> k \<le> length (n # ns) \<and>
        list_all (\<lambda>n. n) (take k (n # ns))"
    then obtain k rest where k: "WouldBlock # as = replicate k WouldBlock @ Answered r # rest" "k \<le> length (n # ns)"
        "list_all (\<lambda>n. n) (take k (n # ns))" by blast
    then show "tcp_loop (WouldBlock # as) (n # ns) = Returned r" using 3 by (cases k) auto
  qed
qed (auto simp: Cons_eq_append_conv Cons_replicate_eq)

end
