(* ===== verification/Fs.thy ===== *)
theory Fs
  imports Io_Poller
begin

unbundle bit_operations_syntax

text \<open>
  \<open>src/src/fs/mod.rs\<close>: files, as requests to the I/O poller, with the constants and the \<open>statx\<close>
  structure of Linux.
\<close>

section \<open>Opening\<close>

definition O_RDONLY :: "32 word" where "O_RDONLY = 0"
definition O_WRONLY :: "32 word" where "O_WRONLY = 1"
definition O_RDWR :: "32 word" where "O_RDWR = 2"
definition O_CREAT :: "32 word" where "O_CREAT = 0x40"
definition O_EXCL :: "32 word" where "O_EXCL = 0x80"
definition O_TRUNC :: "32 word" where "O_TRUNC = 0x200"
definition O_APPEND :: "32 word" where "O_APPEND = 0x400"

lemmas open_flag_defs = O_RDONLY_def O_WRONLY_def O_RDWR_def O_CREAT_def O_EXCL_def O_TRUNC_def O_APPEND_def

record open_options =
  op_read :: bool
  op_write :: bool
  op_append :: bool
  op_truncate :: bool
  op_create :: bool
  op_create_new :: bool
  op_mode :: "32 word"

definition open_options_new :: open_options where
  "open_options_new = \<lparr>op_read = False, op_write = False, op_append = False, op_truncate = False,
    op_create = False, op_create_new = False, op_mode = 0x1B6\<rparr>"

definition set_read :: "bool \<Rightarrow> open_options \<Rightarrow> open_options" where "set_read b opts = opts\<lparr>op_read := b\<rparr>"
definition set_write :: "bool \<Rightarrow> open_options \<Rightarrow> open_options" where "set_write b opts = opts\<lparr>op_write := b\<rparr>"
definition set_append :: "bool \<Rightarrow> open_options \<Rightarrow> open_options" where "set_append b opts = opts\<lparr>op_append := b\<rparr>"
definition set_truncate :: "bool \<Rightarrow> open_options \<Rightarrow> open_options" where "set_truncate b opts = opts\<lparr>op_truncate := b\<rparr>"
definition set_create :: "bool \<Rightarrow> open_options \<Rightarrow> open_options" where "set_create b opts = opts\<lparr>op_create := b\<rparr>"
definition set_create_new :: "bool \<Rightarrow> open_options \<Rightarrow> open_options" where
  "set_create_new b opts = opts\<lparr>op_create_new := b\<rparr>"

definition access_flags :: "open_options \<Rightarrow> 32 word" where
  "access_flags opts =
    (case (op_read opts, op_write opts, op_append opts) of
       (True, True, False) \<Rightarrow> O_RDWR
     | (True, False, False) \<Rightarrow> O_RDONLY
     | (False, True, False) \<Rightarrow> O_WRONLY
     | (True, _, True) \<Rightarrow> O_RDWR OR O_APPEND
     | (False, _, True) \<Rightarrow> O_WRONLY OR O_APPEND
     | _ \<Rightarrow> 0)"

definition open_flags :: "open_options \<Rightarrow> 32 word" where
  "open_flags opts =
    (let f1 = access_flags opts;
         f2 = (if op_truncate opts then f1 OR O_TRUNC else f1);
         f3 = (if op_create opts then f2 OR O_CREAT else f2) in
     if op_create_new opts then f3 OR O_CREAT OR O_EXCL else f3)"

text \<open>The path goes to the system as a C string: its bytes and a zero. What is read there stops at one.\<close>

definition path_buffer :: "8 word list \<Rightarrow> 8 word list" where
  "path_buffer bytes = bytes @ [0]"

definition c_string :: "8 word list \<Rightarrow> 8 word list" where
  "c_string buf = takeWhile (\<lambda>b. b \<noteq> 0) buf"

definition open_request :: "nat \<Rightarrow> open_options \<Rightarrow> io_operation" where
  "open_request path opts = OpOpen path (open_flags opts) (op_mode opts)"

definition file_open :: "nat \<Rightarrow> io_operation" where
  "file_open path = open_request path (set_read True open_options_new)"

definition file_create :: "nat \<Rightarrow> io_operation" where
  "file_create path = open_request path (set_truncate True (set_create True (set_write True open_options_new)))"

definition file_create_new :: "nat \<Rightarrow> io_operation" where
  "file_create_new path = open_request path (set_create_new True (set_write True open_options_new))"

section \<open>Operations on files\<close>

text \<open>The length of a buffer is capped, the offset \<open>-1\<close> stands for the position of the file.\<close>

definition I32_MAX :: "64 word" where
  "I32_MAX = 2 ^ 31 - 1"

definition read_request :: "nat \<Rightarrow> nat \<Rightarrow> 64 word \<Rightarrow> io_operation" where
  "read_request fd buf len = OpRead fd buf (min len I32_MAX) (- 1)"

definition write_request :: "nat \<Rightarrow> nat \<Rightarrow> 64 word \<Rightarrow> io_operation" where
  "write_request fd buf len = OpWrite fd buf (min len I32_MAX) (- 1)"

definition sync_request :: "nat \<Rightarrow> bool \<Rightarrow> io_operation" where
  "sync_request fd only_data = OpFsync fd only_data"

definition sync_all :: "nat \<Rightarrow> io_operation" where
  "sync_all fd = sync_request fd False"

definition sync_data :: "nat \<Rightarrow> io_operation" where
  "sync_data fd = sync_request fd True"

definition set_len_request :: "nat \<Rightarrow> 64 word \<Rightarrow> io_operation" where
  "set_len_request fd len = OpTruncate fd len"

definition metadata_request :: "nat \<Rightarrow> nat \<Rightarrow> nat \<Rightarrow> io_operation" where
  "metadata_request fd empty_path metadata = OpStat fd empty_path metadata"

section \<open>Metadata\<close>

record statx_time =
  tv_sec :: "64 word"         \<comment> \<open>signed\<close>
  tv_nsec :: "32 word"

record statx =
  stx_mode :: "16 word"
  stx_size :: "64 word"
  stx_atime :: statx_time
  stx_btime :: statx_time
  stx_mtime :: statx_time

type_synonym file_type = "32 word"

definition S_IFMT :: "32 word" where "S_IFMT = 0xF000"
definition S_IFDIR :: "32 word" where "S_IFDIR = 0x4000"
definition S_IFREG :: "32 word" where "S_IFREG = 0x8000"
definition S_IFLNK :: "32 word" where "S_IFLNK = 0xA000"

definition is_dir :: "file_type \<Rightarrow> bool" where "is_dir t \<longleftrightarrow> t AND S_IFMT = S_IFDIR"
definition is_file :: "file_type \<Rightarrow> bool" where "is_file t \<longleftrightarrow> t AND S_IFMT = S_IFREG"
definition is_symlink :: "file_type \<Rightarrow> bool" where "is_symlink t \<longleftrightarrow> t AND S_IFMT = S_IFLNK"

definition metadata_file_type :: "statx \<Rightarrow> file_type" where
  "metadata_file_type st = ucast (stx_mode st)"

definition metadata_len :: "statx \<Rightarrow> 64 word" where
  "metadata_len st = stx_size st"

text \<open>
  \<open>Duration::new\<close> carries whole seconds of the nanoseconds over, the sum with the epoch is in signed
  seconds; both panic on overflow. A time is its seconds since the epoch and nanoseconds.
\<close>

definition duration_new :: "64 word \<Rightarrow> 32 word \<Rightarrow> (nat \<times> nat) option" where
  "duration_new secs nanos =
    (let s = unat secs + unat nanos div 10 ^ 9 in
     if s < 2 ^ 64 then Some (s, unat nanos mod 10 ^ 9) else None)"

definition after_epoch :: "64 word \<Rightarrow> 32 word \<Rightarrow> (nat \<times> nat) option" where
  "after_epoch secs nanos =
    (case duration_new secs nanos of None \<Rightarrow> None | Some (s, n) \<Rightarrow> if s < 2 ^ 63 then Some (s, n) else None)"

definition modified :: "statx \<Rightarrow> (nat \<times> nat) option" where
  "modified st = after_epoch (tv_sec (stx_mtime st)) (tv_nsec (stx_mtime st))"

definition accessed :: "statx \<Rightarrow> (nat \<times> nat) option" where
  "accessed st = after_epoch (tv_sec (stx_mtime st)) (tv_nsec (stx_mtime st))"

definition created :: "statx \<Rightarrow> (nat \<times> nat) option" where
  "created st = after_epoch (tv_sec (stx_btime st)) (tv_nsec (stx_btime st))"

section \<open>Properties\<close>

text \<open>
  What the standard library makes of the same options on Unix, but for \<open>O_CLOEXEC\<close>: \<open>None\<close> is its
  \<open>InvalidInput\<close>.
\<close>

definition std_access_mode :: "open_options \<Rightarrow> 32 word option" where
  "std_access_mode opts =
    (if op_append opts then Some ((if op_read opts then O_RDWR else O_WRONLY) OR O_APPEND)
     else if op_read opts \<and> op_write opts then Some O_RDWR
     else if op_read opts then Some O_RDONLY
     else if op_write opts then Some O_WRONLY
     else None)"

definition std_creation_mode :: "open_options \<Rightarrow> 32 word option" where
  "std_creation_mode opts =
    (if \<not> op_append opts \<and> \<not> op_write opts \<and> (op_truncate opts \<or> op_create opts \<or> op_create_new opts) then None
     else if op_append opts \<and> op_truncate opts \<and> \<not> op_create_new opts then None
     else Some (if op_create_new opts then O_CREAT OR O_EXCL
       else (if op_create opts then O_CREAT else 0) OR (if op_truncate opts then O_TRUNC else 0)))"

definition std_open_flags :: "open_options \<Rightarrow> 32 word option" where
  "std_open_flags opts =
    (case (std_access_mode opts, std_creation_mode opts) of (Some a, Some c) \<Rightarrow> Some (a OR c) | _ \<Rightarrow> None)"


text \<open>
  The system reads the path that was asked for exactly when it has no zero byte; a path with one is
  cut off there, without an error, so that another file is opened.
\<close>

theorem path_roundtrip:
  "(c_string (path_buffer bytes) = bytes \<longleftrightarrow> 0 \<notin> set bytes) \<and>
   c_string (path_buffer (map of_char ''a'' @ 0 # bytes)) = map of_char ''a''"
proof -
  have "takeWhile (\<lambda>b. b \<noteq> 0) (xs @ [0]) = xs \<longleftrightarrow> 0 \<notin> set xs" for xs :: "8 word list"
    by (induction xs) auto
  then show ?thesis by (simp add: c_string_def path_buffer_def)
qed

lemma I32_MAX_unat: "unat I32_MAX = 2 ^ 31 - 1"
  by (simp add: I32_MAX_def)

lemma min_len_bound: "unat (min len I32_MAX) < 2 ^ 31"
proof -
  have "min len I32_MAX \<le> I32_MAX" by simp
  then show ?thesis using I32_MAX_unat by (simp add: word_le_nat_alt)
qed

text \<open>
  A read or write of a file asks for at most what fits an \<open>i32\<close>: the narrowing of the length for
  the ring loses nothing, and a count the system returns within that length comes back as it is
  from either thread.
\<close>

theorem file_counts_are_exact:
  assumes "0 \<le> rc" "rc \<le> int (unat (min len I32_MAX))"
  shows "uring_op (read_request fd buf len) = Some (SqRead fd buf (ucast (min len I32_MAX)) (- 1)) \<and>
    unat (ucast (min len I32_MAX) :: 32 word) = unat (min len I32_MAX) \<and>
    pool_process True (write_request fd buf len) = Some (CallWrite fd buf (min len I32_MAX)) \<and>
    pool_result rc errno = Inr rc \<and> completion_result rc = Inr rc"
proof -
  have lt: "unat (min len I32_MAX) < 2 ^ 31" by (rule min_len_bound)
  then have "unat (ucast (min len I32_MAX) :: 32 word) = unat (min len I32_MAX)"
    by (simp add: unsigned_ucast_eq take_bit_nat_eq_self)
  moreover have "int (unat (min len I32_MAX)) < 2 ^ 31" using lt by (metis of_nat_less_iff of_nat_numeral of_nat_power)
  then have "rc < 2 ^ 31" using assms(2) by linarith
  then have "signed_take_bit 31 rc = rc" using assms(1) by (simp add: signed_take_bit_int_eq_self_iff)
  ultimately show ?thesis
    using assms(1) by (simp add: read_request_def write_request_def pool_result_def completion_result_def)
qed

lemma file_counts_are_exact_witness:
  "pool_result 100 0 = Inr 100 \<and> completion_result 100 = Inr (100 :: int)"
  using file_counts_are_exact [of 100 4096 3 0 0] by (simp add: I32_MAX_def)

text \<open>
  The times of a file are what the system reports, for times from the epoch on; for an earlier one
  the sum with the epoch overflows and the call panics. \<open>accessed\<close> reports the time of the last
  modification.
\<close>

theorem file_times:
  assumes "unat (tv_nsec (stx_mtime st)) < 10 ^ 9"
  shows "modified st = (if 0 \<le> sint (tv_sec (stx_mtime st))
      then Some (unat (tv_sec (stx_mtime st)), unat (tv_nsec (stx_mtime st))) else None) \<and>
    accessed st = modified st"
proof -
  have "0 \<le> sint w \<longleftrightarrow> unat w < 2 ^ 63" for w :: "64 word"
  proof -
    have "sint w = (uint w + 2 ^ 63) mod 2 ^ 64 - 2 ^ 63"
      by (simp add: sint_uint signed_take_bit_eq_take_bit_shift take_bit_eq_mod)
    moreover have "(uint w + 2 ^ 63) mod 2 ^ 64 = (if uint w < 2 ^ 63 then uint w + 2 ^ 63 else uint w - 2 ^ 63)"
    proof (cases "uint w < 2 ^ 63")
      case False
      have "(uint w + 2 ^ 63) mod 2 ^ 64 = (uint w - 2 ^ 63) mod 2 ^ 64" by (simp add: mod_eq_dvd_iff)
      also have "\<dots> = uint w - 2 ^ 63" using False uint_lt2p [of w] by (intro mod_pos_pos_trivial) simp_all
      finally show ?thesis using False by simp
    qed simp
    ultimately have "0 \<le> sint w \<longleftrightarrow> uint w < 2 ^ 63" using uint_lt2p [of w] by auto
    moreover have "int u < 2 ^ 63 \<longleftrightarrow> u < 2 ^ 63" for u by simp
    ultimately show ?thesis by (simp only: uint_nat)
  qed
  moreover have "unat (tv_sec (stx_mtime st)) < 2 ^ 64" by (rule unat_u64_lt)
  ultimately show ?thesis using assms by (simp add: modified_def accessed_def after_epoch_def duration_new_def)
qed

text \<open>A file of 1969: the seconds since the epoch are negative.\<close>

lemma file_times_witness:
  "modified \<lparr>stx_mode = 0x81A4, stx_size = 0, stx_atime = \<lparr>tv_sec = 7, tv_nsec = 0\<rparr>,
      stx_btime = \<lparr>tv_sec = 7, tv_nsec = 0\<rparr>, stx_mtime = \<lparr>tv_sec = - 1, tv_nsec = 5\<rparr>\<rparr> = None"
  using file_times [of "\<lparr>stx_mode = 0x81A4, stx_size = 0, stx_atime = \<lparr>tv_sec = 7, tv_nsec = 0\<rparr>,
      stx_btime = \<lparr>tv_sec = 7, tv_nsec = 0\<rparr>, stx_mtime = \<lparr>tv_sec = - 1, tv_nsec = 5\<rparr>\<rparr>"] by simp

lemma file_types_exclusive:
  "is_dir t \<Longrightarrow> \<not> is_file t \<and> \<not> is_symlink t" "is_file t \<Longrightarrow> \<not> is_symlink t"
  by (simp_all add: is_dir_def is_file_def is_symlink_def S_IFDIR_def S_IFREG_def S_IFLNK_def)

end
