(* ===== verification/Stack.thy ===== *)
theory Stack
  imports Prelude
begin

text \<open>
  \<open>src/src/coroutine/stack.rs\<close> and \<open>page_size.rs\<close>: how large the stack of a coroutine is, and the memory
  mapped for it. The page size, the least stack of a signal handler and the answers of the system
  are arguments; \<open>None\<close> is a panic.
\<close>

section \<open>Sizes\<close>

definition page_size_of :: "int \<Rightarrow> u64 option" where
  "page_size_of rc = (if rc = -1 then None else Some (word_of_int rc))"

definition align_to_page_size :: "bool \<Rightarrow> u64 \<Rightarrow> u64 \<Rightarrow> u64 option" where
  "align_to_page_size chk page n =
    (case sub_u64 chk page 1 of None \<Rightarrow> None
     | Some m \<Rightarrow> map_option (\<lambda>s. s AND NOT m) (add_u64 chk n m))"

definition default_size :: "bool \<Rightarrow> u64 \<Rightarrow> u64 option" where
  "default_size chk page = align_to_page_size chk page (1024 * 1024)"

text \<open>\<open>parse::<usize>\<close>: an optional plus sign and decimal digits, at least one, of a value that fits.\<close>

fun parse_digits :: "nat \<Rightarrow> string \<Rightarrow> nat option" where
  "parse_digits acc [] = Some acc"
| "parse_digits acc (c # cs) =
    (let code = of_char c :: nat; value = acc * 10 + (code - 48) in
     if 48 \<le> code \<and> code \<le> 57 \<and> value < 2 ^ 64 then parse_digits value cs else None)"

definition parse_usize :: "string \<Rightarrow> nat option" where
  "parse_usize s =
    (let digits = (case s of CHR ''+'' # cs \<Rightarrow> cs | _ \<Rightarrow> s) in
     if digits = [] then None else parse_digits 0 digits)"

text \<open>\<open>STUCK_STACK_SIZE\<close>, if the environment has it; a value that is no positive number is ignored.\<close>

definition global_size :: "bool \<Rightarrow> u64 \<Rightarrow> string option \<Rightarrow> u64 option" where
  "global_size chk page env =
    (case env of
       None \<Rightarrow> default_size chk page
     | Some val \<Rightarrow>
       (case parse_usize val of
          None \<Rightarrow> default_size chk page
        | Some n \<Rightarrow> if n = 0 then default_size chk page else align_to_page_size chk page (of_nat n)))"

text \<open>
  The \<open>isize\<close> of a \<open>StackSize\<close> is 0 for the default, positive for what is added to it and negative
  for a size of its own.
\<close>

definition with_extra_size :: "u64 \<Rightarrow> int option" where
  "with_extra_size n = (if unat n < 2 ^ 63 then Some (int (unat n)) else None)"

definition with_size :: "u64 \<Rightarrow> int option" where
  "with_size n = (if unat n < 2 ^ 63 then Some (- int (max 1 (unat n))) else None)"

definition aligned_page_size :: "bool \<Rightarrow> u64 \<Rightarrow> u64 \<Rightarrow> string option \<Rightarrow> int \<Rightarrow> u64 option" where
  "aligned_page_size chk page minsig env sz =
    (case (if sz = 0 then global_size chk page env
           else if sz > 0 then
             Option.bind (global_size chk page env) (\<lambda>g.
             Option.bind (align_to_page_size chk page (word_of_int sz)) (\<lambda>n. add_u64 chk g n))
           else align_to_page_size chk page (word_of_int (- sz))) of
       None \<Rightarrow> None
     | Some n \<Rightarrow> align_to_page_size chk page (max n minsig))"

section \<open>Memory\<close>

datatype memory_call = Mmap u64 | Mprotect u64 u64 | Munmap u64 u64

record stack =
  stack_base :: u64
  stack_size :: u64

text \<open>\<open>low\<close> is what \<open>mmap\<close> returns, \<open>None\<close> for a failure, \<open>protected\<close> whether \<open>mprotect\<close> succeeds.\<close>

definition alloc_size :: "bool \<Rightarrow> u64 \<Rightarrow> u64 \<Rightarrow> u64 option" where
  "alloc_size chk page sz = Option.bind (add_u64 chk page page) (\<lambda>guards. add_u64 chk sz guards)"

definition stack_alloc :: "bool \<Rightarrow> u64 \<Rightarrow> u64 \<Rightarrow> u64 option \<Rightarrow> bool \<Rightarrow> (memory_call list \<times> stack) option" where
  "stack_alloc chk page sz low protected =
    (case alloc_size chk page sz of
       None \<Rightarrow> None
     | Some n \<Rightarrow>
       (case low of
          None \<Rightarrow> None
        | Some addr \<Rightarrow>
          if protected
          then Some ([Mmap n, Mprotect (addr + page) sz], \<lparr>stack_base = addr + page, stack_size = sz\<rparr>)
          else None))"

definition stack_drop :: "bool \<Rightarrow> u64 \<Rightarrow> stack \<Rightarrow> bool \<Rightarrow> memory_call list option" where
  "stack_drop chk page st unmapped =
    (if stack_base st = 0 then Some []
     else (case alloc_size chk page (stack_size st) of
         None \<Rightarrow> None
       | Some n \<Rightarrow> if unmapped then Some [Munmap (stack_base st - page) n] else None))"

section \<open>Properties\<close>

text \<open>The least multiple of the page size that is not below.\<close>

definition round_up :: "nat \<Rightarrow> nat \<Rightarrow> nat" where
  "round_up page n = (n + (page - 1)) div page * page"

lemma and_not_mask: "unat (x AND NOT (mask k) :: u64) = unat x div 2 ^ k * 2 ^ k"
proof -
  have "x = (x AND NOT (mask k)) + (x AND mask k)"
  proof -
    have "(x AND NOT (mask k)) AND (x AND mask k) = 0" "(x AND NOT (mask k)) OR (x AND mask k) = x"
      by (rule bit_word_eqI, auto simp: bit_simps)+
    then show ?thesis by (simp add: disjunctive_add_eq_or)
  qed
  moreover have "(x AND mask k) \<le> x" by (simp add: word_le_nat_alt unat_and_mask)
  ultimately have "x AND NOT (mask k) = x - (x AND mask k)" by (metis add_diff_cancel_right')
  then have "unat (x AND NOT (mask k)) = unat x - unat x mod 2 ^ k"
    using \<open>x AND mask k \<le> x\<close> by (simp add: unat_sub unat_and_mask)
  then show ?thesis by (simp add: minus_mod_eq_div_mult)
qed

lemma align_ok:
  assumes page: "page = 2 ^ k" "k < 64" and n: "unat n + 2 ^ k \<le> 2 ^ 64"
  shows "\<exists>a. align_to_page_size chk page n = Some a \<and> unat a = round_up (2 ^ k) (unat n)"
proof -
  have p: "unat (2 ^ k :: u64) = 2 ^ k" 
  proof -
    have "unat (of_nat (2 ^ k) :: u64) = 2 ^ k" using page(2) by (simp add: unsigned_of_nat del: of_nat_power)
    then show ?thesis by simp
  qed
  have mask: "sub_u64 chk page 1 = Some (mask k)" "unat (mask k :: u64) = 2 ^ k - 1"
  proof -
    have "sub_u64 chk page 1 = Some (page - 1)" "unat (page - 1) = 2 ^ k - 1"
      using sub_u64_no_underflow [of 1 page chk] p page(1) by simp_all
    then show "sub_u64 chk page 1 = Some (mask k)" "unat (mask k :: u64) = 2 ^ k - 1"
      unfolding page(1) by (simp_all add: mask_eq_exp_minus_1)
  qed
  have "add_u64 chk n (mask k) = Some (n + mask k)" "unat (n + mask k) = unat n + (2 ^ k - 1)"
    using add_u64_no_overflow [of n "mask k" chk] mask(2) n by simp_all
  then show ?thesis using mask(1) by (simp add: align_to_page_size_def and_not_mask round_up_def)
qed

lemma round_up_props:
  assumes "0 < p"
  shows "p dvd round_up p n" "n \<le> round_up p n" "round_up p n < n + p" "p dvd n \<Longrightarrow> round_up p n = n"
proof -
  have d: "round_up p n = n + (p - 1) - (n + (p - 1)) mod p" by (simp add: round_up_def minus_mod_eq_div_mult)
  have m: "(n + (p - 1)) mod p < p" "(n + (p - 1)) mod p \<le> n + (p - 1)" using assms by simp_all
  show "p dvd round_up p n" by (simp add: round_up_def)
  show "n \<le> round_up p n" "round_up p n < n + p" using d m assms by linarith+
  show "round_up p n = n" if "p dvd n"
  proof -
    from that obtain q where "n = p * q" ..
    moreover have "(p - 1 + q * p) div p = q + (p - 1) div p" using assms by (intro div_mult_self1) simp
    ultimately show ?thesis using assms by (simp add: round_up_def ac_simps)
  qed
qed

text \<open>
  The size asked for: of its own, or the default of the environment, or more than that. Sizes up to
  2 ^ 61 are far from an overflow.
\<close>

definition wanted_default :: "nat \<Rightarrow> string option \<Rightarrow> nat" where
  "wanted_default page env =
    round_up page (case Option.bind env parse_usize of None \<Rightarrow> 2 ^ 20 | Some n \<Rightarrow> if n = 0 then 2 ^ 20 else n)"

definition wanted_size :: "nat \<Rightarrow> string option \<Rightarrow> int \<Rightarrow> nat" where
  "wanted_size page env sz =
    (if sz = 0 then wanted_default page env
     else if sz > 0 then wanted_default page env + round_up page (nat sz)
     else round_up page (nat (- sz)))"

lemma global_ok:
  assumes page: "page = 2 ^ k" "k \<le> 32" and env: "\<And>n. Option.bind env parse_usize = Some n \<Longrightarrow> n \<le> 2 ^ 61"
  shows "\<exists>g. global_size chk page env = Some g \<and> unat g = wanted_default (2 ^ k) env"
proof -
  let ?n = "case Option.bind env parse_usize of None \<Rightarrow> 2 ^ 20 | Some n \<Rightarrow> if n = 0 then 2 ^ 20 else n"
  have small: "?n \<le> 2 ^ 61" using env by (auto split: option.splits)
  have k: "(2 :: nat) ^ k \<le> 2 ^ 32" using page(2) by (rule power_increasing) simp
  have n: "unat (of_nat ?n :: u64) = ?n" using small by (simp add: unsigned_of_nat take_bit_nat_eq_self)
  have "global_size chk page env = align_to_page_size chk page (of_nat ?n)"
    by (simp add: global_size_def default_size_def split: option.splits)
  moreover obtain g where "align_to_page_size chk page (of_nat ?n) = Some g" "unat g = round_up (2 ^ k) ?n"
    using align_ok [OF page(1), of "of_nat ?n" chk] page(2) small k n by auto
  ultimately show ?thesis by (simp add: wanted_default_def)
qed

text \<open>
  C33. Whatever a task asks for and the environment says, within 2 ^ 61 bytes: the computation of the
  stack size does not panic, and its result is the size asked for, at least the system's minimum,
  rounded up to whole pages. Beyond, it overflows: with \<open>STUCK_STACK_SIZE\<close> at the largest number, a
  release build takes the smallest possible stack and a debug build panics.
\<close>

theorem stack_size_fits:
  assumes page: "page = 2 ^ k" "k \<le> 32" and env: "\<And>n. Option.bind env parse_usize = Some n \<Longrightarrow> n \<le> 2 ^ 61"
    and sz: "\<bar>sz\<bar> \<le> 2 ^ 61" and min: "unat minsig \<le> 2 ^ 61"
  shows "\<exists>n. aligned_page_size chk page minsig env sz = Some n \<and>
    unat n = round_up (2 ^ k) (max (wanted_size (2 ^ k) env sz) (unat minsig)) \<and> 2 ^ k dvd unat n \<and>
    unat minsig \<le> unat n \<and> (sz < 0 \<longrightarrow> nat (- sz) \<le> unat n)"
proof -
  have k: "(2 :: nat) ^ k \<le> 2 ^ 32" "k < 64" using power_increasing [OF page(2), of "2 :: nat"] page(2) by simp_all
  obtain g where g: "global_size chk page env = Some g" "unat g = wanted_default (2 ^ k) env"
    using global_ok [OF page env] by blast
  have small: "wanted_default (2 ^ k) env \<le> 2 ^ 61 + 2 ^ 32"
  proof -
    let ?n = "case Option.bind env parse_usize of None \<Rightarrow> 2 ^ 20 | Some n \<Rightarrow> if n = 0 then 2 ^ 20 else n"
    have "?n \<le> 2 ^ 61" using env by (auto split: option.splits)
    then show ?thesis using round_up_props(3) [of "2 ^ k" ?n] k(1) by (simp add: wanted_default_def)
  qed
  have own: "\<exists>a. align_to_page_size chk page (word_of_int m) = Some a \<and> unat a = round_up (2 ^ k) (nat m) \<and>
      unat a \<le> 2 ^ 61 + 2 ^ 32" if m: "0 \<le> m" "m \<le> 2 ^ 61" for m :: int
  proof -
    have n: "unat (word_of_int m :: u64) = nat m" using m by (simp add: unsigned_of_int take_bit_int_eq_self)
    have "nat m \<le> 2 ^ 61" using m by simp
    then show ?thesis
      using align_ok [OF page(1) k(2), of "word_of_int m" chk] round_up_props(3) [of "2 ^ k" "nat m"] k(1) n by auto
  qed
  define n0 where "n0 = (if sz = 0 then global_size chk page env
     else if sz > 0 then Option.bind (global_size chk page env) (\<lambda>g.
       Option.bind (align_to_page_size chk page (word_of_int sz)) (\<lambda>n. add_u64 chk g n))
     else align_to_page_size chk page (word_of_int (- sz)))"
  have "\<exists>n. n0 = Some n \<and> unat n = wanted_size (2 ^ k) env sz \<and> unat n \<le> 2 ^ 62 + 2 ^ 33"
  proof (cases "sz > 0")
    case True
    obtain a where a: "align_to_page_size chk page (word_of_int sz) = Some a" "unat a = round_up (2 ^ k) (nat sz)"
        "unat a \<le> 2 ^ 61 + 2 ^ 32" using own [of sz] True sz by auto
    have "unat g + unat a < 2 ^ 64" using a(3) g(2) small by simp
    then show ?thesis
      using add_u64_no_overflow [of g a chk] True a g small by (simp add: n0_def wanted_size_def)
  next
    case False
    then show ?thesis using own [of "- sz"] sz g small by (auto simp: n0_def wanted_size_def)
  qed
  then obtain n where n: "n0 = Some n" "unat n = wanted_size (2 ^ k) env sz" "unat n \<le> 2 ^ 62 + 2 ^ 33" by blast
  have mx: "unat (max n minsig) = max (unat n) (unat minsig)" by (simp add: max_def word_le_nat_alt)
  have room: "unat (max n minsig) + 2 ^ k \<le> 2 ^ 64" using n(3) min k(1) by (simp add: mx)
  then obtain r where r: "align_to_page_size chk page (max n minsig) = Some r"
      "unat r = round_up (2 ^ k) (max (wanted_size (2 ^ k) env sz) (unat minsig))"
    using align_ok [OF page(1) k(2) room, of chk] n(2) by (auto simp: mx)
  have "aligned_page_size chk page minsig env sz = Some r"
    using n(1) r(1) by (simp add: aligned_page_size_def n0_def)
  moreover have "nat (- sz) \<le> wanted_size (2 ^ k) env sz" if "sz < 0"
    using that round_up_props(2) [of "2 ^ k" "nat (- sz)"] by (simp add: wanted_size_def)
  ultimately show ?thesis
    using r(2) round_up_props(1,2) [of "2 ^ k" "max (wanted_size (2 ^ k) env sz) (unat minsig)"] by auto
qed

lemma stack_size_fits_witness:
  "\<exists>n. aligned_page_size True 4096 2048 (Some ''+20000'') 20 = Some n \<and> 2048 \<le> unat n"
  using stack_size_fits [of 4096 12 "Some ''+20000''" 20 2048 True] by (auto simp: parse_usize_def)

lemma largest_stack_wraps:
  "aligned_page_size False 4096 2048 (Some ''18446744073709551615'') 0 = Some 4096"
  "aligned_page_size True 4096 2048 (Some ''18446744073709551615'') 0 = None"
  by (simp_all add: aligned_page_size_def global_size_def parse_usize_def align_to_page_size_def sub_u64_def add_u64_def)

text \<open>
  C34. A stack gives back exactly the memory it was mapped with. The part it may touch lies inside, page
  aligned if the mapping is, with one inaccessible page below and one above.
\<close>

theorem stack_alloc_roundtrip:
  assumes alloc: "stack_alloc chk page sz (Some low) True = Some (calls, st)"
    and page: "0 < unat page" and fits: "unat low + (unat sz + 2 * unat page) \<le> 2 ^ 64" "0 < unat low"
  shows "\<exists>n. calls = [Mmap n, Mprotect (stack_base st) (stack_size st)] \<and>
    stack_drop chk page st True = Some [Munmap low n] \<and>
    unat n = unat sz + 2 * unat page \<and> stack_size st = sz \<and>
    unat (stack_base st) = unat low + unat page \<and>
    unat (stack_base st) + unat sz + unat page = unat low + unat n"
proof -
  have pp: "add_u64 chk page page = Some (page + page)" "unat (page + page) = unat page + unat page"
    using add_u64_no_overflow [of page page chk] fits by simp_all
  have n: "add_u64 chk sz (page + page) = Some (sz + (page + page))"
      "unat (sz + (page + page)) = unat sz + (unat page + unat page)"
    using add_u64_no_overflow [of sz "page + page" chk] pp fits page by simp_all
  have base: "unat (low + page) = unat low + unat page"
    using add_u64_no_overflow [of low page chk] fits page by simp
  then have "low + page \<noteq> 0" using page by (auto simp: word_unat_eq_iff)
  then show ?thesis using alloc pp n base by (auto simp: stack_alloc_def stack_drop_def alloc_size_def)
qed

lemma stack_alloc_roundtrip_witness:
  "stack_drop True 4096 \<lparr>stack_base = 0x11000, stack_size = 0x2000\<rparr> True = Some [Munmap 0x10000 0x4000]"
proof -
  have alloc: "stack_alloc True 4096 0x2000 (Some 0x10000) True =
      Some ([Mmap 0x4000, Mprotect 0x11000 0x2000], \<lparr>stack_base = 0x11000, stack_size = 0x2000\<rparr>)"
    by (simp add: stack_alloc_def alloc_size_def add_u64_def)
  show ?thesis using stack_alloc_roundtrip [OF alloc] by simp
qed

end
