(* ===== verification/Macros.thy ===== *)
theory Macros
  imports Stack Runtime
begin

text \<open>
  \<open>macros/src/lib.rs\<close>: the attributes \<open>#[stuck::main]\<close> and \<open>#[stuck::test]\<close>. The arguments are taken as
  \<open>syn\<close> has parsed them; what it makes of a string as a path, if that is a single identifier, is the
  parameter \<open>ident_of\<close>. The result is the configuration of the generated function, whose code picks
  the number of scheduling threads.
\<close>

section \<open>Configuration\<close>

datatype lit = LitStr string | LitInt string | LitOther

text \<open>A name-value argument has a name if its path is a single identifier.\<close>

datatype nested_meta = NameValue "string option" lit | OtherMeta

datatype config_error =
    CrateNameAlreadySet
  | InvalidCrateName "string option"
  | ParallelismAlreadySet
  | NotAnInteger
  | ParallelismNotPositive
  | InvalidAttributeName
  | UnknownAttributeName
  | UnknownAttribute

record configuration =
  crate_name :: "string option"
  parallelism :: "nat option"

definition configuration_default :: configuration where
  "configuration_default = \<lparr>crate_name = None, parallelism = None\<rparr>"

definition set_crate_name :: "(string \<Rightarrow> string option) \<Rightarrow> lit \<Rightarrow> configuration \<Rightarrow> config_error + configuration" where
  "set_crate_name ident_of l c =
    (if crate_name c \<noteq> None then Inl CrateNameAlreadySet
     else (case l of
         LitStr s \<Rightarrow>
           (case ident_of s of
              Some ident \<Rightarrow> Inr (c\<lparr>crate_name := Some ident\<rparr>)
            | None \<Rightarrow> Inl (InvalidCrateName (Some s)))
       | _ \<Rightarrow> Inl (InvalidCrateName None)))"

definition set_parallelism :: "lit \<Rightarrow> configuration \<Rightarrow> config_error + configuration" where
  "set_parallelism l c =
    (if parallelism c \<noteq> None then Inl ParallelismAlreadySet
     else (case l of
         LitInt digits \<Rightarrow>
           (case parse_usize digits of
              None \<Rightarrow> Inl NotAnInteger
            | Some n \<Rightarrow> if n > 0 then Inr (c\<lparr>parallelism := Some n\<rparr>) else Inl ParallelismNotPositive)
       | _ \<Rightarrow> Inl ParallelismNotPositive))"

fun parse_arg :: "(string \<Rightarrow> string option) \<Rightarrow> nested_meta \<Rightarrow> configuration \<Rightarrow> config_error + configuration" where
  "parse_arg ident_of (NameValue None l) c = Inl InvalidAttributeName"
| "parse_arg ident_of (NameValue (Some name) l) c =
    (if name = ''parallelism'' then set_parallelism l c
     else if name = ''crate'' then set_crate_name ident_of l c
     else Inl UnknownAttributeName)"
| "parse_arg ident_of OtherMeta c = Inl UnknownAttribute"

fun parse_args :: "(string \<Rightarrow> string option) \<Rightarrow> nested_meta list \<Rightarrow> configuration \<Rightarrow> config_error + configuration" where
  "parse_args ident_of [] c = Inr c"
| "parse_args ident_of (a # as) c =
    (case parse_arg ident_of a c of Inl e \<Rightarrow> Inl e | Inr c' \<Rightarrow> parse_args ident_of as c')"

definition parse_config :: "(string \<Rightarrow> string option) \<Rightarrow> nested_meta list \<Rightarrow> config_error + configuration" where
  "parse_config ident_of as = parse_args ident_of as configuration_default"

section \<open>The generated function\<close>

record item_fn =
  fn_name :: string
  fn_async :: bool
  fn_attrs :: "string list"

datatype generate_error = ConfigPanic config_error | OnlySynchronous | OnlyMain

record generated =
  gen_name :: string
  gen_attrs :: "string list"
  gen_crate :: string
  gen_parallelism :: nat
  gen_default :: nat

definition TEST_ATTR :: string where
  "TEST_ATTR = ''#[::core::prelude::v1::test]''"

definition generate :: "(string \<Rightarrow> string option) \<Rightarrow> bool \<Rightarrow> nested_meta list \<Rightarrow> item_fn \<Rightarrow> generate_error + generated" where
  "generate ident_of is_test as item =
    (case parse_config ident_of as of
       Inl e \<Rightarrow> Inl (ConfigPanic e)
     | Inr config \<Rightarrow>
       if fn_async item then Inl OnlySynchronous
       else if \<not> is_test \<and> fn_name item \<noteq> ''main'' then Inl OnlyMain
       else Inr \<lparr>gen_name = fn_name item,
         gen_attrs = fn_attrs item @
           (if is_test \<and> \<not> list_ex (\<lambda>a. a = TEST_ATTR) (fn_attrs item) then [TEST_ATTR] else []),
         gen_crate = (case crate_name config of None \<Rightarrow> ''stuck'' | Some n \<Rightarrow> n),
         gen_parallelism = (case parallelism config of None \<Rightarrow> 0 | Some n \<Rightarrow> n),
         gen_default = (if is_test then 2 else 0)\<rparr>)"

text \<open>
  The generated code, given \<open>STUCK_PARALLELISM_DEFAULT\<close>, and the threads its runtime gets: \<open>None\<close> is the
  assertion of the builder.
\<close>

definition chosen_parallelism :: "generated \<Rightarrow> string option \<Rightarrow> nat" where
  "chosen_parallelism g env =
    (if gen_parallelism g = 0
     then (case env of
         None \<Rightarrow> gen_default g
       | Some val \<Rightarrow> (case parse_usize val of None \<Rightarrow> gen_default g | Some n \<Rightarrow> n))
     else gen_parallelism g)"

definition runtime_threads :: "generated \<Rightarrow> string option \<Rightarrow> nat option \<Rightarrow> nat option" where
  "runtime_threads g env available =
    (let n = chosen_parallelism g env in
     if n \<noteq> 0 then map_option (\<lambda>b. build_parallelism b available) (builder_parallelism n)
     else Some (build_parallelism None available))"

section \<open>Properties\<close>

text \<open>An argument that is accepted, and the names given so far.\<close>

fun arg_ok :: "(string \<Rightarrow> string option) \<Rightarrow> nested_meta \<Rightarrow> bool" where
  "arg_ok ident_of (NameValue (Some name) (LitInt digits)) \<longleftrightarrow>
    name = ''parallelism'' \<and> (case parse_usize digits of None \<Rightarrow> False | Some n \<Rightarrow> n > 0)"
| "arg_ok ident_of (NameValue (Some name) (LitStr s)) \<longleftrightarrow> name = ''crate'' \<and> ident_of s \<noteq> None"
| "arg_ok ident_of _ \<longleftrightarrow> False"

fun arg_name :: "nested_meta \<Rightarrow> string" where
  "arg_name (NameValue (Some name) l) = name"
| "arg_name _ = []"

definition names_of :: "configuration \<Rightarrow> string set" where
  "names_of c = (if parallelism c = None then {} else {''parallelism''}) \<union> (if crate_name c = None then {} else {''crate''})"

lemma parse_arg_iff:
  "(\<exists>c'. parse_arg ident_of a c = Inr c') \<longleftrightarrow> arg_ok ident_of a \<and> arg_name a \<notin> names_of c"
proof (cases a)
  case (NameValue p l)
  then show ?thesis
    by (cases p; cases l) (auto simp: set_parallelism_def set_crate_name_def names_of_def split: option.splits)
qed simp

lemma parse_arg_names: "parse_arg ident_of a c = Inr c' \<Longrightarrow> names_of c' = insert (arg_name a) (names_of c)"
  by (induction ident_of a c rule: parse_arg.induct)
    (auto simp: set_parallelism_def set_crate_name_def names_of_def split: option.splits lit.splits if_splits)

lemma parse_args_iff:
  "(\<exists>c'. parse_args ident_of as c = Inr c') \<longleftrightarrow>
    list_all (arg_ok ident_of) as \<and> distinct (map arg_name as) \<and> set (map arg_name as) \<inter> names_of c = {}"
proof (induction as arbitrary: c)
  case (Cons a as)
  show ?case
  proof (cases "parse_arg ident_of a c")
    case (Inl e)
    then have "\<not> (arg_ok ident_of a \<and> arg_name a \<notin> names_of c)" using parse_arg_iff [of ident_of a c] by auto
    then show ?thesis using Inl by auto
  next
    case (Inr c1)
    then have "arg_ok ident_of a \<and> arg_name a \<notin> names_of c" using parse_arg_iff [of ident_of a c] by auto
    then show ?thesis using Inr Cons.IH [of c1] parse_arg_names [OF Inr] by auto
  qed
qed simp

text \<open>
  The attributes accept exactly lists of known arguments, each at most once: a positive number
  as \<open>parallelism\<close> and an identifier as \<open>crate\<close>.
\<close>

theorem config_accepts_iff:
  "(\<exists>c. parse_config ident_of as = Inr c) \<longleftrightarrow> list_all (arg_ok ident_of) as \<and> distinct (map arg_name as)"
  by (simp add: parse_config_def parse_args_iff configuration_default_def names_of_def)

text \<open>
  A function that is accepted runs in a runtime with at least one thread, and the builder's
  assertion never fails: as many threads as its attribute says, or else as \<open>STUCK_PARALLELISM_DEFAULT\<close>
  says if that is a positive number, or else two for a test unless the variable says 0, or else as
  many as the machine has, or four.
\<close>

theorem runtime_threads_positive:
  assumes gen: "generate ident_of is_test as item = Inr g"
    and available: "\<And>n. available = Some n \<Longrightarrow> 0 < n"
  shows "\<exists>n>0. runtime_threads g env available = Some n \<and>
    (if gen_parallelism g > 0 then n = gen_parallelism g
     else (case Option.bind env parse_usize of
         None \<Rightarrow> n = (if is_test then 2 else build_parallelism None available)
       | Some m \<Rightarrow> n = (if m > 0 then m else build_parallelism None available)))"
proof -
  have def: "gen_default g = (if is_test then 2 else 0)"
    using gen by (auto simp: generate_def split: sum.splits if_splits)
  have "0 < build_parallelism None available" using available by (auto simp: build_parallelism_def split: option.splits)
  then show ?thesis
    by (auto simp: runtime_threads_def chosen_parallelism_def Let_def builder_parallelism_def def
        build_parallelism_def [of "Some _"] split: option.splits)
qed

lemma runtime_threads_positive_witness:
  "\<exists>g. generate Some False [NameValue (Some ''parallelism'') (LitInt ''3'')]
      \<lparr>fn_name = ''main'', fn_async = False, fn_attrs = []\<rparr> = Inr g \<and> runtime_threads g (Some ''7'') None = Some 3"
proof -
  obtain g where g: "generate Some False [NameValue (Some ''parallelism'') (LitInt ''3'')]
      \<lparr>fn_name = ''main'', fn_async = False, fn_attrs = []\<rparr> = Inr g" "gen_parallelism g = 3"
    by (simp add: generate_def parse_config_def set_parallelism_def parse_usize_def configuration_default_def)
  from runtime_threads_positive [OF g(1), of None "Some ''7''"] g show ?thesis by auto
qed

end
