(* ===== verification/Timers.thy ===== *)
theory Timers
  imports Select
begin

text \<open>
  \<open>after\<close> and \<open>interval\<close> of \<open>src/src/time.rs\<close>: a coroutine that sleeps and sends, and the receiver of
  its serial channel as a candidate of a select. \<open>None\<close> is a panic.
\<close>

section \<open>The coroutine\<close>

text \<open>
  \<open>Asleep\<close> is a coroutine that has yet to run, or sleeps; \<open>Sending\<close> one that waits for room, with the
  cell of its suspension; \<open>Ended\<close> one whose sender has been dropped. \<open>em_tx\<close> and \<open>em_rx\<close> say whether
  the two handles are attached.
\<close>

datatype emit_phase = Asleep | Sending nat | Ended

record emitter =
  em_tx :: bool
  em_rx :: bool
  em_chan :: "unit schannel"
  em_phase :: emit_phase

definition emitter_of :: "bool \<times> bool \<times> unit schannel \<Rightarrow> emitter" where
  "emitter_of ch = (case ch of (tx, rx, c) \<Rightarrow> \<lparr>em_tx = tx, em_rx = rx, em_chan = c, em_phase = Asleep\<rparr>)"

definition after_new :: "emitter option" where
  "after_new = map_option emitter_of (serial_bounded 1)"

text \<open>The period is given in whole milliseconds.\<close>

definition interval_new :: "nat \<Rightarrow> emitter option" where
  "interval_new period = (if period > 0 then map_option emitter_of (serial_bounded 512) else None)"

text \<open>A send of the coroutine, and the end of its closure.\<close>

definition emit_send :: "nat \<Rightarrow> emitter \<Rightarrow> ((unit send_error + unit) outcome \<times> emitter) option" where
  "emit_send w e =
    map_option (\<lambda>(r, tx, c). (r, e\<lparr>em_tx := tx, em_chan := c\<rparr>)) (ssender_send (Some w) () (em_tx e, em_chan e))"

definition emit_end :: "emitter \<Rightarrow> emitter" where
  "emit_end e =
    (case sender_drop serial_ops (em_tx e, em_chan e) of
       (tx, c) \<Rightarrow> e\<lparr>em_tx := tx, em_chan := c, em_phase := Ended\<rparr>)"

text \<open>
  A turn of the coroutine, from a return of its sleep or the resumption of its send to where it
  suspends next, with \<open>w\<close> for a suspension of the send.
\<close>

definition after_turn :: "nat \<Rightarrow> emitter \<Rightarrow> emitter option" where
  "after_turn w e =
    (case emit_send w e of
       None \<Rightarrow> None
     | Some (Waits, e') \<Rightarrow> Some (e'\<lparr>em_phase := Sending w\<rparr>)
     | Some (Return r, e') \<Rightarrow> Some (emit_end e'))"

definition interval_turn :: "nat \<Rightarrow> emitter \<Rightarrow> emitter option" where
  "interval_turn w e =
    (case emit_send w e of
       None \<Rightarrow> None
     | Some (Waits, e') \<Rightarrow> Some (e'\<lparr>em_phase := Sending w\<rparr>)
     | Some (Return (Inr u), e') \<Rightarrow> Some (e'\<lparr>em_phase := Asleep\<rparr>)
     | Some (Return (Inl err), e') \<Rightarrow> Some (emit_end e'))"

section \<open>The candidates\<close>

definition with_receiver :: "(bool \<times> unit schannel \<Rightarrow> 'r \<times> bool \<times> unit schannel) \<Rightarrow> emitter \<Rightarrow> 'r \<times> emitter" where
  "with_receiver f e = (case f (em_rx e, em_chan e) of (r, rx, c) \<Rightarrow> (r, e\<lparr>em_rx := rx, em_chan := c\<rparr>))"

definition interval_parallel :: "emitter \<Rightarrow> bool" where
  "interval_parallel e = False"

definition interval_select_permit :: "emitter \<Rightarrow> (try_select_error + select_permit) \<times> emitter" where
  "interval_select_permit e = with_receiver sreceiver_select_permit e"

definition interval_watch_permit :: "selector \<Rightarrow> emitter \<Rightarrow> (bool \<times> emitter) option" where
  "interval_watch_permit sel e =
    map_option (\<lambda>(b, rx, c). (b, e\<lparr>em_rx := rx, em_chan := c\<rparr>)) (sreceiver_watch_permit sel (em_rx e, em_chan e))"

definition interval_unwatch_permit :: "nat \<Rightarrow> emitter \<Rightarrow> emitter" where
  "interval_unwatch_permit ident e = snd (with_receiver (\<lambda>h. ((), sreceiver_unwatch_permit ident h)) e)"

definition interval_consume_permit :: "select_permit \<Rightarrow> emitter \<Rightarrow> emitter option" where
  "interval_consume_permit p e =
    (case sreceiver_consume_permit p (em_rx e, em_chan e) of
       Some (Some u, rx, c) \<Rightarrow> Some (e\<lparr>em_rx := rx, em_chan := c\<rparr>)
     | _ \<Rightarrow> None)"

definition after_parallel :: "emitter \<Rightarrow> bool" where
  "after_parallel e = False"

definition after_select_permit :: "emitter \<Rightarrow> (try_select_error + select_permit) \<times> emitter" where
  "after_select_permit e = with_receiver sreceiver_select_permit e"

definition after_watch_permit :: "selector \<Rightarrow> emitter \<Rightarrow> (bool \<times> emitter) option" where
  "after_watch_permit sel e =
    map_option (\<lambda>(b, rx, c). (b, e\<lparr>em_rx := rx, em_chan := c\<rparr>)) (sreceiver_watch_permit sel (em_rx e, em_chan e))"

definition after_unwatch_permit :: "nat \<Rightarrow> emitter \<Rightarrow> emitter" where
  "after_unwatch_permit ident e = snd (with_receiver (\<lambda>h. ((), sreceiver_unwatch_permit ident h)) e)"

definition after_consume_permit :: "select_permit \<Rightarrow> emitter \<Rightarrow> emitter option" where
  "after_consume_permit p e =
    (case sreceiver_consume_permit p (em_rx e, em_chan e) of
       Some (Some u, h) \<Rightarrow> (case sreceiver_terminate h of (rx, c) \<Rightarrow> Some (e\<lparr>em_rx := rx, em_chan := c\<rparr>))
     | _ \<Rightarrow> None)"

text \<open>As candidates of the selects of \<open>Select\<close>.\<close>

definition interval_selectable :: "emitter selectable" where
  "interval_selectable = \<lparr>sl_parallel = interval_parallel, sl_select = interval_select_permit,
    sl_watch = interval_watch_permit, sl_unwatch = interval_unwatch_permit\<rparr>"

definition after_selectable :: "emitter selectable" where
  "after_selectable = \<lparr>sl_parallel = after_parallel, sl_select = after_select_permit,
    sl_watch = after_watch_permit, sl_unwatch = after_unwatch_permit\<rparr>"

text \<open>The drop of either.\<close>

definition emitter_drop :: "emitter \<Rightarrow> emitter" where
  "emitter_drop e = snd (with_receiver (\<lambda>h. ((), receiver_drop serial_ops h)) e)"

section \<open>Runs\<close>

text \<open>
  A timer in use: \<open>watching\<close> is the selector of a select that waits, \<open>granted\<close> a permit a select has
  been given and is about to consume, \<open>failed\<close> whether the coroutine has ended before its time, in a
  panic of its sleep or a cancellation. \<open>waker_cells\<close> are those of the channel.
\<close>

record emit_run =
  em :: emitter
  watching :: "selector option"
  granted :: "select_permit option"
  failed :: bool
  ticks_sent :: nat
  ticks_taken :: nat

datatype emit_kind = AfterKind | IntervalKind

definition start_of :: "emitter \<Rightarrow> emit_run" where
  "start_of e = \<lparr>em = e, watching = None, granted = None, failed = False, ticks_sent = 0, ticks_taken = 0\<rparr>"

definition waker_cells :: "emitter \<Rightarrow> unit wake_msg cells" where
  "waker_cells e = scells (schan_state (em_chan e))"

definition ticks_queued :: "emitter \<Rightarrow> nat" where
  "ticks_queued e = length (sdeque (schan_state (em_chan e)))"

fun kind_candidate :: "emit_kind \<Rightarrow> emitter selectable" where
  "kind_candidate AfterKind = after_selectable"
| "kind_candidate IntervalKind = interval_selectable"

fun kind_turn :: "emit_kind \<Rightarrow> nat \<Rightarrow> emitter \<Rightarrow> emitter option" where
  "kind_turn AfterKind = after_turn"
| "kind_turn IntervalKind = interval_turn"

fun kind_consume :: "emit_kind \<Rightarrow> select_permit \<Rightarrow> emitter \<Rightarrow> emitter option" where
  "kind_consume AfterKind = after_consume_permit"
| "kind_consume IntervalKind = interval_consume_permit"

datatype emit_op =
    EmTurn nat
  | EmFail
  | EmSelect                  \<comment> \<open>\<open>try_select\<close> looks at the candidate\<close>
  | EmWatch selector
  | EmOther nat select_permit \<comment> \<open>another candidate wakes the waiting select\<close>
  | EmWoken                   \<comment> \<open>the waiting select resumes\<close>
  | EmConsume
  | EmDrop

text \<open>
  What the rest of the program does: a coroutine runs when its send has been woken, a select watches
  a candidate it has just found not ready and consumes the permit it is given.
\<close>

fun emit_allowed :: "emit_kind \<Rightarrow> emit_op \<Rightarrow> emit_run \<Rightarrow> bool" where
  "emit_allowed k (EmTurn w) r \<longleftrightarrow>
    (case em_phase (em r) of Asleep \<Rightarrow> True | Sending w' \<Rightarrow> waker_cells (em r) w' \<noteq> Pending | Ended \<Rightarrow> False) \<and>
    waker_cells (em r) w = Pending \<and> (case watching r of None \<Rightarrow> True | Some sel \<Rightarrow> sel_waker sel \<noteq> w)"
| "emit_allowed k EmFail r \<longleftrightarrow> em_phase (em r) \<noteq> Ended"
| "emit_allowed k EmSelect r \<longleftrightarrow> watching r = None \<and> granted r = None"
| "emit_allowed k (EmWatch sel) r \<longleftrightarrow> watching r = None \<and> granted r = None \<and>
    waker_cells (em r) (sel_waker sel) = Pending \<and> em_phase (em r) \<noteq> Sending (sel_waker sel) \<and>
    fst (sl_select (kind_candidate k) (em r)) = Inl WouldBlock"
| "emit_allowed k (EmOther i p) r \<longleftrightarrow> (case watching r of None \<Rightarrow> False | Some sel \<Rightarrow> sel_index sel \<noteq> i)"
| "emit_allowed k EmWoken r \<longleftrightarrow>
    (case watching r of None \<Rightarrow> False | Some sel \<Rightarrow> waker_cells (em r) (sel_waker sel) \<noteq> Pending)"
| "emit_allowed k EmConsume r \<longleftrightarrow> granted r \<noteq> None"
| "emit_allowed k EmDrop r \<longleftrightarrow> watching r = None \<and> granted r = None \<and> em_rx (em r)"

text \<open>A woken select reads its cell, unwatches, and has a permit if it was this candidate that woke it.\<close>

fun emit_step :: "emit_kind \<Rightarrow> emit_op \<Rightarrow> emit_run \<Rightarrow> emit_run option" where
  "emit_step k (EmTurn w) r =
    map_option (\<lambda>e. r\<lparr>em := e,
        ticks_sent := ticks_sent r + (ticks_queued e - ticks_queued (em r))\<rparr>) (kind_turn k w (em r))"
| "emit_step k EmFail r = Some (r\<lparr>em := emit_end (em r), failed := True\<rparr>)"
| "emit_step k EmSelect r =
    (case sl_select (kind_candidate k) (em r) of
       (Inr p, e) \<Rightarrow> Some (r\<lparr>em := e, granted := Some p\<rparr>)
     | (Inl err, e) \<Rightarrow> Some (r\<lparr>em := e\<rparr>))"
| "emit_step k (EmWatch sel) r =
    map_option (\<lambda>(b, e). r\<lparr>em := e, watching := Some sel\<rparr>) (sl_watch (kind_candidate k) sel (em r))"
| "emit_step k (EmOther i p) r =
    (case watching r of
       None \<Rightarrow> None
     | Some sel \<Rightarrow>
       let e = em r; c = em_chan e; s = schan_state c in
       Some (r\<lparr>em := e\<lparr>em_chan := c\<lparr>schan_state :=
         s\<lparr>scells := snd (store_wake (sel_waker sel) (MSelected i p) (scells s))\<rparr>\<rparr>\<rparr>\<rparr>))"
| "emit_step k EmWoken r =
    (case watching r of
       None \<Rightarrow> None
     | Some sel \<Rightarrow>
       (case waiter_wait (sel_waker sel) (waker_cells (em r)) of
          Some (Return (i, p)) \<Rightarrow>
            Some (r\<lparr>em := sl_unwatch (kind_candidate k) (sel_ident sel) (em r), watching := None,
              granted := (if i = sel_index sel then Some p else None)\<rparr>)
        | _ \<Rightarrow> None))"
| "emit_step k EmConsume r =
    (case granted r of
       None \<Rightarrow> None
     | Some p \<Rightarrow> map_option (\<lambda>e. r\<lparr>em := e, granted := None, ticks_taken := ticks_taken r + 1\<rparr>)
         (kind_consume k p (em r)))"
| "emit_step k EmDrop r = Some (r\<lparr>em := emitter_drop (em r)\<rparr>)"

text \<open>A run of allowed steps, none of which panics.\<close>

fun emit_runs :: "emit_kind \<Rightarrow> emit_op list \<Rightarrow> emit_run \<Rightarrow> emit_run option" where
  "emit_runs k [] r = Some r"
| "emit_runs k (x # xs) r =
    (if emit_allowed k x r then (case emit_step k x r of None \<Rightarrow> None | Some r' \<Rightarrow> emit_runs k xs r') else None)"

end
