(* ===== verification/Timers_Correct.thy ===== *)
theory Timers_Correct
  imports Timers Select_Proofs
begin

text \<open>
  What the candidates of \<open>after\<close> and \<open>interval\<close> promise, over every run of their coroutine, of the select
  that uses them, and of the other candidates of that select.
\<close>

section \<open>The invariant\<close>

fun tick_limit :: "emit_kind \<Rightarrow> nat" where
  "tick_limit AfterKind = 1"
| "tick_limit IntervalKind = 512"

definition chan_ok :: "emit_kind \<Rightarrow> emitter \<Rightarrow> bool" where
  "chan_ok k e \<longleftrightarrow>
    (let c = em_chan e; s = schan_state c in
     sbound s = tick_limit k \<and> length (sdeque s) \<le> tick_limit k \<and>
     ssender_count c = of_bool (em_tx e) \<and> sreceiver_count c = of_bool (em_rx e) \<and>
     (sclosed s \<longleftrightarrow> \<not> em_tx e \<or> \<not> em_rx e) \<and> (em_phase e = Ended \<longleftrightarrow> \<not> em_tx e) \<and>
     ssenders s = (case em_phase e of Sending w \<Rightarrow> if scells s w = Pending then [SResumption w] else [] | _ \<Rightarrow> []) \<and>
     (case em_phase e of Sending w \<Rightarrow> scells s w = Pending \<longrightarrow> length (sdeque s) = tick_limit k | _ \<Rightarrow> True))"

text \<open>The select that waits is queued until it is woken, and woken as soon as there is a permit.\<close>

definition watch_ok :: "emit_run \<Rightarrow> bool" where
  "watch_ok r \<longleftrightarrow>
    (let s = schan_state (em_chan (em r)) in
     case watching r of
       None \<Rightarrow> sreceivers s = []
     | Some sel \<Rightarrow> em_rx (em r) \<and> granted r = None \<and> em_phase (em r) \<noteq> Sending (sel_waker sel) \<and>
         (case scells s (sel_waker sel) of
            Pending \<Rightarrow> sreceivers s = [SSelector sel] \<and> sdeque s = [] \<and> \<not> sclosed s
          | Woken (MSelected i p) \<Rightarrow> sreceivers s \<in> {[], [SSelector sel]} \<and>
              (i = sel_index sel \<longrightarrow> p = to_select Consume \<and> (sdeque s \<noteq> [] \<or> sclosed s))
          | _ \<Rightarrow> False))"

definition grant_ok :: "emit_run \<Rightarrow> bool" where
  "grant_ok r \<longleftrightarrow>
    (case granted r of
       None \<Rightarrow> True
     | Some p \<Rightarrow> p = to_select Consume \<and> em_rx (em r) \<and>
         (sdeque (schan_state (em_chan (em r))) \<noteq> [] \<or> sclosed (schan_state (em_chan (em r)))))"

fun count_ok :: "emit_kind \<Rightarrow> emit_run \<Rightarrow> bool" where
  "count_ok AfterKind r \<longleftrightarrow> ticks_sent r = ticks_taken r + ticks_queued (em r) \<and>
    (em_phase (em r) = Asleep \<and> ticks_sent r = 0 \<or>
     em_phase (em r) = Ended \<and> ticks_sent r = 1 \<or>
     em_phase (em r) = Ended \<and> ticks_sent r = 0 \<and> (failed r \<or> \<not> em_rx (em r))) \<and>
    (ticks_taken r = 0 \<or> \<not> em_rx (em r))"
| "count_ok IntervalKind r \<longleftrightarrow> ticks_sent r = ticks_taken r + ticks_queued (em r) \<and>
    (em_phase (em r) \<noteq> Ended \<or> failed r \<or> \<not> em_rx (em r))"

definition emit_inv :: "emit_kind \<Rightarrow> emit_run \<Rightarrow> bool" where
  "emit_inv k r \<longleftrightarrow> chan_ok k (em r) \<and> watch_ok r \<and> grant_ok r \<and> count_ok k r"

lemmas emit_inv_defs = emit_inv_def chan_ok_def watch_ok_def grant_ok_def ticks_queued_def Let_def

section \<open>The operations\<close>

abbreviation chan_of :: "emitter \<Rightarrow> unit sstate" where
  "chan_of e \<equiv> schan_state (em_chan e)"

abbreviation set_chan :: "unit sstate \<Rightarrow> emitter \<Rightarrow> emitter" where
  "set_chan s e \<equiv> e\<lparr>em_chan := (em_chan e)\<lparr>schan_state := s\<rparr>\<rparr>"

lemmas candidate_defs = after_selectable_def interval_selectable_def after_select_permit_def
  interval_select_permit_def after_watch_permit_def interval_watch_permit_def after_unwatch_permit_def
  interval_unwatch_permit_def with_receiver_def sreceiver_select_permit_def receiver_select_permit_def
  sreceiver_watch_permit_def receiver_watch_permit_def sreceiver_unwatch_permit_def receiver_unwatch_permit_def
  serial_ops_def on_schan_def

lemma kind_select:
  "sl_select (kind_candidate k) e =
    (if em_rx e then if recvable (chan_of e) then Inr (to_select Consume) else Inl WouldBlock else Inl Completed, e)"
  by (cases k) (simp_all add: candidate_defs sselect_recv_permit_def)

lemma kind_watch:
  assumes "em_rx e" "\<not> recvable (chan_of e)"
  shows "sl_watch (kind_candidate k) sel e =
    Some (True, set_chan ((chan_of e)\<lparr>sreceivers := sreceivers (chan_of e) @ [SSelector sel]\<rparr>) e)"
  using assms by (cases k) (simp_all add: candidate_defs swatch_recv_permit_def)

lemma kind_unwatch:
  assumes "sreceivers (chan_of e) \<in> {[], [SSelector sel]}" "em_rx e"
  shows "sl_unwatch (kind_candidate k) (sel_ident sel) e = set_chan ((chan_of e)\<lparr>sreceivers := []\<rparr>) e"
  using assms
  by (cases k) (auto simp: candidate_defs sunwatch_recv_permit_def identify_def)

lemma kind_unwatch_nil:
  "sreceivers (chan_of e) = [] \<Longrightarrow> em_rx e \<Longrightarrow>
    sl_unwatch (kind_candidate k) ident e = set_chan ((chan_of e)\<lparr>sreceivers := []\<rparr>) e"
  using kind_unwatch [of e "\<lparr>sel_index = 0, sel_waker = 0, sel_ident = ident\<rparr>"] by simp

text \<open>They are candidates like any other: a select over them misses no permit.\<close>

interpretation tm: candidate "kind_candidate k" "\<lambda>w e. waker_cells e w \<noteq> Pending"
proof
  fix sel e b e' w
  show "sl_select (kind_candidate k) e = (Inl err, e') \<Longrightarrow> e' = e" for err by (simp add: kind_select)
  show "sl_select (kind_candidate k) e = (Inl WouldBlock, e') \<Longrightarrow> sl_watch (kind_candidate k) sel e \<noteq> None"
    using kind_watch [of e k sel] by (auto simp: kind_select split: if_splits)
  show "sl_select (kind_candidate k) e = (Inr p, e1) \<Longrightarrow> sl_watch (kind_candidate k) sel e = Some (b, e') \<Longrightarrow>
      b \<and> waker_cells e' (sel_waker sel) \<noteq> Pending" for p e1
    by (cases k) (simp_all add: candidate_defs swatch_recv_permit_def sselect_recv_permit_def split: if_splits)
  show "waker_cells e w \<noteq> Pending \<Longrightarrow> sl_watch (kind_candidate k) sel e = Some (b, e') \<Longrightarrow> waker_cells e' w \<noteq> Pending"
    by (cases k) (auto simp: candidate_defs swatch_recv_permit_def waker_cells_def split: if_splits)
qed

declare kind_candidate.simps [simp del] kind_turn.simps [simp del] kind_consume.simps [simp del]

lemma emit_inv_select:
  assumes "emit_inv k r" "emit_allowed k EmSelect r"
  shows "\<exists>r'. emit_step k EmSelect r = Some r' \<and> emit_inv k r'"
  using assms by (cases k) (auto simp: emit_inv_defs kind_select recvable_def cong: emit_phase.case_cong)

lemma emit_inv_watch:
  assumes "emit_inv k r" "emit_allowed k (EmWatch sel) r"
  shows "\<exists>r'. emit_step k (EmWatch sel) r = Some r' \<and> emit_inv k r'"
proof -
  have "em_rx (em r)" "\<not> recvable (chan_of (em r))" using assms(2) by (auto simp: kind_select split: if_splits)
  then have step: "emit_step k (EmWatch sel) r = Some (r\<lparr>em := set_chan ((chan_of (em r))\<lparr>sreceivers :=
      sreceivers (chan_of (em r)) @ [SSelector sel]\<rparr>) (em r), watching := Some sel\<rparr>)" by (simp add: kind_watch)
  show ?thesis
    unfolding step using assms
    by (cases k) (auto simp: emit_inv_defs kind_select recvable_def waker_cells_def split: if_splits cong: emit_phase.case_cong)
qed

lemma emit_inv_other:
  assumes "emit_inv k r" "emit_allowed k (EmOther i p) r"
  shows "\<exists>r'. emit_step k (EmOther i p) r = Some r' \<and> emit_inv k r'"
proof -
  obtain sel where sel: "watching r = Some sel" "sel_index sel \<noteq> i" using assms(2) by (auto split: option.splits)
  show ?thesis
  proof (cases "scells (chan_of (em r)) (sel_waker sel) = Pending")
    case True
    then show ?thesis
      using assms sel by (cases k) (auto simp: emit_inv_defs wake_simps split: emit_phase.splits)
  next
    case False
    then have "emit_step k (EmOther i p) r = Some r" using sel by (simp add: wake_simps Let_def)
    then show ?thesis using assms(1) by simp
  qed
qed

lemma emit_inv_woken:
  assumes "emit_inv k r" "emit_allowed k EmWoken r"
  shows "\<exists>r'. emit_step k EmWoken r = Some r' \<and> emit_inv k r'"
proof -
  obtain sel where sel: "watching r = Some sel" "scells (chan_of (em r)) (sel_waker sel) \<noteq> Pending"
    using assms(2) by (auto simp: waker_cells_def split: option.splits)
  then obtain i p where cell: "scells (chan_of (em r)) (sel_waker sel) = Woken (MSelected i p)"
      "sreceivers (chan_of (em r)) \<in> {[], [SSelector sel]}" "em_rx (em r)"
      "i = sel_index sel \<longrightarrow> p = to_select Consume \<and> recvable (chan_of (em r))"
    using assms(1) by (auto simp: emit_inv_def watch_ok_def recvable_def Let_def split: cell.splits wake_msg.splits)
  then have step: "emit_step k EmWoken r = Some (r\<lparr>em := set_chan ((chan_of (em r))\<lparr>sreceivers := []\<rparr>) (em r),
      watching := None, granted := (if i = sel_index sel then Some p else None)\<rparr>)"
    using sel by (simp add: waiter_wait_def waker_cells_def kind_unwatch)
  show ?thesis
    unfolding step using assms(1) cell
    by (cases k) (auto simp: emit_inv_defs recvable_def cong: emit_phase.case_cong)
qed

lemmas consume_defs = sreceiver_consume_permit_def receiver_consume_permit_def sreceiver_terminate_def
  receiver_terminate_def receiver_drop_def serial_ops_def on_schan_def sconsume_recv_permit_def srecv_def

lemma interval_consume:
  assumes "em_rx e" "sdeque (chan_of e) = u # us"
  shows "kind_consume IntervalKind (to_select Consume) e = Some (set_chan (swake_sender ((chan_of e)\<lparr>sdeque := us\<rparr>)) e)"
  using assms by (simp add: kind_consume.simps interval_consume_permit_def consume_defs)

lemma after_consume:
  assumes "em_rx e" "sdeque (chan_of e) = u # us"
  shows "kind_consume AfterKind (to_select Consume) e =
    Some (e\<lparr>em_rx := False, em_chan := sremove_receiver ((em_chan e)\<lparr>schan_state :=
      swake_sender ((chan_of e)\<lparr>sdeque := us\<rparr>)\<rparr>)\<rparr>)"
  using assms by (simp add: kind_consume.simps after_consume_permit_def consume_defs)

lemma consume_closed:
  assumes "em_rx e" "sdeque (chan_of e) = []" "sclosed (chan_of e)"
  shows "kind_consume k (to_select Consume) e = None"
  using assms
  by (cases k) (simp_all add: kind_consume.simps after_consume_permit_def interval_consume_permit_def consume_defs)

lemma swake_sender_single:
  "swake_sender s = (case ssenders s of
      [] \<Rightarrow> s
    | [SResumption w] \<Rightarrow> s\<lparr>ssenders := [], scells := snd (store_wake w MResumed (scells s))\<rparr>
    | _ \<Rightarrow> swake_sender s)"
  by (auto simp: swake_sender_def split: list.splits swaker.splits prod.splits)

lemma emit_inv_consume:
  assumes inv: "emit_inv k r" and allowed: "emit_allowed k EmConsume r"
  shows "(case emit_step k EmConsume r of None \<Rightarrow> failed r \<and> ticks_queued (em r) = 0 | Some r' \<Rightarrow> emit_inv k r')"
proof -
  obtain p where "granted r = Some p" using allowed by auto
  then have g: "granted r = Some (to_select Consume)" "em_rx (em r)" "recvable (chan_of (em r))" "watching r = None"
    using inv by (auto simp: emit_inv_defs recvable_def split: option.splits)
  show ?thesis
  proof (cases "sdeque (chan_of (em r))")
    case Nil
    then have "emit_step k EmConsume r = None" using g consume_closed by (simp add: recvable_def)
    moreover have "failed r" using inv g Nil by (cases k) (auto simp: emit_inv_defs recvable_def)
    ultimately show ?thesis using Nil by (simp add: ticks_queued_def)
  next
    case (Cons u us)
    show ?thesis
    proof (cases k)
      case AfterKind
      show ?thesis
        using inv g Cons unfolding AfterKind
        by (auto simp: after_consume emit_inv_defs swake_sender_single sremove_receiver_def sclose_def swake_all_def
            split: emit_phase.splits)
    next
      case IntervalKind
      show ?thesis
        using inv g Cons unfolding IntervalKind
        by (auto simp: interval_consume emit_inv_defs swake_sender_single store_wake_def split: emit_phase.splits)
    qed
  qed
qed

lemma emit_inv_drop:
  assumes "emit_inv k r" "emit_allowed k EmDrop r"
  shows "\<exists>r'. emit_step k EmDrop r = Some r' \<and> emit_inv k r'"
  using assms
  by (cases k) (auto simp: emitter_drop_def with_receiver_def consume_defs sremove_receiver_def sclose_def swake_all_def
      emit_inv_defs Let_def store_wake_def split: emit_phase.splits)

text \<open>The end of the coroutine closes the channel, which wakes the select that waits.\<close>

lemma emit_end_attached:
  assumes "em_tx e" "ssender_count (em_chan e) = 1"
  shows "emit_end e = e\<lparr>em_tx := False, em_phase := Ended,
    em_chan := (em_chan e)\<lparr>schan_state := sclose (chan_of e), ssender_count := 0\<rparr>\<rparr>"
  using assms by (simp add: emit_end_def sender_drop_def sender_close_def serial_ops_def sremove_sender_def)

lemma emit_end_detached: "\<not> em_tx e \<Longrightarrow> emit_end e = e\<lparr>em_phase := Ended\<rparr>"
  by (simp add: emit_end_def sender_drop_def sender_close_def)

lemma waker_disjoint: "w \<noteq> w' \<Longrightarrow> snd (store_wake w m cs) w' = cs w'"
  by (simp add: store_wake_def split: prod.splits)

lemma close_cell:
  assumes chan: "chan_ok k (em r)" and watch: "watch_ok r" and sel: "watching r = Some sel"
  shows "scells (sclose (chan_of (em r))) (sel_waker sel) =
    (if scells (chan_of (em r)) (sel_waker sel) = Pending then Woken (MSelected (sel_index sel) (to_select Consume))
     else scells (chan_of (em r)) (sel_waker sel))"
proof -
  let ?s = "chan_of (em r)"
  have senders: "\<forall>x\<in>set (ssenders ?s). \<exists>w. x = SResumption w \<and> w \<noteq> sel_waker sel"
    using chan watch sel by (auto simp: chan_ok_def watch_ok_def Let_def split: emit_phase.splits)
  have other: "\<forall>x\<in>set ws. \<exists>w. x = SResumption w \<and> w \<noteq> sel_waker sel \<Longrightarrow> swake_all ws cs (sel_waker sel) = cs (sel_waker sel)"
    for ws and cs :: "unit wake_msg cells"
    by (induction ws arbitrary: cs) (auto simp: swake_all_def waker_disjoint)
  have receivers: "swake_all (sreceivers ?s) cs (sel_waker sel) =
      (if cs (sel_waker sel) = Pending then Woken (MSelected (sel_index sel) (to_select Consume)) else cs (sel_waker sel))"
    if "cs (sel_waker sel) = scells ?s (sel_waker sel)" for cs
    using watch sel that
    by (auto simp: watch_ok_def Let_def swake_all_def wake_simps split: cell.splits wake_msg.splits)
  show ?thesis
    using receivers [of "swake_all (ssenders ?s) (scells ?s)"] other [OF senders, of "scells ?s"] by (simp add: sclose_def)
qed

lemma ticks_sent_irrelevant [simp]:
  "watch_ok (r\<lparr>ticks_sent := n\<rparr>) = watch_ok r" "grant_ok (r\<lparr>ticks_sent := n\<rparr>) = grant_ok r"
  by (simp_all add: watch_ok_def grant_ok_def cong: option.case_cong)

lemma end_ok:
  assumes "chan_ok k (em r)" "watch_ok r" "grant_ok r" "em_tx (em r)"
  shows "chan_ok k (emit_end (em r)) \<and> watch_ok (r\<lparr>em := emit_end (em r), failed := f\<rparr>) \<and>
    grant_ok (r\<lparr>em := emit_end (em r), failed := f\<rparr>) \<and> ticks_queued (emit_end (em r)) = ticks_queued (em r) \<and>
    em_phase (emit_end (em r)) = Ended \<and> em_rx (emit_end (em r)) = em_rx (em r)"
proof -
  have step: "emit_end (em r) = (em r)\<lparr>em_tx := False, em_phase := Ended,
      em_chan := (em_chan (em r))\<lparr>schan_state := sclose (chan_of (em r)), ssender_count := 0\<rparr>\<rparr>"
    using assms by (intro emit_end_attached) (auto simp: chan_ok_def Let_def)
  have sc: "sdeque (sclose s) = sdeque s" "sbound (sclose s) = sbound s" "sclosed (sclose s)" "ssenders (sclose s) = []"
      "sreceivers (sclose s) = []" for s :: "unit sstate"
    by (simp_all add: sclose_def)
  have "watch_ok (r\<lparr>em := emit_end (em r), failed := f\<rparr>)"
  proof (cases "watching r")
    case (Some sel)
    then show ?thesis using assms(2) close_cell [OF assms(1,2) Some] step
      by (auto simp: watch_ok_def Let_def sc split: cell.splits wake_msg.splits)
  qed (simp add: watch_ok_def step sc)
  then show ?thesis
    using assms step by (auto simp: chan_ok_def grant_ok_def ticks_queued_def Let_def sc split: option.splits)
qed

lemma emit_inv_fail:
  assumes "emit_inv k r" "emit_allowed k EmFail r"
  shows "\<exists>r'. emit_step k EmFail r = Some r' \<and> emit_inv k r'"
proof -
  have "em_tx (em r)" "chan_ok k (em r)" "watch_ok r" "grant_ok r" using assms by (auto simp: emit_inv_defs)
  then show ?thesis using assms end_ok [of k r True] by (cases k) (auto simp: emit_inv_def)
qed

text \<open>The three outcomes of a turn: the channel is closed, it has room, or it is full.\<close>

definition pushed :: "emitter \<Rightarrow> emitter" where
  "pushed e = (set_chan (swake_receiver ((chan_of e)\<lparr>sdeque := sdeque (chan_of e) @ [()]\<rparr>)) e)\<lparr>em_phase := Asleep\<rparr>"

lemma turn_closed:
  assumes "em_tx e" "ssender_count (em_chan e) = 1" "sclosed (chan_of e)"
  shows "kind_turn k w e = Some (emit_end e)"
  using assms
  by (cases k) (simp_all add: kind_turn.simps after_turn_def interval_turn_def emit_send_def ssender_send_def
      sender_send_def serial_ops_def on_schan_def ssend_def emit_end_def sender_drop_def sender_close_def)

lemma turn_room:
  assumes "em_tx e" "\<not> sclosed (chan_of e)" "\<not> sfull (chan_of e)"
  shows "kind_turn k w e = Some (if k = AfterKind then emit_end (pushed e) else pushed e)"
  using assms
  by (cases k) (simp_all add: kind_turn.simps after_turn_def interval_turn_def emit_send_def ssender_send_def
      sender_send_def serial_ops_def on_schan_def ssend_def emit_end_def pushed_def sender_drop_def sender_close_def
      split: prod.splits)

lemma turn_full:
  assumes "em_tx e" "\<not> sclosed (chan_of e)" "sfull (chan_of e)"
  shows "kind_turn k w e = Some ((set_chan ((chan_of e)\<lparr>ssenders := ssenders (chan_of e) @ [SResumption w]\<rparr>) e)
    \<lparr>em_phase := Sending w\<rparr>)"
  using assms
  by (cases k) (simp_all add: kind_turn.simps after_turn_def interval_turn_def emit_send_def ssender_send_def
      sender_send_def serial_ops_def on_schan_def ssend_def)

lemma pushed_ok:
  assumes "chan_ok k (em r)" "watch_ok r" "grant_ok r" "em_tx (em r)" "\<not> sfull (chan_of (em r))"
    "ssenders (chan_of (em r)) = []"
  shows "chan_ok k (pushed (em r)) \<and> watch_ok (r\<lparr>em := pushed (em r)\<rparr>) \<and> grant_ok (r\<lparr>em := pushed (em r)\<rparr>) \<and>
    ticks_queued (pushed (em r)) = ticks_queued (em r) + 1 \<and> em_tx (pushed (em r)) \<and>
    em_rx (pushed (em r)) = em_rx (em r) \<and> em_phase (pushed (em r)) = Asleep"
proof -
  let ?s = "chan_of (em r)"
  have fields: "sdeque (chan_of (pushed (em r))) = sdeque ?s @ [()]" "sbound (chan_of (pushed (em r))) = sbound ?s"
      "sclosed (chan_of (pushed (em r))) = sclosed ?s" "ssenders (chan_of (pushed (em r))) = ssenders ?s"
    by (simp_all add: pushed_def swake_receiver_def split: prod.splits)
  have "watch_ok (r\<lparr>em := pushed (em r)\<rparr>)"
    using assms(2) fields(1)
    by (auto simp: watch_ok_def pushed_def swake_receiver_def Let_def wake_simps
        split: option.splits cell.splits wake_msg.splits)
  moreover have "chan_ok k (pushed (em r))" using assms fields
    by (auto simp: chan_ok_def Let_def sfull_def pushed_def)
  ultimately show ?thesis
    using assms(3,4) fields by (auto simp: grant_ok_def ticks_queued_def pushed_def split: option.splits)
qed

lemma emit_inv_turn:
  assumes inv: "emit_inv k r" and allowed: "emit_allowed k (EmTurn w) r"
  shows "\<exists>r'. emit_step k (EmTurn w) r = Some r' \<and> emit_inv k r'"
proof -
  have ok: "chan_ok k (em r)" "watch_ok r" "grant_ok r" "count_ok k r" using inv by (auto simp: emit_inv_def)
  have tx: "em_tx (em r)" "ssender_count (em_chan (em r)) = 1" "ssenders (chan_of (em r)) = []"
    using ok(1) allowed by (auto simp: chan_ok_def Let_def waker_cells_def split: emit_phase.splits)
  consider (closed) "sclosed (chan_of (em r))" | (room) "\<not> sclosed (chan_of (em r))" "\<not> sfull (chan_of (em r))"
    | (full) "\<not> sclosed (chan_of (em r))" "sfull (chan_of (em r))" by blast
  then show ?thesis
  proof cases
    case closed
    then have "\<not> em_rx (em r)" using ok(1) tx(1) by (simp add: chan_ok_def Let_def)
    then show ?thesis
      using end_ok [OF ok(1-3) tx(1), of "failed r"] ok(4) turn_closed [OF tx(1,2) closed, of k w] 
      by (cases k) (auto simp: emit_inv_def)
  next
    case room
    have push: "chan_ok k (pushed (em r)) \<and> watch_ok (r\<lparr>em := pushed (em r)\<rparr>) \<and> grant_ok (r\<lparr>em := pushed (em r)\<rparr>) \<and>
        ticks_queued (pushed (em r)) = ticks_queued (em r) + 1 \<and> em_tx (pushed (em r)) \<and>
        em_rx (pushed (em r)) = em_rx (em r) \<and> em_phase (pushed (em r)) = Asleep"
      by (rule pushed_ok [OF ok(1-3) tx(1) room(2) tx(3)])
    moreover have "em_phase (em r) \<noteq> Ended" using tx ok(1) by (simp add: chan_ok_def Let_def)
    ultimately show ?thesis
      using end_ok [of k "r\<lparr>em := pushed (em r)\<rparr>" "failed r"] ok(4) turn_room [OF tx(1) room, of k w]
      by (cases k) (auto simp: emit_inv_def)
  next
    case full
    then show ?thesis
      using inv allowed tx turn_full [OF tx(1) full, of k w]
      by (cases k) (auto simp: emit_inv_defs sfull_def waker_cells_def split: option.splits cell.splits wake_msg.splits)
  qed
qed


section \<open>Runs\<close>

lemma emit_inv_step:
  assumes "emit_inv k r" "emit_allowed k x r"
  shows "case emit_step k x r of None \<Rightarrow> x = EmConsume \<and> failed r | Some r' \<Rightarrow> emit_inv k r'"
proof -
  have some: "case emit_step k x r of None \<Rightarrow> x = EmConsume \<and> failed r | Some r' \<Rightarrow> emit_inv k r'"
    if "\<exists>r'. emit_step k x r = Some r' \<and> emit_inv k r'" using that by auto
  show ?thesis
  proof (cases x)
    case (EmTurn w)
    then show ?thesis using some emit_inv_turn assms by blast
  next
    case EmFail
    then show ?thesis using some emit_inv_fail assms by blast
  next
    case EmSelect
    then show ?thesis using some emit_inv_select assms by blast
  next
    case (EmWatch sel)
    then show ?thesis using some emit_inv_watch assms by blast
  next
    case (EmOther i p)
    then show ?thesis using some emit_inv_other assms by blast
  next
    case EmWoken
    then show ?thesis using some emit_inv_woken assms by blast
  next
    case EmConsume
    then show ?thesis using emit_inv_consume [of k r] assms by (cases "emit_step k x r") auto
  next
    case EmDrop
    then show ?thesis using some emit_inv_drop assms by blast
  qed
qed

lemma emit_inv_runs: "emit_inv k r \<Longrightarrow> emit_runs k ops r = Some r' \<Longrightarrow> emit_inv k r'"
proof (induction ops arbitrary: r)
  case (Cons x ops)
  then obtain r1 where "emit_allowed k x r" "emit_step k x r = Some r1" "emit_runs k ops r1 = Some r'"
    by (auto split: if_splits option.splits)
  with Cons show ?case using emit_inv_step [of k r x] by auto
qed simp

fun kind_new :: "emit_kind \<Rightarrow> nat \<Rightarrow> emitter option" where
  "kind_new AfterKind period = after_new"
| "kind_new IntervalKind period = interval_new period"

lemma emit_inv_start: "kind_new k period = Some e \<Longrightarrow> emit_inv k (start_of e)"
  by (cases k) (auto simp: after_new_def interval_new_def serial_bounded_def serial_channel_def schannel_new_def
      sstate_new_def emitter_of_def start_of_def emit_inv_defs split: if_splits)

text \<open>
  C35. The candidates of \<open>after\<close> and \<open>interval\<close>, in any use: nothing panics but the consumption after the
  coroutine has failed. A candidate is ready exactly while a tick is sent and not taken, or after a
  failure, and a select that waits for it is woken by then. \<open>after\<close> ticks at most once, not before
  its sleep is over, and is completed once taken; \<open>interval\<close> ticks until it is dropped, and pauses
  only with 512 ticks unread.
\<close>

theorem timers_deliver:
  assumes new: "kind_new k period = Some e" and run: "emit_runs k ops (start_of e) = Some r"
  shows "(emit_allowed k x r \<and> emit_step k x r = None \<longrightarrow> x = EmConsume \<and> failed r) \<and>
    (ticks_sent r = ticks_taken r + ticks_queued (em r) \<and> ticks_queued (em r) \<le> tick_limit k) \<and>
    fst (sl_select (kind_candidate k) (em r)) =
      (if \<not> em_rx (em r) then Inl Completed
       else if ticks_taken r < ticks_sent r \<or> em_phase (em r) = Ended then Inr (to_select Consume) else Inl WouldBlock) \<and>
    (em_rx (em r) \<and> em_phase (em r) = Ended \<longrightarrow> failed r \<or> k = AfterKind \<and> ticks_sent r = 1) \<and>
    (\<forall>sel. watching r = Some sel \<and> waker_cells (em r) (sel_waker sel) = Pending \<longrightarrow>
      ticks_taken r = ticks_sent r \<and> em_phase (em r) \<noteq> Ended) \<and>
    (k = AfterKind \<longrightarrow> ticks_sent r \<le> 1 \<and> (em_phase (em r) = Asleep \<longrightarrow> ticks_sent r = 0) \<and>
      (ticks_taken r = 1 \<longrightarrow> \<not> em_rx (em r))) \<and>
    (\<forall>w. em_phase (em r) = Sending w \<and> waker_cells (em r) w = Pending \<longrightarrow>
      k = IntervalKind \<and> ticks_queued (em r) = 512)"
proof (intro conjI)
  have inv: "emit_inv k r" by (rule emit_inv_runs [OF emit_inv_start [OF new] run])
  then have chan: "chan_ok k (em r)" and watch: "watch_ok r" and count: "count_ok k r" by (auto simp: emit_inv_def)
  show sum: "ticks_sent r = ticks_taken r + ticks_queued (em r)" using count by (cases k) auto
  show "ticks_queued (em r) \<le> tick_limit k" using chan by (simp add: chan_ok_def ticks_queued_def Let_def)
  show "emit_allowed k x r \<and> emit_step k x r = None \<longrightarrow> x = EmConsume \<and> failed r"
    using emit_inv_step [OF inv, of x] by auto
  have closed: "em_rx (em r) \<Longrightarrow> sclosed (chan_of (em r)) \<longleftrightarrow> em_phase (em r) = Ended"
    using chan by (auto simp: chan_ok_def Let_def)
  have queued: "sdeque (chan_of (em r)) \<noteq> [] \<longleftrightarrow> ticks_taken r < ticks_sent r" using sum by (auto simp: ticks_queued_def)
  show "fst (sl_select (kind_candidate k) (em r)) =
      (if \<not> em_rx (em r) then Inl Completed
       else if ticks_taken r < ticks_sent r \<or> em_phase (em r) = Ended then Inr (to_select Consume) else Inl WouldBlock)"
    using closed queued by (simp add: kind_select recvable_def)
  show "em_rx (em r) \<and> em_phase (em r) = Ended \<longrightarrow> failed r \<or> k = AfterKind \<and> ticks_sent r = 1"
    using count by (cases k) auto
  show "\<forall>sel. watching r = Some sel \<and> waker_cells (em r) (sel_waker sel) = Pending \<longrightarrow>
      ticks_taken r = ticks_sent r \<and> em_phase (em r) \<noteq> Ended"
    using watch closed queued sum by (auto simp: watch_ok_def waker_cells_def ticks_queued_def Let_def)
  show "k = AfterKind \<longrightarrow> ticks_sent r \<le> 1 \<and> (em_phase (em r) = Asleep \<longrightarrow> ticks_sent r = 0) \<and>
      (ticks_taken r = 1 \<longrightarrow> \<not> em_rx (em r))" using count by auto
  show "\<forall>w. em_phase (em r) = Sending w \<and> waker_cells (em r) w = Pending \<longrightarrow>
      k = IntervalKind \<and> ticks_queued (em r) = 512"
    using chan count by (cases k) (auto simp: chan_ok_def waker_cells_def ticks_queued_def Let_def)
qed

text \<open>A select waits for an \<open>after\<close>, is woken by its tick, and takes it.\<close>

lemma timers_deliver_witness:
  "\<exists>e r. kind_new AfterKind 0 = Some e \<and>
    emit_runs AfterKind [EmSelect, EmWatch \<lparr>sel_index = 1, sel_waker = 7, sel_ident = 7\<rparr>, EmTurn 8, EmWoken, EmConsume]
      (start_of e) = Some r \<and> ticks_taken r = 1 \<and>
    fst (sl_select (kind_candidate AfterKind) (em r)) = Inl Completed"
proof -
  let ?ops = "[EmSelect, EmWatch \<lparr>sel_index = 1, sel_waker = 7, sel_ident = 7\<rparr>, EmTurn 8, EmWoken, EmConsume]"
  obtain e where e: "kind_new AfterKind 0 = Some e" "e = emitter_of (serial_channel 1)"
    by (simp add: after_new_def serial_bounded_def)
  have "map_option (\<lambda>r. (ticks_taken r, ticks_sent r)) (emit_runs AfterKind ?ops (start_of e)) = Some (1, 1)"
    unfolding e(2)
    by (simp add: start_of_def emitter_of_def serial_channel_def schannel_new_def sstate_new_def kind_select kind_watch
        recvable_def turn_room sfull_def pushed_def swake_receiver_def wake_simps emit_end_attached sclose_def
        swake_all_def waker_cells_def ticks_queued_def waiter_wait_def kind_unwatch_nil after_consume swake_sender_def)
  then obtain r where r: "emit_runs AfterKind ?ops (start_of e) = Some r" "ticks_taken r = 1" by auto
  have "fst (sl_select (kind_candidate AfterKind) (em r)) = Inl Completed"
    using timers_deliver [OF e(1) r(1)] r(2) by simp
  with e(1) r show ?thesis by blast
qed

end
