(* ===== verification/Joining.thy ===== *)
theory Joining
  imports Session_Delivery Errors
begin

text \<open>
  The interface of \<open>src/src/task/session.rs\<close> and what \<open>src/src/task.rs\<close> makes of it: how the value of
  a session comes out of \<open>wait\<close> and of the \<open>JoinHandle\<close> of a task, and how a value goes in.
\<close>

section \<open>Values\<close>

fun session_result :: "'v session_value \<Rightarrow> panic_error + 'v" where
  "session_result (SValue v) = Inr v"
| "session_result (SPanic e) = Inl e"

text \<open>\<open>None\<close> is \<open>unreachable_unchecked\<close>.\<close>

fun into_value :: "'v session_value \<Rightarrow> 'v option" where
  "into_value (SValue v) = Some v"
| "into_value (SPanic e) = None"

fun into_panic :: "'v session_value \<Rightarrow> panic_error option" where
  "into_panic (SPanic e) = Some e"
| "into_panic (SValue v) = None"

section \<open>Sending\<close>

text \<open>
  \<open>wake\<close> and \<open>cancel\<close> of a joint, run alone: the task to wake if they succeed, else the argument back.
\<close>

definition joint_wake :: "'v \<Rightarrow> 'v shared \<Rightarrow> ('v + session_task option) option \<times> 'v shared" where
  "joint_wake v sh =
    (case run_setter 5 sh (SLoad (SValue v)) of
       (sh', SOk t) \<Rightarrow> (Some (Inr t), sh')
     | (sh', SErr w) \<Rightarrow> (map_option Inl (into_value w), sh')
     | (sh', _) \<Rightarrow> (None, sh'))"

definition joint_cancel :: "panic_error \<Rightarrow> 'v shared \<Rightarrow> (panic_error + session_task option) option \<times> 'v shared" where
  "joint_cancel e sh =
    (case run_setter 5 sh (SLoad (SPanic e)) of
       (sh', SOk t) \<Rightarrow> (Some (Inr t), sh')
     | (sh', SErr w) \<Rightarrow> (map_option Inl (into_panic w), sh')
     | (sh', _) \<Rightarrow> (None, sh'))"

text \<open>\<open>Yielding::interrupt\<close> of a joint.\<close>

definition joint_interrupt :: "string \<Rightarrow> 'v shared \<Rightarrow> bool \<times> 'v shared" where
  "joint_interrupt reason sh =
    (case joint_cancel (Static reason) sh of
       (Some (Inr t), sh') \<Rightarrow> (True, sh')
     | (_, sh') \<Rightarrow> (False, sh'))"

definition session_send :: "'v \<Rightarrow> 'v session \<Rightarrow> ('v + unit) option \<times> 'v session" where
  "session_send v s =
    (case joint_wake v (sess_joint s) of
       (r, sh) \<Rightarrow> (map_option (map_sum id (\<lambda>_. ())) r, s\<lparr>sess_joint := sh\<rparr>))"

text \<open>\<open>session\<close> panics in a coroutine that is being aborted.\<close>

definition session_for :: "bool \<Rightarrow> 'v session option" where
  "session_for aborting = (if aborting then None else Some session_new)"

section \<open>Receiving\<close>

text \<open>\<open>wait\<close> resumes the panic of a session; \<open>JoinHandle::join\<close> reports it as an error.\<close>

definition session_wait :: "'v session_value \<Rightarrow> payload + 'v" where
  "session_wait v = (case session_result v of Inr x \<Rightarrow> Inr x | Inl e \<Rightarrow> Inl (panic_resume e))"

datatype join_error = JoinError panic_error

fun join_error_into_panic :: "join_error \<Rightarrow> payload" where
  "join_error_into_panic (JoinError e) = into_boxed e"

definition task_join :: "'v session_value \<Rightarrow> join_error + 'v" where
  "task_join v = (case session_result v of Inr x \<Rightarrow> Inr x | Inl e \<Rightarrow> Inl (JoinError e))"

text \<open>What the main of a task sets, from what it returned or panicked with.\<close>

fun main_value :: "payload + 'v \<Rightarrow> 'v session_value" where
  "main_value (Inr v) = SValue v"
| "main_value (Inl p) = SPanic (Unwind p)"

section \<open>Waiting\<close>

text \<open>
  \<open>join\<close> joins as the task of the thread, if it runs one, or as the thread. A task waits once; a thread
  parks until its status is not \<open>Joining\<close> any more: \<open>seen\<close> are the statuses after each return of
  \<open>park\<close>, \<open>None\<close> is a thread that is still parked.
\<close>

definition joint_joiner :: "session_task option \<Rightarrow> nat \<Rightarrow> joiner" where
  "joint_joiner t th = (case t of Some st \<Rightarrow> JTask st | None \<Rightarrow> JThread th)"

fun wait_on_thread :: "status list \<Rightarrow> status option" where
  "wait_on_thread [] = None"
| "wait_on_thread (st # seen) = (if st = Joining then wait_on_thread seen else Some st)"

definition wait_on_task :: "status list \<Rightarrow> status option" where
  "wait_on_task seen = (case seen of [] \<Rightarrow> None | st # _ \<Rightarrow> Some st)"

definition wait_value :: "joiner \<Rightarrow> status list \<Rightarrow> status option" where
  "wait_value j seen = (case j of JTask t \<Rightarrow> wait_on_task seen | JThread th \<Rightarrow> wait_on_thread seen)"

text \<open>The loop of \<open>join_value\<close> around it comes out the same for both: the first status that is not \<open>Joining\<close>.\<close>

fun join_waits :: "joiner \<Rightarrow> status list \<Rightarrow> status option" where
  "join_waits j [] = None"
| "join_waits j (st # seen) =
    (case wait_value j (st # seen) of
       None \<Rightarrow> None
     | Some st' \<Rightarrow> if st' = Joining then join_waits j seen else Some st')"

lemma wait_on_thread_found: "wait_on_thread seen = List.find (\<lambda>st. st \<noteq> Joining) seen"
  by (induction seen) simp_all

lemma join_waits_found: "join_waits j seen = List.find (\<lambda>st. st \<noteq> Joining) seen"
proof (induction seen)
  case (Cons st seen)
  show ?case
  proof (cases "st = Joining")
    case True
    then show ?thesis using Cons
      by (cases j; cases "List.find (\<lambda>st. st \<noteq> Joining) seen")
        (auto simp: wait_value_def wait_on_task_def wait_on_thread_found dest: find_Some_iff [THEN iffD1])
  next
    case False
    then show ?thesis by (cases j) (simp_all add: wait_value_def wait_on_task_def)
  qed
qed simp

section \<open>Properties\<close>

lemma set_value_of_main: "snd (set_value (main_value r) (sess_joint s)) = sess_joint (set_result r s)"
  by (cases r) (simp_all add: set_result_def session_wake_def fault_def split: prod.splits)

text \<open>\<open>join\<close> and \<open>wait\<close> give back what the main of the task came to.\<close>

lemma join_main_value:
  "map_sum join_error_into_panic id (task_join (main_value r)) = r" "session_wait (main_value r) = r"
  by (cases r; simp add: task_join_def session_wait_def)+

text \<open>
  \<open>send\<close> and \<open>cancel\<close> run alone never reach \<open>unreachable_unchecked\<close>: a refused value is the caller's.
\<close>

lemma run_setter_result:
  assumes "quiescent sh"
  shows "if joint_cell sh = Pending then \<exists>t sh'. run_setter 5 sh (SLoad v) = (sh', SOk t)
    else run_setter 5 sh (SLoad v) = (sh, SErr v)"
  using assms by (auto simp: quiescent_def joint_cell_def split: joiner.split)

lemma joint_wake_defined:
  assumes "quiescent sh"
  shows "if joint_cell sh = Pending then \<exists>t sh'. joint_wake v sh = (Some (Inr t), sh')
    else joint_wake v sh = (Some (Inl v), sh)"
  using run_setter_result [OF assms, of "SValue v"]
  by (auto simp: joint_wake_def simp del: run_setter_numeral split: if_splits)

lemma joint_cancel_defined:
  assumes "quiescent sh"
  shows "if joint_cell sh = Pending then \<exists>t sh'. joint_cancel e sh = (Some (Inr t), sh')
    else joint_cancel e sh = (Some (Inl e), sh)"
  using run_setter_result [OF assms, of "SPanic e"]
  by (auto simp: joint_cancel_def simp del: run_setter_numeral split: if_splits)

text \<open>
  The guarantee of \<open>Session::wait\<close>, with any number of wakers and interruptions at once: if it panics
  no value has been sent, and if it returns exactly one has, the one it returns.
\<close>

lemma wait_guarantee:
  assumes start: "owner_start ow" and reach: "sys_reach ow vals s" and "done": "owner s = JDone v"
  shows "(\<forall>i t x. session_wait v = Inl p \<and> setters s i = SOk t \<longrightarrow> vals i \<noteq> SValue x) \<and>
    (session_wait v = Inr y \<longrightarrow> (\<exists>!i. \<exists>t. setters s i = SOk t) \<and> (\<forall>i t. setters s i = SOk t \<longrightarrow> vals i = SValue y))"
proof -
  have inv: "sys_inv vals s" using sys_reach_inv start reach by blast
  then have one: "one_winner s" and c: "cell_ok vals s" by (simp_all add: sys_inv_def)
  obtain i t where i: "setters s i = SOk t" "v = vals i" using cell_okD(2) [OF c "done"] by blast
  have only: "k = i" if "setters s k = SOk t'" for k t'
    using one_winnerD(1) [OF one, of k i] i(1) that by simp
  have all: "vals k = v" if "setters s k = SOk t'" for k t' using only [OF that] i(2) by simp
  have "\<exists>!k. \<exists>t. setters s k = SOk t" using i(1) only by (intro ex1I [of _ i]) blast+
  moreover have "v = SValue y" if "session_wait v = Inr y" using that by (cases v) (simp_all add: session_wait_def)
  moreover have "v \<noteq> SValue x" if "session_wait v = Inl p" for x using that by (auto simp: session_wait_def)
  ultimately show ?thesis using all by metis
qed

end
