(* ===== verification/Shutdown.thy ===== *)
theory Shutdown
  imports Runtime_Correct
begin

text \<open>
  What the final loop of \<open>Scheduler::serve\<close> does to the tasks that are left when a runtime is dropped.
  It aborts them outside of any task's scope, where the end of a main asks for the running task.
\<close>

section \<open>Outside of a scope\<close>

definition outside :: "'y task \<Rightarrow> bool" where
  "outside t \<longleftrightarrow> \<not> tk_scope t \<and> tk_status t = TaskRunning"

lemma act_step_outside:
  assumes "outside t" "\<not> needs_task a" "act_step co a t = (r, t')"
  shows "outside t' \<and> tk_main t' = tk_main t \<and> r \<noteq> Some False \<and> (r = Some True \<longrightarrow> co \<noteq> tk_main t)"
  using assms
  by (cases a) (auto simp: outside_def task_cancelling_def task_cancelled_def split: if_splits)

text \<open>The main of a task comes to no end there, and to no switch.\<close>

lemma co_turn_outside:
  "co_turn co as t = Some (fin, t') \<Longrightarrow> outside t \<Longrightarrow> outside t' \<and> tk_main t' = tk_main t \<and> co \<noteq> tk_main t"
proof (induction as arbitrary: t)
  case (Cons a as)
  obtain r t1 where st: "act_step co a t = (r, t1)" by (cases "act_step co a t")
  have a: "\<not> needs_task a" using Cons.prems by (auto simp: outside_def split: if_splits)
  note eff = act_step_outside [OF Cons.prems(2) a st]
  show ?case
  proof (cases r)
    case None
    then show ?thesis using Cons.IH [of t1] Cons.prems(1) st eff by (simp split: if_splits)
  next
    case (Some b)
    then show ?thesis using Cons.prems(1) st eff by (cases b) (simp_all split: if_splits)
  qed
qed simp

lemma run_coroutine_outside:
  assumes "run_coroutine co as t = Some (fin, t')" "outside t"
  shows "outside t' \<and> tk_main t' = tk_main t \<and> co \<noteq> tk_main t"
proof -
  obtain t1 where "co_turn co as t = Some (fin, t1)" and t': "t' = (if fin \<and> co = tk_main t1 then t1\<lparr>tk_status := TaskCompleted\<rparr> else t1)"
    using assms(1) by (auto simp: run_coroutine_def split: option.splits)
  then show ?thesis using co_turn_outside [OF _ assms(2)] by fastforce
qed

lemma outside_fields [simp]:
  "outside (t\<lparr>running_cos := x\<rparr>) = outside t" "outside (t\<lparr>unblocking_cos := x\<rparr>) = outside t"
  "outside (t\<lparr>tk_running := b\<rparr>) = outside t"
  by (simp_all add: outside_def)

lemma drain_outside: "drain_running turns t = Some t' \<Longrightarrow> outside t \<Longrightarrow> outside t' \<and> tk_main t' = tk_main t"
proof (induction turns t rule: drain_running.induct)
  case (2 as turns t)
  show ?case
  proof (cases "running_cos t")
    case (Cons co cos)
    then obtain fin t1 where run: "run_coroutine co as (t\<lparr>running_cos := cos\<rparr>) = Some (fin, t1)"
        and d: "drain_running turns t1 = Some t'"
      using 2(2) by (auto split: option.splits)
    then show ?thesis using 2(1) [OF Cons run refl d] run_coroutine_outside [OF run] 2(3) by simp
  qed (use 2 in simp)
qed (simp split: if_splits)

lemma fold_unblock_scope [simp]: "tk_scope (fold unblock_one cos t) = tk_scope t"
  by (induction cos arbitrary: t) (simp_all add: unblock_one_def)

lemma interrupt_outside: "outside (task_interrupt intr t) = outside t" "tk_main (task_interrupt intr t) = tk_main t"
proof -
  have "tk_scope (task_interrupt intr t) = tk_scope t"
    by (simp add: task_interrupt_def task_unblock_def abort_fold Let_def)
  then show "outside (task_interrupt intr t) = outside t" "tk_main (task_interrupt intr t) = tk_main t"
    using moved_interrupt [of t intr] by (simp_all add: outside_def moved_def)
qed

lemma abort_loop_outside: "abort_loop intr rounds t = Some t' \<Longrightarrow> outside t \<Longrightarrow> outside t'"
  by (induction intr rounds t rule: abort_loop.induct)
    (auto simp: Let_def interrupt_outside split: if_splits option.splits dest: drain_outside)

lemma abort_outside: "outside t \<Longrightarrow> task_abort intr rounds final t = None"
  by (auto simp: task_abort_def split: option.splits dest!: abort_loop_outside run_coroutine_outside)

section \<open>The tasks of a runtime\<close>

text \<open>A task that is not given up is running, and has no scope between its schedulings.\<close>

lemma act_step_status:
  assumes "act_step co a t = (r, t')" "tk_status t = TaskRunning"
  shows "case r of None \<Rightarrow> tk_status t' = TaskRunning
    | Some fin \<Rightarrow> tk_status t' \<noteq> TaskCompleted \<and> \<not> (fin \<and> co = tk_main t')"
  using assms(1)
  by (cases rule: act_step_effect) (use assms(2) in \<open>auto simp: moved_def entered_def\<close>)

lemma co_turn_status:
  "co_turn co as t = Some (fin, t') \<Longrightarrow> tk_status t = TaskRunning \<Longrightarrow>
    tk_status t' \<noteq> TaskCompleted \<and> \<not> (fin \<and> co = tk_main t')"
proof (induction as arbitrary: t)
  case (Cons a as)
  obtain r t1 where st: "act_step co a t = (r, t1)" by (cases "act_step co a t")
  then show ?case
    using Cons.IH [of t1] Cons.prems act_step_status [OF st] by (cases r) (auto split: if_splits)
qed simp

lemma run_coroutine_status:
  assumes "run_coroutine co as t = Some (fin, t')" "tk_status t = TaskRunning"
  shows "tk_status t' \<noteq> TaskCompleted"
proof -
  obtain t1 where t1: "co_turn co as t = Some (fin, t1)" and t': "t' = (if fin \<and> co = tk_main t1 then t1\<lparr>tk_status := TaskCompleted\<rparr> else t1)"
    using assms(1) by (auto simp: run_coroutine_def split: option.splits)
  note s1 = co_turn_status [OF t1 assms(2)]
  then have "t' = t1" unfolding t' by (intro if_not_P) blast
  then show ?thesis using s1 by simp
qed

lemma sched_loop_status: "sched_loop turns t = Some t' \<Longrightarrow> tk_status t \<noteq> TaskCompleted \<Longrightarrow> tk_status t' \<noteq> TaskCompleted"
proof (induction turns arbitrary: t)
  case Nil
  then show ?case by (subst (asm) sched_loop.simps) (simp split: if_splits)
next
  case (Cons as turns)
  show ?case
    using Cons.prems(1) [unfolded sched_loop.simps [of "as # turns"]] Cons.prems(2)
    by (auto split: if_splits option.splits dest: run_coroutine_status Cons.IH)
qed

lemma task_sched_status:
  assumes run: "task_sched intr turns woken rounds final t = Some (flow, t')" and st: "tk_status t = TaskRunning"
  shows "\<not> tk_scope t'" and "flow = FlowCease \<or> tk_status t' = TaskRunning"
proof -
  obtain t0 where r: "sched_in_scope intr turns woken rounds final (t\<lparr>tk_scope := True\<rparr>) = Some (flow, t0)"
      and t': "t' = t0\<lparr>tk_scope := False\<rparr>" using run by (auto simp: task_sched_def)
  show "\<not> tk_scope t'" by (simp add: t')
  define t1 where "t1 = snd (task_unblock False (t\<lparr>tk_scope := True, running_cos := running_cos t @ yielding_cos t,
    yielding_cos := []\<rparr>))"
  have s1: "tk_status t1 = TaskRunning"
    using moved_unblock [of "t\<lparr>tk_scope := True, running_cos := running_cos t @ yielding_cos t, yielding_cos := []\<rparr>" False]
    by (simp add: t1_def moved_def st)
  obtain t2 where l: "sched_loop turns t1 = Some t2"
    using r by (auto simp: sched_in_scope_def t1_def Let_def split: option.splits)
  have s2: "tk_status t2 \<noteq> TaskCompleted" using sched_loop_status [OF l] s1 by simp
  show "flow = FlowCease \<or> tk_status t' = TaskRunning"
  proof (cases "tk_status t2 = TaskCompleting")
    case True
    then obtain t3 where a: "task_abort intr rounds final t2 = Some t3"
      and v: "sched_verdict intr woken rounds final (t3\<lparr>tk_yielding := False\<rparr>) = Some (flow, t0)"
      using r l by (auto simp: sched_in_scope_def t1_def Let_def split: option.splits)
    have "queued t3 = []" using task_abort_ok [OF a] True by simp
    then show ?thesis using v by (auto simp: sched_verdict_def queued_def)
  next
    case False
    then have s2: "tk_status (t2\<lparr>tk_yielding := False\<rparr>) = TaskRunning" using s2 by (cases "tk_status t2") auto
    have v: "sched_verdict intr woken rounds final (t2\<lparr>tk_yielding := False\<rparr>) = Some (flow, t0)"
      using r l False by (simp add: sched_in_scope_def t1_def Let_def)
    let ?t = "t2\<lparr>tk_yielding := False, unblocking_cos := unblocking_cos t2 @ woken\<rparr>"
    have "tk_status (snd (task_unblock True ?t)) = TaskRunning"
      using moved_unblock [of ?t True] s2 by (simp add: moved_def)
    then show ?thesis using v s2 by (auto simp: sched_verdict_def t' split: if_splits prod.splits)
  qed
qed

definition ceasing :: "nat \<Rightarrow> sched_thread \<Rightarrow> bool" where
  "ceasing t th \<longleftrightarrow> (\<exists>ph. th = TFlow ph t FlowCease)"

definition scope_inv :: "'y sys \<Rightarrow> bool" where
  "scope_inv s \<longleftrightarrow> token_inv s \<and> (\<forall>t. \<not> tk_scope (tasks s t)) \<and>
    (\<forall>t\<in>set (registry (sst s)). tk_status (tasks s t) = TaskRunning \<or> (\<exists>th\<in>set (threads s). ceasing t th))"

text \<open>A registered task that some thread has is running, unless that thread is about to give it up.\<close>

lemma executes_outside:
  assumes inv: "scope_inv s" and i: "i < length (threads s)" and ex: "executes t (threads s ! i)"
    and not: "\<not> ceasing t (threads s ! i)"
  shows "outside (tasks s t)"
proof -
  have tok: "token_inv s" using inv by (simp add: scope_inv_def)
  have "\<not> ceasing t th" if th: "th \<in> set (threads s)" for th
  proof
    assume c: "ceasing t th"
    then obtain j where j: "j < length (threads s)" "threads s ! j = th" using th by (auto simp: in_set_conv_nth)
    moreover have "executes t th" using c by (auto simp: ceasing_def)
    moreover have "executors t s \<le> 1" using executes_token(3) [OF tok i ex] by simp
    ultimately have "i = j" using filter_at_most_one [of "executes t" "threads s" i j] i ex by (simp add: executors_def)
    then show False using c j not by simp
  qed
  then show ?thesis
    using inv executes_token(1) [OF tok i ex] by (auto simp: scope_inv_def outside_def)
qed

lemma aborted_impossible: "scope_inv s \<Longrightarrow> aborted_step intr rounds final i s = None"
  using executes_outside [of s i] abort_outside
  by (auto simp: aborted_step_def ceasing_def split: sched_thread.splits)

text \<open>Threads and tasks change at one place only.\<close>

lemma scope_inv_move:
  assumes inv: "scope_inv s" and tok: "token_inv s'" and thr: "threads s' = (threads s)[i := th]"
    and old: "\<And>t. \<not> ceasing t (threads s ! i) \<or> t \<notin> set (registry (sst s'))" and i: "i < length (threads s)"
    and reg: "set (registry (sst s')) \<subseteq> set (registry (sst s))"
    and tasks: "\<And>t. \<not> tk_scope (tasks s' t) \<and> (tk_status (tasks s' t) = tk_status (tasks s t) \<or>
      tk_status (tasks s' t) = TaskRunning \<or> ceasing t th)"
  shows "scope_inv s'"
proof -
  have "tk_status (tasks s' t) = TaskRunning \<or> (\<exists>th\<in>set (threads s'). ceasing t th)"
    if mem: "t \<in> set (registry (sst s'))" for t
  proof -
    have "t \<in> set (registry (sst s))" using mem reg by blast
    then have was: "tk_status (tasks s t) = TaskRunning \<or> (\<exists>th\<in>set (threads s). ceasing t th)"
      using inv by (simp add: scope_inv_def)
    have new: "th \<in> set (threads s')" using i by (simp add: thr set_update_memI)
    consider "tk_status (tasks s t) = TaskRunning" | th' where "th' \<in> set (threads s)" "ceasing t th'"
      using was by blast
    then show ?thesis
    proof cases
      case 1
      then show ?thesis using tasks [of t] new by auto
    next
      case 2
      then obtain j where j: "j < length (threads s)" "threads s ! j = th'" by (auto simp: in_set_conv_nth)
      moreover have "j \<noteq> i" using old [of t] mem j 2 by auto
      ultimately have "threads s' ! j = th'" "j < length (threads s')" by (simp_all add: thr)
      then have "th' \<in> set (threads s')" by (metis nth_mem)
      then show ?thesis using 2 by blast
    qed
  qed
  then show ?thesis using tok tasks by (simp add: scope_inv_def)
qed

lemma grab_all_tasks:
  "tk_scope (tasks (grab_all ts s) t) = tk_scope (tasks s t) \<and> tk_status (tasks (grab_all ts s) t) = tk_status (tasks s t)"
  by (induction ts s rule: grab_all.induct) (auto simp: task_grab_def split: bool.splits if_splits)

lemma grab_all_registry: "registry (sst (grab_all ts s)) = registry (sst s)"
  by (induction ts arbitrary: s) (simp_all add: task_grab_def sched_resume_def split: bool.splits)

lemma update_same [simp]: "\<exists>y. xs = xs[i := y]"
  by (metis list_update_id)

lemma scope_inv_step:
  assumes inv: "scope_inv s" and st: "rt_step x s = Some s'"
  shows "scope_inv s'"
proof -
  have tok: "token_inv s'" using rt_step_token [OF _ st] inv by (simp add: scope_inv_def)
  have noscope: "\<not> tk_scope (tasks s t)" for t using inv by (simp add: scope_inv_def)
  note move = scope_inv_move [OF inv tok]
  show ?thesis
  proof (cases x)
    case (RtServe i)
    then have st': "serve_step i s = Some s'" using st by simp
    then have i: "i < length (threads s)" by (simp add: serve_step_def split: if_splits)
    have "\<exists>th. threads s' = (threads s)[i := th]"
      using st' i by (auto simp: serve_step_def run_pop_def Let_def split: sched_thread.splits serve_phase.splits list.splits if_splits)
    moreover have "\<not> ceasing t (threads s ! i)" for t using st' i by (auto simp: serve_step_def ceasing_def)
    moreover have "registry (sst s') = registry (sst s)" "tasks s' = tasks s"
      using st' i by (auto simp: serve_step_def run_pop_def Let_def split: sched_thread.splits serve_phase.splits list.splits if_splits)
    ultimately show ?thesis using move i noscope by auto
  next
    case (RtExec i intr turns woken rounds final)
    then obtain ph t flow k where i: "i < length (threads s)" and at: "threads s ! i = TExec ph t"
        and run: "task_sched intr turns woken rounds final (tasks s t) = Some (flow, k)"
        and s': "s' = set_thread i (TFlow ph t flow) (set_task t k s)"
      using st by (auto simp: exec_step_def split: if_splits sched_thread.splits)
    have "outside (tasks s t)" using executes_outside [OF inv i, of t] at by (simp add: ceasing_def)
    then have "\<not> tk_scope k" "flow = FlowCease \<or> tk_status k = TaskRunning"
      using task_sched_status [OF run] by (simp_all add: outside_def)
    then show ?thesis using i at noscope by (intro move [of i "TFlow ph t flow"]) (auto simp: s' ceasing_def)
  next
    case (RtFlow i)
    then obtain ph t flow where i: "i < length (threads s)" and at: "threads s ! i = TFlow ph t flow"
        and s': "s' = set_thread i (TLoop ph) (on_sst (run_flow t flow) s)"
      using st by (auto simp: flow_step_def split: if_splits sched_thread.splits)
    show ?thesis using i at noscope by (intro move [of i "TLoop ph"]) (cases flow; auto simp: s' ceasing_def)+
  next
    case (RtFinal i)
    then have st': "final_step i s = Some s'" using st by simp
    then have i: "i < length (threads s)" by (simp add: final_step_def split: if_splits)
    have "\<exists>th. threads s' = (threads s)[i := th]"
      using st' i by (auto simp: final_step_def grab_all_fields split: sched_thread.splits list.splits if_splits)
    moreover have "\<not> ceasing t (threads s ! i)" for t using st' i by (auto simp: final_step_def ceasing_def)
    moreover have "registry (sst s') = registry (sst s)"
      using st' i by (auto simp: final_step_def grab_all_registry split: sched_thread.splits list.splits if_splits)
    moreover have "\<not> tk_scope (tasks s' t) \<and> tk_status (tasks s' t) = tk_status (tasks s t)" for t
      using st' i noscope by (auto simp: final_step_def grab_all_tasks split: sched_thread.splits list.splits if_splits)
    ultimately show ?thesis using move i by auto
  next
    case (RtAborted i intr rounds final)
    then show ?thesis using st aborted_impossible [OF inv] by simp
  next
    case (RtWake t co)
    then show ?thesis using st inv tok
      by (auto simp: wake_step_def task_wake_def scope_inv_def split: if_splits)
  next
    case (RtPush t)
    then show ?thesis using st inv tok by (auto simp: push_step_def sched_resume_def scope_inv_def split: if_splits)
  next
    case (RtSpawn t co)
    then show ?thesis using st inv tok
      by (auto simp: spawn_step_def sched_sched_def task_with_main_def scope_inv_def split: if_splits)
  next
    case RtDrop
    then show ?thesis using st inv tok by (auto simp: drop_step_def sched_stop_def scope_inv_def split: if_splits)
  qed
qed

section \<open>Properties\<close>

lemma scope_inv_new: "scope_inv (sys_new n)"
  using token_inv_new by (simp add: scope_inv_def) (simp add: sys_new_def sched_state_new_def task_with_main_def)

lemma aborting_stays:
  assumes inv: "scope_inv s" and st: "rt_step x s = Some s'" and at: "threads s ! i = TAborting t"
  shows "threads s' ! i = TAborting t"
proof -
  have aborted: "aborted_step intr rounds final j s = None" for intr rounds final j
    by (rule aborted_impossible [OF inv])
  show ?thesis
    using st at
    by (cases x) (auto simp: serve_step_def run_pop_def exec_step_def flow_step_def final_step_def aborted grab_all_fields
        wake_step_def push_step_def spawn_step_def drop_step_def Let_def nth_list_update
        split: if_splits sched_thread.splits serve_phase.splits list.splits prod.splits)
qed

text \<open>
  C11. A runtime that is dropped with a task left does not shut down: the thread that aborts the task
  never gets past it, whatever else happens. It runs the task without entering its scope, so the
  main of the task, which asks for the running task at its end, panics there, where no unwinding is
  possible, if it ends at all.
\<close>

theorem dropped_runtime_never_ends:
  assumes run: "rt_run ops (sys_new n) = Some s" and at: "threads s ! i = TAborting t"
    and later: "rt_run ops' s = Some s'"
  shows "threads s' ! i = TAborting t \<and> (\<forall>intr rounds final. aborted_step intr rounds final i s' = None)"
proof -
  have inv: "scope_inv s" using rt_run_invariant [where I = scope_inv, OF scope_inv_step scope_inv_new run] .
  have "scope_inv s' \<and> threads s' ! i = TAborting t"
    using rt_run_invariant [where I = "\<lambda>s. scope_inv s \<and> threads s ! i = TAborting t", OF _ _ later]
      scope_inv_step aborting_stays inv at by blast
  then show ?thesis using aborted_impossible by blast
qed

text \<open>A task that waits for good, and the drop of its runtime: two stops, and the abort of the task.\<close>

lemma dropped_runtime_never_ends_witness:
  "\<exists>s. rt_run [RtSpawn 1 10, RtServe 0, RtExec 0 (\<lambda>y. True) [[ABlock (AsInterruptible ())]] [] [] [], RtFlow 0,
      RtDrop, RtServe 0, RtServe 0, RtDrop, RtServe 0, RtFinal 0, RtFinal 0] (sys_new 1) = Some s \<and>
    aborted_step (\<lambda>y. True) [([], [[AMainReturns]]), ([], [])] [AComplete] 0 s = None"
proof -
  let ?ops = "[RtSpawn 1 10, RtServe 0, RtExec 0 (\<lambda>y. True) [[ABlock (AsInterruptible ())]] [] [] [], RtFlow 0,
      RtDrop, RtServe 0, RtServe 0, RtDrop, RtServe 0, RtFinal 0, RtFinal 0]"
  have "map_option threads (rt_run ?ops (sys_new 1)) = Some [TAborting 1]"
    by (simp add: rt_simps drop_step_def sched_stop_def final_step_def task_grab_def)
  then obtain s where s: "rt_run ?ops (sys_new 1) = Some s" "threads s ! 0 = TAborting 1" by auto
  have "rt_run [] s = Some s" by simp
  from dropped_runtime_never_ends [OF s this] s(1) show ?thesis by blast
qed

end
