(* ===== verification/Coroutine.thy ===== *)
theory Coroutine
  imports Task Stack
begin

text \<open>
  \<open>src/src/coroutine/mod.rs\<close> and \<open>context.rs\<close>: how a thread switches to a coroutine and back. The
  C library is relied on for what its manual says: \<open>makecontext\<close> makes a context that goes on at the
  entry, \<open>swapcontext\<close> saves where it is called and goes on where the other context says, \<open>setcontext\<close>
  does not save. \<open>None\<close> is a panic, or a switch that goes on nowhere, which C does not define.
\<close>

section \<open>Addresses\<close>

text \<open>The entry of a context takes two \<open>u32\<close>: the address of the coroutine in two halves.\<close>

definition entry_args :: "u64 \<Rightarrow> 32 word \<times> 32 word" where
  "entry_args p = (ucast p, ucast (drop_bit 32 p))"

definition entry_pointer :: "32 word \<Rightarrow> 32 word \<Rightarrow> u64" where
  "entry_pointer low high = push_bit 32 (ucast high) OR ucast low"

lemma entry_pointer_args: "entry_pointer (fst (entry_args p)) (snd (entry_args p)) = p"
  by (rule bit_word_eqI) (auto simp: entry_pointer_def entry_args_def bit_simps not_less)

section \<open>Contexts\<close>

text \<open>Where a switch to a context goes on: at the entry, or where a switch on some stack was called.\<close>

datatype place = Nowhere | AtEntry "32 word" "32 word" | AfterSwitch "u64 option"

record machine_context =
  cx_stack :: stack
  uc_stack :: "u64 \<times> u64"
  uc_link :: "place option"
  cx_place :: place

definition context_empty :: machine_context where
  "context_empty = \<lparr>cx_stack = \<lparr>stack_base = 0, stack_size = 0\<rparr>, uc_stack = (0, 0), uc_link = None, cx_place = Nowhere\<rparr>"

record entry =
  en_args :: "32 word \<times> 32 word"
  en_stack :: "stack option"      \<comment> \<open>what \<open>Stack::alloc\<close> makes of the size\<close>

definition context_new :: "int \<Rightarrow> entry \<Rightarrow> place option \<Rightarrow> machine_context option" where
  "context_new rc e returns =
    (if rc \<noteq> 0 then None
     else map_option (\<lambda>st. context_empty\<lparr>cx_stack := st, uc_stack := (stack_base st, stack_size st), uc_link := returns,
         cx_place := AtEntry (fst (en_args e)) (snd (en_args e))\<rparr>)
       (en_stack e))"

section \<open>A thread and its coroutines\<close>

record coroutine =
  co_state :: co_state
  co_context :: machine_context
  co_f :: bool          \<comment> \<open>whether the function is still there\<close>

text \<open>\<open>new\<close> for a coroutine at the address \<open>p\<close>.\<close>

definition coroutine_new :: "int \<Rightarrow> stack option \<Rightarrow> u64 \<Rightarrow> coroutine option" where
  "coroutine_new rc st p =
    map_option (\<lambda>cx. \<lparr>co_state = CoRunning, co_context = cx, co_f = True\<rparr>)
      (context_new rc \<lparr>en_args = entry_args p, en_stack = st\<rparr> None)"

text \<open>
  A thread: its \<open>COROUTINE\<close> and \<open>THREAD_CONTEXT\<close>, the coroutine whose stack it executes on, \<open>None\<close> for
  its own, the call of \<open>resume\<close> it is in, and the coroutines by their addresses. \<open>called\<close> and
  \<open>statuses\<close> record the functions called and what \<open>resume\<close> has returned.
\<close>

record machine =
  co_cell :: "u64 option"
  thread_place :: place
  executes :: "u64 option"
  resuming :: "u64 option"
  coroutines :: "u64 \<rightharpoonup> coroutine"
  called :: "u64 list"
  statuses :: "(u64 \<times> co_state) list"

definition machine_new :: machine where
  "machine_new = \<lparr>co_cell = None, thread_place = cx_place context_empty, executes = None, resuming = None,
    coroutines = Map.empty, called = [], statuses = []\<rparr>"

definition co_update :: "u64 \<Rightarrow> (coroutine \<Rightarrow> coroutine) \<Rightarrow> machine \<Rightarrow> machine" where
  "co_update p f m = m\<lparr>coroutines := (coroutines m)(p := map_option f (coroutines m p))\<rparr>"

definition co_set_place :: "u64 \<Rightarrow> place \<Rightarrow> machine \<Rightarrow> machine" where
  "co_set_place p pl = co_update p (\<lambda>co. co\<lparr>co_context := (co_context co)\<lparr>cx_place := pl\<rparr>\<rparr>)"

definition co_scope_enter :: "u64 \<Rightarrow> machine \<Rightarrow> machine option" where
  "co_scope_enter p m = (case co_cell m of None \<Rightarrow> Some (m\<lparr>co_cell := Some p\<rparr>) | Some q \<Rightarrow> None)"

definition co_scope_drop :: "u64 \<Rightarrow> machine \<Rightarrow> machine option" where
  "co_scope_drop p m = (if co_cell m = Some p then Some (m\<lparr>co_cell := None\<rparr>) else None)"

text \<open>\<open>main\<close> up to the call of the function.\<close>

definition co_main :: "u64 \<Rightarrow> machine \<Rightarrow> machine option" where
  "co_main p m =
    (case coroutines m p of
       None \<Rightarrow> None
     | Some co \<Rightarrow>
       if co_f co then Some (co_update p (\<lambda>co. co\<lparr>co_f := False\<rparr>) (m\<lparr>executes := Some p, called := called m @ [p]\<rparr>))
       else None)"

definition goes_on_at :: "place \<Rightarrow> machine \<Rightarrow> machine option" where
  "goes_on_at pl m =
    (case pl of
       Nowhere \<Rightarrow> None
     | AtEntry low high \<Rightarrow> co_main (entry_pointer low high) m
     | AfterSwitch st \<Rightarrow> Some (m\<lparr>executes := st\<rparr>))"

text \<open>\<open>resume\<close> up to the switch. A place is used up by going on there.\<close>

definition co_resume :: "u64 \<Rightarrow> machine \<Rightarrow> machine option" where
  "co_resume p m =
    (case coroutines m p of
       None \<Rightarrow> None
     | Some co \<Rightarrow>
       Option.bind (co_scope_enter p m) (\<lambda>m1.
         goes_on_at (cx_place (co_context co))
           (co_set_place p Nowhere (m1\<lparr>thread_place := AfterSwitch (executes m1), resuming := Some p\<rparr>))))"

text \<open>The rest of \<open>resume\<close>, once the thread goes on.\<close>

definition co_returns :: "machine \<Rightarrow> machine option" where
  "co_returns m =
    (case resuming m of
       None \<Rightarrow> None
     | Some p \<Rightarrow>
       (case coroutines m p of
          None \<Rightarrow> None
        | Some co \<Rightarrow> map_option (\<lambda>m'. m'\<lparr>resuming := None, statuses := statuses m' @ [(p, co_state co)]\<rparr>) (co_scope_drop p m)))"

definition thread_goes_on :: "machine \<Rightarrow> machine option" where
  "thread_goes_on m =
    Option.bind (goes_on_at (thread_place m) (m\<lparr>thread_place := Nowhere\<rparr>)) co_returns"

definition co_suspend :: "u64 \<Rightarrow> machine \<Rightarrow> machine option" where
  "co_suspend p m =
    (if coroutines m p = None then None
     else thread_goes_on (co_set_place p (AfterSwitch (executes m)) m))"

text \<open>The end of \<open>main\<close>, on the stack it has been called on.\<close>

definition co_main_ends :: "machine \<Rightarrow> machine option" where
  "co_main_ends m =
    (case executes m of
       None \<Rightarrow> None
     | Some p \<Rightarrow> thread_goes_on (co_update p (\<lambda>co. co\<lparr>co_state := CoCompleted\<rparr>) m))"

text \<open>Memory of a stack that is executed on cannot be given back.\<close>

definition co_drop :: "u64 \<Rightarrow> machine \<Rightarrow> machine option" where
  "co_drop p m = (if executes m = Some p then None else Some (m\<lparr>coroutines := (coroutines m)(p := None)\<rparr>))"

datatype co_op =
    CoNew u64 int "stack option"
  | CoResume u64
  | CoSuspend
  | CoMainEnds
  | CoSetStatus u64 co_state
  | CoDrop u64

text \<open>The running coroutine suspends itself, found by \<open>coroutine::current\<close>.\<close>

fun co_step :: "co_op \<Rightarrow> machine \<Rightarrow> machine option" where
  "co_step (CoNew p rc st) m =
    map_option (\<lambda>co. m\<lparr>coroutines := (coroutines m)(p \<mapsto> co)\<rparr>) (coroutine_new rc st p)"
| "co_step (CoResume p) m = co_resume p m"
| "co_step CoSuspend m = (case co_cell m of None \<Rightarrow> None | Some p \<Rightarrow> co_suspend p m)"
| "co_step CoMainEnds m = co_main_ends m"
| "co_step (CoSetStatus p st) m = Some (co_update p (\<lambda>co. co\<lparr>co_state := st\<rparr>) m)"
| "co_step (CoDrop p) m = co_drop p m"

end
