(* ===== verification/Coroutine_Correct.thy ===== *)
theory Coroutine_Correct
  imports Coroutine
begin

text \<open>
  What the switches of \<open>Coroutine\<close> promise: a thread executes one of its coroutines or none, and each
  goes on where it left. The machine with its contexts is refined from a specification that only
  knows phases.
\<close>

section \<open>Specification\<close>

datatype phase = Fresh | Active | Paused | Over

record co_spec =
  active :: "u64 option"
  phases :: "u64 \<rightharpoonup> phase"
  calls :: "u64 list"
  returned :: "(u64 \<times> bool) list"      \<comment> \<open>of each \<open>resume\<close>, whether the coroutine was over\<close>

definition co_spec_new :: co_spec where
  "co_spec_new = \<lparr>active = None, phases = Map.empty, calls = [], returned = []\<rparr>"

definition spec_leave :: "phase \<Rightarrow> co_spec \<Rightarrow> co_spec" where
  "spec_leave ph a =
    (case active a of
       None \<Rightarrow> a
     | Some p \<Rightarrow> a\<lparr>active := None, phases := (phases a)(p \<mapsto> ph), returned := returned a @ [(p, ph = Over)]\<rparr>)"

fun spec_step :: "co_op \<Rightarrow> co_spec \<Rightarrow> co_spec" where
  "spec_step (CoNew p rc st) a = a\<lparr>phases := (phases a)(p \<mapsto> Fresh)\<rparr>"
| "spec_step (CoResume p) a =
    a\<lparr>active := Some p, phases := (phases a)(p \<mapsto> Active), calls := calls a @ (if phases a p = Some Fresh then [p] else [])\<rparr>"
| "spec_step CoSuspend a = spec_leave Paused a"
| "spec_step CoMainEnds a = spec_leave Over a"
| "spec_step (CoSetStatus p st) a = a"
| "spec_step (CoDrop p) a = a\<lparr>phases := (phases a)(p := None)\<rparr>"

text \<open>
  How a task uses its coroutines: the stack was allocated, the thread resumes what is not over and
  drops while it executes none of them, and only \<open>main\<close> completes a coroutine.
\<close>

fun co_allowed :: "co_op \<Rightarrow> co_spec \<Rightarrow> bool" where
  "co_allowed (CoNew p rc st) a \<longleftrightarrow> phases a p = None \<and> rc = 0 \<and> st \<noteq> None"
| "co_allowed (CoResume p) a \<longleftrightarrow> active a = None \<and> (phases a p = Some Fresh \<or> phases a p = Some Paused)"
| "co_allowed CoSuspend a \<longleftrightarrow> active a \<noteq> None"
| "co_allowed CoMainEnds a \<longleftrightarrow> active a \<noteq> None"
| "co_allowed (CoSetStatus p st) a \<longleftrightarrow> st \<noteq> CoCompleted \<and> phases a p \<noteq> None \<and> phases a p \<noteq> Some Over"
| "co_allowed (CoDrop p) a \<longleftrightarrow> active a = None"

fun co_allowed_run :: "co_op list \<Rightarrow> co_spec \<Rightarrow> bool" where
  "co_allowed_run [] a \<longleftrightarrow> True"
| "co_allowed_run (x # xs) a \<longleftrightarrow> co_allowed x a \<and> co_allowed_run xs (spec_step x a)"

section \<open>Refinement\<close>

definition phase_of :: "machine \<Rightarrow> u64 \<Rightarrow> coroutine \<Rightarrow> phase" where
  "phase_of m p co =
    (if co_state co = CoCompleted then Over else if executes m = Some p then Active
     else if co_f co then Fresh else Paused)"

definition co_abs :: "machine \<Rightarrow> co_spec" where
  "co_abs m = \<lparr>active = executes m, phases = (\<lambda>p. map_option (phase_of m p) (coroutines m p)), calls = called m,
    returned = map (\<lambda>(p, st). (p, st = CoCompleted)) (statuses m)\<rparr>"

text \<open>Where a coroutine goes on, and whether its function is still there, by its phase.\<close>

fun place_fits :: "phase \<Rightarrow> u64 \<Rightarrow> coroutine \<Rightarrow> bool" where
  "place_fits Fresh p co \<longleftrightarrow> co_f co \<and> cx_place (co_context co) = AtEntry (fst (entry_args p)) (snd (entry_args p))"
| "place_fits Active p co \<longleftrightarrow> \<not> co_f co"
| "place_fits Paused p co \<longleftrightarrow> \<not> co_f co \<and> cx_place (co_context co) = AfterSwitch (Some p)"
| "place_fits Over p co \<longleftrightarrow> True"

definition co_inv :: "machine \<Rightarrow> bool" where
  "co_inv m \<longleftrightarrow> co_cell m = executes m \<and> resuming m = executes m \<and>
    (\<forall>p co. coroutines m p = Some co \<longrightarrow> place_fits (phase_of m p co) p co) \<and>
    (\<forall>p. executes m = Some p \<longrightarrow> thread_place m = AfterSwitch None \<and>
      (\<exists>co. coroutines m p = Some co \<and> co_state co \<noteq> CoCompleted))"

lemma co_invD:
  assumes "co_inv m"
  shows "co_cell m = executes m" "resuming m = executes m"
    and "coroutines m p = Some co \<Longrightarrow> place_fits (phase_of m p co) p co"
    and "executes m = Some p \<Longrightarrow> thread_place m = AfterSwitch None"
    and "executes m = Some p \<Longrightarrow> \<exists>co. coroutines m p = Some co \<and> co_state co \<noteq> CoCompleted"
  using assms by (simp_all add: co_inv_def)

lemma phase_of_cong [simp]: "phase_of (m\<lparr>coroutines := cs\<rparr>) = phase_of m"
  by (intro ext) (simp add: phase_of_def)

text \<open>An operation on one coroutine that leaves the rest of the thread alone.\<close>

lemma co_inv_update:
  assumes inv: "co_inv m" and ex: "executes m \<noteq> Some p"
    and fits: "\<And>co. new = Some co \<Longrightarrow> place_fits (phase_of m p co) p co"
  shows "co_inv (m\<lparr>coroutines := (coroutines m)(p := new)\<rparr>)"
    and "co_abs (m\<lparr>coroutines := (coroutines m)(p := new)\<rparr>) =
      (co_abs m)\<lparr>phases := (phases (co_abs m))(p := map_option (phase_of m p) new)\<rparr>"
proof -
  have "place_fits (phase_of m q co) q co" if "((coroutines m)(p := new)) q = Some co" for q co
    using that fits co_invD(3) [OF inv] by (cases "q = p") auto
  then show "co_inv (m\<lparr>coroutines := (coroutines m)(p := new)\<rparr>)" using inv ex by (auto simp: co_inv_def)
  show "co_abs (m\<lparr>coroutines := (coroutines m)(p := new)\<rparr>) =
      (co_abs m)\<lparr>phases := (phases (co_abs m))(p := map_option (phase_of m p) new)\<rparr>"
    by (simp add: co_abs_def fun_eq_iff)
qed

text \<open>A step that moves one coroutine to the phase \<open>ph\<close>.\<close>

lemma co_moves:
  assumes inv: "co_inv m" and others: "\<And>q. q \<noteq> p \<Longrightarrow> coroutines m' q = coroutines m q"
    "\<And>q c. q \<noteq> p \<Longrightarrow> phase_of m' q c = phase_of m q c"
    and moved: "coroutines m' p = Some co" "phase_of m' p co = ph" "place_fits ph p co"
  shows "phases (co_abs m') = (phases (co_abs m))(p \<mapsto> ph)"
    and "coroutines m' q = Some c \<Longrightarrow> place_fits (phase_of m' q c) q c"
proof -
  have "map_option (phase_of m' q) (coroutines m' q) = ((\<lambda>q. map_option (phase_of m q) (coroutines m q))(p \<mapsto> ph)) q" for q
  proof (cases "q = p")
    case True
    then show ?thesis using moved by simp
  next
    case False
    then show ?thesis using others by (cases "coroutines m q") simp_all
  qed
  then show "phases (co_abs m') = (phases (co_abs m))(p \<mapsto> ph)" by (simp add: co_abs_def fun_eq_iff)
  show "place_fits (phase_of m' q c) q c" if "coroutines m' q = Some c"
    using that moved others co_invD(3) [OF inv] by (cases "q = p") simp_all
qed

lemmas machine_defs = co_update_def co_set_place_def co_scope_enter_def co_scope_drop_def goes_on_at_def co_main_def

lemma co_resume_ok:
  assumes inv: "co_inv m" and al: "co_allowed (CoResume p) (co_abs m)"
  shows "\<exists>m'. co_resume p m = Some m' \<and> co_inv m' \<and> co_abs m' = spec_step (CoResume p) (co_abs m)"
proof -
  have none: "executes m = None" "co_cell m = None" using al co_invD(1) [OF inv] by (simp_all add: co_abs_def)
  obtain co where co: "coroutines m p = Some co" "co_state co \<noteq> CoCompleted"
    using al by (auto simp: co_abs_def phase_of_def split: if_splits)
  have fits: "place_fits (if co_f co then Fresh else Paused) p co"
    using co_invD(3) [OF inv co(1)] co(2) none by (simp add: phase_of_def)
  define m' where "m' = m\<lparr>co_cell := Some p, thread_place := AfterSwitch None, resuming := Some p, executes := Some p,
    called := called m @ (if co_f co then [p] else []),
    coroutines := (coroutines m)(p \<mapsto> co\<lparr>co_context := (co_context co)\<lparr>cx_place := Nowhere\<rparr>, co_f := False\<rparr>)\<rparr>"
  have "co_resume p m = Some m'"
  proof (cases "co_f co")
    case True
    then show ?thesis using fits co none entry_pointer_args [of p] by (simp add: co_resume_def machine_defs m'_def)
  next
    case False
    then show ?thesis using fits co none
      by (simp add: co_resume_def machine_defs m'_def) (cases m, cases co, simp)
  qed
  note mv = co_moves [OF inv, of p m' "co\<lparr>co_context := (co_context co)\<lparr>cx_place := Nowhere\<rparr>, co_f := False\<rparr>" Active]
  have "phase_of m' q c = phase_of m q c" if "q \<noteq> p" for q c using that none by (simp add: phase_of_def m'_def)
  moreover have "phase_of m' p (co\<lparr>co_context := (co_context co)\<lparr>cx_place := Nowhere\<rparr>, co_f := False\<rparr>) = Active"
    using co(2) by (simp add: phase_of_def m'_def)
  ultimately have mv: "phases (co_abs m') = (phases (co_abs m))(p \<mapsto> Active)"
    "\<And>q c. coroutines m' q = Some c \<Longrightarrow> place_fits (phase_of m' q c) q c"
    using mv by (simp_all add: m'_def)
  have "co_inv m'" using mv(2) co(2) by (simp add: co_inv_def) (simp add: m'_def)
  moreover have "co_abs m' = spec_step (CoResume p) (co_abs m)"
    using mv(1) co none by (simp add: co_abs_def phase_of_def) (simp add: m'_def)
  ultimately show ?thesis using \<open>co_resume p m = Some m'\<close> by blast
qed

lemma thread_goes_on_ok:
  assumes ex: "executes m = Some p" and co: "coroutines m p = Some co" and inv: "co_inv m"
  shows "thread_goes_on (co_update p f m) = Some (co_update p f m\<lparr>thread_place := Nowhere, executes := None, co_cell := None,
      resuming := None, statuses := statuses m @ [(p, co_state (f co))]\<rparr>)"
  using co_invD(1,2) [OF inv] co_invD(4) [OF inv ex] ex co
  by (simp add: thread_goes_on_def co_returns_def machine_defs)

lemma co_leave_ok:
  assumes inv: "co_inv m" and ex: "executes m = Some p"
    and f: "\<And>co. \<not> co_f co \<Longrightarrow> co_state co \<noteq> CoCompleted \<Longrightarrow> place_fits ph p (f co) \<and> (co_state (f co) = CoCompleted \<longleftrightarrow> ph = Over) \<and>
      co_f (f co) = co_f co"
    and ph: "ph = Paused \<or> ph = Over"
  shows "\<exists>m'. thread_goes_on (co_update p f m) = Some m' \<and> co_inv m' \<and> co_abs m' = spec_leave ph (co_abs m)"
proof -
  obtain co where co: "coroutines m p = Some co" "co_state co \<noteq> CoCompleted" using co_invD(5) [OF inv ex] by blast
  have nf: "\<not> co_f co" using co_invD(3) [OF inv co(1)] co(2) ex by (simp add: phase_of_def)
  note f' = f [OF nf co(2)]
  let ?m = "co_update p f m\<lparr>thread_place := Nowhere, executes := None, co_cell := None,
      resuming := None, statuses := statuses m @ [(p, co_state (f co))]\<rparr>"
  have same: "phase_of ?m q c = phase_of m q c" if "q \<noteq> p" for q c
    using that ex by (simp add: phase_of_def)
  have here: "phase_of ?m p (f co) = ph" using f' ph nf by (auto simp: phase_of_def)
  note mv = co_moves [OF inv, of p ?m "f co" ph, OF _ same _ here conjunct1 [OF f']]
  have "place_fits (phase_of ?m q c) q c" if "coroutines ?m q = Some c" for q c
    by (rule mv(2) [OF _ _ _ that]) (simp_all add: co_update_def co(1))
  then have "co_inv ?m" by (simp add: co_inv_def co_update_def)
  moreover have "phases (co_abs ?m) = (phases (co_abs m))(p \<mapsto> ph)"
    by (rule mv(1)) (simp_all add: co_update_def co(1))
  then have "co_abs ?m = spec_leave ph (co_abs m)"
    using f' ex by (simp add: co_abs_def spec_leave_def) (simp add: co_update_def)
  ultimately show ?thesis using thread_goes_on_ok [OF ex co(1) inv, of f] by blast
qed

lemma co_step_ok:
  assumes inv: "co_inv m" and al: "co_allowed x (co_abs m)"
  shows "\<exists>m'. co_step x m = Some m' \<and> co_inv m' \<and> co_abs m' = spec_step x (co_abs m)"
proof (cases x)
  case (CoNew p rc st)
  then obtain s where st: "st = Some s" "rc = 0" "coroutines m p = None" using al by (auto simp: co_abs_def)
  have ex: "executes m \<noteq> Some p" using co_invD(5) [OF inv, of p] st(3) by auto
  obtain co where co: "coroutine_new rc st p = Some co" "phase_of m p co = Fresh" "place_fits Fresh p co"
    using st ex by (simp add: coroutine_new_def context_new_def phase_of_def)
  show ?thesis using co_inv_update [OF inv ex, of "Some co"] co CoNew by simp
next
  case (CoResume p)
  then show ?thesis using co_resume_ok [OF inv] al by simp
next
  case CoSuspend
  then obtain p where p: "executes m = Some p" using al by (auto simp: co_abs_def)
  let ?f = "\<lambda>co. co\<lparr>co_context := (co_context co)\<lparr>cx_place := AfterSwitch (Some p)\<rparr>\<rparr>"
  obtain m' where "thread_goes_on (co_update p ?f m) = Some m'" "co_inv m'" "co_abs m' = spec_leave Paused (co_abs m)"
    using co_leave_ok [OF inv p, of Paused ?f] by auto
  then show ?thesis using CoSuspend p co_invD(1) [OF inv] co_invD(5) [OF inv p]
    by (auto simp: co_suspend_def co_set_place_def)
next
  case CoMainEnds
  then obtain p where p: "executes m = Some p" using al by (auto simp: co_abs_def)
  let ?f = "\<lambda>co. co\<lparr>co_state := CoCompleted\<rparr>"
  obtain m' where "thread_goes_on (co_update p ?f m) = Some m'" "co_inv m'" "co_abs m' = spec_leave Over (co_abs m)"
    using co_leave_ok [OF inv p, of Over ?f] by auto
  then show ?thesis using CoMainEnds p by (simp add: co_main_ends_def)
next
  case (CoSetStatus p st)
  then obtain co where co: "coroutines m p = Some co" "co_state co \<noteq> CoCompleted" "st \<noteq> CoCompleted"
    using al by (auto simp: co_abs_def phase_of_def split: if_splits)
  let ?m = "co_update p (\<lambda>co. co\<lparr>co_state := st\<rparr>) m"
  have same: "phase_of ?m q c = phase_of m q c" "phase_of m p (co\<lparr>co_state := st\<rparr>) = phase_of m p co" for q c
    using co(2,3) by (simp_all add: phase_of_def co_update_def)
  have "place_fits (phase_of m p co) p (co\<lparr>co_state := st\<rparr>)"
    using co_invD(3) [OF inv co(1)] by (cases "phase_of m p co") simp_all
  then have "place_fits (phase_of ?m q c) q c" if "coroutines ?m q = Some c" for q c
    using that co(1) same co_invD(3) [OF inv, of q] by (cases "q = p") (auto simp: co_update_def)
  then have "co_inv ?m" using inv co(1,3) by (auto simp: co_inv_def co_update_def)
  moreover have "map_option (phase_of ?m q) (coroutines ?m q) = map_option (phase_of m q) (coroutines m q)" for q
    using same co(1) by (cases "q = p"; cases "coroutines m q") (simp_all add: co_update_def)
  then have "co_abs ?m = co_abs m" unfolding co_abs_def by (simp add: co_update_def)
  ultimately show ?thesis using CoSetStatus by simp
next
  case (CoDrop p)
  then have "executes m \<noteq> Some p" using al by (simp add: co_abs_def)
  then show ?thesis using CoDrop co_inv_update [OF inv, of p None] by (simp add: co_drop_def)
qed

lemma co_run_ok:
  "co_inv m \<Longrightarrow> co_allowed_run xs (co_abs m) \<Longrightarrow>
    \<exists>m'. run_steps co_step xs m = Some m' \<and> co_inv m' \<and> co_abs m' = fold spec_step xs (co_abs m)"
proof (induction xs arbitrary: m)
  case (Cons x xs)
  obtain m1 where "co_step x m = Some m1" "co_inv m1" "co_abs m1 = spec_step x (co_abs m)"
    using co_step_ok [OF Cons.prems(1)] Cons.prems(2) by auto
  then show ?case using Cons.IH [of m1] Cons.prems(2) by simp
qed simp

lemma co_inv_new: "co_inv machine_new" and co_abs_new: "co_abs machine_new = co_spec_new"
  by (simp_all add: co_inv_def machine_new_def co_abs_def co_spec_new_def)

section \<open>Property\<close>

text \<open>
  C36. However a thread makes, resumes, suspends, aborts and drops coroutines, no switch goes
  nowhere and no assertion of \<open>coroutine/mod.rs\<close> fails; what executes is what \<open>coroutine::current\<close>
  says; and the thread and its contexts implement the specification: a coroutine that is resumed
  calls its function the first time, goes on where it suspended every other time, and \<open>resume\<close>
  returns \<open>Completed\<close> exactly when the function has come to its end.
\<close>

theorem coroutines_refine:
  assumes "co_allowed_run xs co_spec_new"
  shows "\<exists>m. run_steps co_step xs machine_new = Some m \<and> co_abs m = fold spec_step xs co_spec_new \<and> co_cell m = executes m"
  using co_run_ok [OF co_inv_new, of xs] assms co_invD(1) by (auto simp: co_abs_new)

text \<open>A coroutine above the 4 GiB border is resumed, suspends, makes another, and ends.\<close>

lemma coroutines_refine_witness:
  "\<exists>m. run_steps co_step [CoNew 0x700000010 0 (Some \<lparr>stack_base = 4096, stack_size = 8192\<rparr>), CoResume 0x700000010, CoSuspend,
      CoResume 0x700000010, CoNew 0x20 0 (Some \<lparr>stack_base = 65536, stack_size = 8192\<rparr>), CoMainEnds, CoDrop 0x700000010,
      CoResume 0x20] machine_new = Some m \<and>
    executes m = Some 0x20 \<and> called m = [0x700000010, 0x20] \<and>
    map (\<lambda>(p, st). (p, st = CoCompleted)) (statuses m) = [(0x700000010, False), (0x700000010, True)]"
proof -
  let ?xs = "[CoNew 0x700000010 0 (Some \<lparr>stack_base = 4096, stack_size = 8192\<rparr>), CoResume 0x700000010, CoSuspend,
      CoResume 0x700000010, CoNew 0x20 0 (Some \<lparr>stack_base = 65536, stack_size = 8192\<rparr>), CoMainEnds, CoDrop 0x700000010,
      CoResume 0x20]"
  have al: "co_allowed_run ?xs co_spec_new" by (simp add: co_spec_new_def spec_leave_def)
  obtain m where m: "run_steps co_step ?xs machine_new = Some m" "co_abs m = fold spec_step ?xs co_spec_new"
    using coroutines_refine [OF al] by blast
  have "active (co_abs m) = Some 0x20" "calls (co_abs m) = [0x700000010, 0x20]"
      "returned (co_abs m) = [(0x700000010, False), (0x700000010, True)]"
    by (simp_all add: m(2) co_spec_new_def spec_leave_def)
  then show ?thesis using m(1) by (intro exI [of _ m]) (simp add: co_abs_def)
qed

end
