(* ===== verification/Io_Serve.thy ===== *)
theory Io_Serve
  imports Io_Poller
begin

text \<open>
  The threads of \<open>src/src/io/poller\<close>: the loop of the thread that drives the ring (\<open>linux.rs\<close>), the
  loop of the threads of the pool (\<open>pool.rs\<close>), the stop of both, and the way of a request to them
  (\<open>mod.rs\<close>). A turn of a \<open>select!\<close> takes one candidate that is ready; the result \<open>None\<close> says that a
  turn cannot be taken: its candidate is disabled or not ready, or the call blocks or panics.
\<close>

section \<open>Requests\<close>

text \<open>\<open>REQUESTER\<close> of a thread, set and cleared by a \<open>Scope\<close>.\<close>

definition io_scope_enter :: "'r \<Rightarrow> 'r option \<Rightarrow> 'r option option" where
  "io_scope_enter r cell = (case cell of None \<Rightarrow> Some (Some r) | Some _ \<Rightarrow> None)"

definition io_scope_drop :: "'r option \<Rightarrow> 'r option option" where
  "io_scope_drop cell = (case cell of None \<Rightarrow> None | Some _ \<Rightarrow> Some None)"

definition io_requester :: "'r option \<Rightarrow> 'r option" where
  "io_requester cell = cell"

text \<open>
  \<open>request\<close>: what it sends, where to, and what it sends there if it is interrupted before its session
  \<open>w\<close> has been woken. It returns what the session is woken with.
\<close>

definition io_request_parts :: "nat \<Rightarrow> io_operation \<Rightarrow> io_request \<times> route \<times> io_operation option" where
  "io_request_parts w op =
    (\<lparr>rq_waker = w, rq_operation = op\<rparr>, linux_route op, linux_cancel (op_code_of op) w)"

text \<open>Both channels of requests are bounded.\<close>

definition request_bound :: nat where
  "request_bound = 4096"

section \<open>The thread of the ring\<close>

text \<open>
  Next to the ring: whether the channel of requests is closed and its receiver is drained, the
  stopper has closed its channel and the thread has seen that, and a notice of the eventfd is there.
\<close>

record ring_loop =
  ring :: io_sys
  chan_closed :: bool
  req_drained :: bool
  closing_drained :: bool
  stopping :: bool
  notified :: bool

definition ring_loop_new :: ring_loop where
  "ring_loop_new = \<lparr>ring = io_sys_new, chan_closed = False, req_drained = False, closing_drained = False,
    stopping = False, notified = False\<rparr>"

definition ring_ended :: "ring_loop \<Rightarrow> bool" where
  "ring_ended l \<longleftrightarrow> serve_ends (req_drained l) (ring l)"

text \<open>Whether \<open>submit\<close>, with room left, tries to receive from a channel that has nothing more.\<close>

definition submit_exhausts :: "nat \<Rightarrow> io_sys \<Rightarrow> bool" where
  "submit_exhausts capacity s =
    (case rq_chan s of
       [] \<Rightarrow> False
     | r # rs \<Rightarrow>
       (case uring_push r (uring s) of
          None \<Rightarrow> False
        | Some (u, ws) \<Rightarrow>
          (case submit_loop capacity rs u of
             None \<Rightarrow> False
           | Some (rs', u', ws') \<Rightarrow> length (entries u') < capacity)))"

text \<open>
  \<open>kept\<close>: the read of the eventfd in \<open>consume\<close> may come before the notice has been sent, which is not
  sent then.
\<close>

definition serves_request :: "nat \<Rightarrow> (nat \<times> int) list \<Rightarrow> bool \<Rightarrow> ring_loop \<Rightarrow> ring_loop option" where
  "serves_request capacity inline kept l =
    (if req_drained l then None
     else if rq_chan (ring l) = [] then
       (if chan_closed l then Some (l\<lparr>req_drained := True\<rparr>) else None)
     else map_option (\<lambda>s. l\<lparr>ring := s, req_drained := chan_closed l \<and> submit_exhausts capacity (ring l),
         notified := notified l \<and> kept\<rparr>)
       (io_submit capacity inline (ring l)))"

definition serves_closing :: "ring_loop \<Rightarrow> ring_loop option" where
  "serves_closing l =
    (if closing_drained l \<or> \<not> stopping l then None
     else Some (l\<lparr>closing_drained := True, chan_closed := True\<rparr>))"

definition serves_readable :: "ring_loop \<Rightarrow> ring_loop option" where
  "serves_readable l =
    (if notified l then map_option (\<lambda>s. l\<lparr>ring := s, notified := False\<rparr>) (io_consume (ring l)) else None)"

datatype ring_turn =
    ClientSends io_request
  | KernelCompletes nat int
  | StopperCloses
  | ServesRequest "(nat \<times> int) list" bool
  | ServesClosing
  | ServesReadable

text \<open>A send blocks while the channel is full and panics once it is closed.\<close>

fun ring_step :: "nat \<Rightarrow> ring_turn \<Rightarrow> ring_loop \<Rightarrow> ring_loop option" where
  "ring_step capacity (ClientSends r) l =
    (if chan_closed l \<or> request_bound \<le> length (rq_chan (ring l)) then None
     else map_option (\<lambda>s. l\<lparr>ring := s\<rparr>) (io_step capacity (IoSend r) (ring l)))"
| "ring_step capacity (KernelCompletes ud res) l =
    (if entry_position ud (inflight (ring l)) = None then None
     else Some (l\<lparr>ring := complete_all [(ud, res)] (ring l), notified := True\<rparr>))"
| "ring_step capacity StopperCloses l = (if stopping l then None else Some (l\<lparr>stopping := True\<rparr>))"
| "ring_step capacity (ServesRequest inline kept) l =
    (if ring_ended l then None else serves_request capacity inline kept l)"
| "ring_step capacity ServesClosing l = (if ring_ended l then None else serves_closing l)"
| "ring_step capacity ServesReadable l = (if ring_ended l then None else serves_readable l)"

section \<open>The threads of the pool\<close>

text \<open>A thread at its \<open>select!\<close>, or with a request; the flag tells that it has seen the stop.\<close>

datatype worker = Selecting bool | Processing bool io_request | Finished

record pool_sys =
  pool_chan :: "io_request list"
  pool_closed :: bool
  pool_stopping :: bool
  workers :: "worker list"
  answered :: wakes
  pool_sent :: "nat list"

definition pool_new :: "nat \<Rightarrow> pool_sys" where
  "pool_new parallelism = \<lparr>pool_chan = [], pool_closed = False, pool_stopping = False,
    workers = replicate parallelism (Selecting False), answered = [], pool_sent = []\<rparr>"

text \<open>\<open>Stopper::stop\<close> closes its channel, and joins the threads.\<close>

definition stopper_stop :: "pool_sys \<Rightarrow> pool_sys" where
  "stopper_stop p = p\<lparr>pool_stopping := True\<rparr>"

definition set_worker :: "nat \<Rightarrow> worker \<Rightarrow> pool_sys \<Rightarrow> pool_sys" where
  "set_worker i w p = p\<lparr>workers := (workers p)[i := w]\<rparr>"

definition worker_takes :: "nat \<Rightarrow> pool_sys \<Rightarrow> pool_sys option" where
  "worker_takes i p =
    (if i < length (workers p) then
       (case workers p ! i of
          Selecting seen \<Rightarrow>
            (case pool_chan p of
               [] \<Rightarrow> if pool_closed p then Some (set_worker i Finished p) else None
             | r # rs \<Rightarrow> Some (set_worker i (Processing seen r) (p\<lparr>pool_chan := rs\<rparr>)))
        | _ \<Rightarrow> None)
     else None)"

definition worker_closes :: "nat \<Rightarrow> pool_sys \<Rightarrow> pool_sys option" where
  "worker_closes i p =
    (if i < length (workers p) \<and> workers p ! i = Selecting False \<and> pool_stopping p
     then Some (set_worker i (Selecting True) (p\<lparr>pool_closed := True\<rparr>)) else None)"

text \<open>\<open>rc\<close> and \<open>errno\<close> are what the system answers; an \<open>unreachable!\<close> is \<open>None\<close>.\<close>

definition worker_answers :: "bool \<Rightarrow> nat \<Rightarrow> int \<Rightarrow> int \<Rightarrow> pool_sys \<Rightarrow> pool_sys option" where
  "worker_answers linux i rc errno p =
    (if i < length (workers p) then
       (case workers p ! i of
          Processing seen r \<Rightarrow>
            map_option (\<lambda>call. set_worker i (Selecting seen)
                (p\<lparr>answered := answered p @ [(rq_waker r, pool_result rc errno)]\<rparr>))
              (pool_process linux (rq_operation r))
        | _ \<Rightarrow> None)
     else None)"

datatype pool_turn =
    PoolSends io_request
  | PoolStops
  | WorkerTakes nat
  | WorkerCloses nat
  | WorkerAnswers nat int int

fun pool_step :: "bool \<Rightarrow> pool_turn \<Rightarrow> pool_sys \<Rightarrow> pool_sys option" where
  "pool_step linux (PoolSends r) p =
    (if pool_closed p \<or> request_bound \<le> length (pool_chan p) then None
     else Some (p\<lparr>pool_chan := pool_chan p @ [r], pool_sent := pool_sent p @ [rq_waker r]\<rparr>))"
| "pool_step linux PoolStops p = (if pool_stopping p then None else Some (stopper_stop p))"
| "pool_step linux (WorkerTakes i) p = worker_takes i p"
| "pool_step linux (WorkerCloses i) p = worker_closes i p"
| "pool_step linux (WorkerAnswers i rc errno) p = worker_answers linux i rc errno p"

definition pool_ended :: "pool_sys \<Rightarrow> bool" where
  "pool_ended p \<longleftrightarrow> (\<forall>w\<in>set (workers p). w = Finished)"

end
