(* ===== verification/Stopping.thy ===== *)
theory Stopping
  imports Prelude
begin

text \<open>
  Systems that come to an end by themselves: their own steps lower a measure, and short of the end one
  can be taken. The threads of the io poller and the scheduler are such systems, once stopped.
\<close>

locale stopping_loop =
  fixes step :: "'x \<Rightarrow> 's \<Rightarrow> 's option" and own :: "'x \<Rightarrow> bool" and inv :: "'s \<Rightarrow> bool"
    and ended :: "'s \<Rightarrow> bool" and work :: "'s \<Rightarrow> nat"
  assumes keeps: "inv s \<Longrightarrow> own x \<Longrightarrow> step x s = Some s' \<Longrightarrow> inv s'"
    and works: "inv s \<Longrightarrow> own x \<Longrightarrow> step x s = Some s' \<Longrightarrow> work s' < work s"
    and goes_on: "inv s \<Longrightarrow> \<not> ended s \<Longrightarrow> \<exists>x. own x \<and> step x s \<noteq> None"
begin

lemma run_inv: "run_steps step xs s = Some s' \<Longrightarrow> list_all own xs \<Longrightarrow> inv s \<Longrightarrow> inv s'"
  by (induction xs arbitrary: s) (auto split: option.splits intro: keeps)

lemma run_bounded: "run_steps step xs s = Some s' \<Longrightarrow> list_all own xs \<Longrightarrow> inv s \<Longrightarrow> length xs + work s' \<le> work s"
proof (induction xs arbitrary: s)
  case (Cons x xs)
  obtain s1 where s1: "step x s = Some s1" "run_steps step xs s1 = Some s'"
    using Cons.prems(1) by (auto split: option.splits)
  have "inv s1" "work s1 < work s" using keeps works s1(1) Cons.prems(2,3) by auto
  then show ?case using Cons.IH [OF s1(2)] Cons.prems(2) by simp
qed simp

lemma run_ends: "inv s \<Longrightarrow> \<exists>xs s'. list_all own xs \<and> run_steps step xs s = Some s' \<and> ended s'"
proof (induction "work s" arbitrary: s rule: less_induct)
  case less
  show ?case
  proof (cases "ended s")
    case True
    then show ?thesis by (intro exI [of _ "[]"]) simp
  next
    case False
    then obtain x s1 where x: "own x" "step x s = Some s1" using goes_on [OF less.prems] by auto
    then obtain xs s' where "list_all own xs" "run_steps step xs s1 = Some s'" "ended s'"
      using less.hyps [OF works [OF less.prems x] keeps [OF less.prems x]] by blast
    then show ?thesis using x by (intro exI [of _ "x # xs"]) simp
  qed
qed

end

end
