(* ===== verification/Io_Serve_Correct.thy ===== *)
theory Io_Serve_Correct
  imports Io_Serve Io_Correct Stopping
begin

text \<open>
  Once stopped, the threads of the io poller end: after a bounded number of turns, and with every
  request answered. The argument is the same for the ring and the pool, two interpretations of the
  locale of \<open>Stopping\<close>.
\<close>

section \<open>The ring\<close>

fun ring_own :: "ring_turn \<Rightarrow> bool" where
  "ring_own (ClientSends r) = False"
| "ring_own StopperCloses = False"
| "ring_own _ = True"

text \<open>What a client sends goes to the ring and carries a waker nobody else waits on.\<close>

fun ring_allowed :: "ring_turn \<Rightarrow> ring_loop \<Rightarrow> bool" where
  "ring_allowed (ClientSends r) l = io_allowed (IoSend r) (ring l)"
| "ring_allowed _ l = True"

fun ring_allowed_run :: "nat \<Rightarrow> ring_turn list \<Rightarrow> ring_loop \<Rightarrow> bool" where
  "ring_allowed_run capacity [] l \<longleftrightarrow> True"
| "ring_allowed_run capacity (x # xs) l \<longleftrightarrow> ring_allowed x l \<and>
    (case ring_step capacity x l of None \<Rightarrow> True | Some l' \<Rightarrow> ring_allowed_run capacity xs l')"

definition ring_loop_inv :: "ring_loop \<Rightarrow> bool" where
  "ring_loop_inv l \<longleftrightarrow> io_inv (ring l) \<and> (req_drained l \<longrightarrow> chan_closed l \<and> rq_chan (ring l) = []) \<and>
    (closing_drained l \<longrightarrow> chan_closed l) \<and> (completions (ring l) \<noteq> [] \<longrightarrow> notified l)"

definition ring_work :: "ring_loop \<Rightarrow> nat" where
  "ring_work l = 3 * length (rq_chan (ring l)) + 2 * length (inflight (ring l)) + of_bool (notified l) +
    of_bool (\<not> req_drained l) + of_bool (\<not> closing_drained l)"

lemma push_length: "uring_push r u = Some (u', ws) \<Longrightarrow> length (entries u') \<le> Suc (length (entries u))"
  by (auto simp: uring_push_def uring_enqueue_def swap_remove_def split: io_operation.splits option.splits)

lemma submit_loop_length:
  "submit_loop room rs u = Some (rs', u', ws) \<Longrightarrow>
    length rs' + length (entries u') \<le> length rs + length (entries u) \<and> length rs' \<le> length rs"
proof (induction rs arbitrary: u rs' u' ws)
  case (Cons r rs)
  show ?case
  proof (cases "length (entries u) < room")
    case True
    then obtain u1 ws1 ws2 where s: "uring_push r u = Some (u1, ws1)" "submit_loop room rs u1 = Some (rs', u', ws2)"
      using Cons.prems by (auto split: option.splits)
    show ?thesis using Cons.IH [OF s(2)] push_length [OF s(1)] by simp
  qed (use Cons.prems in simp)
qed simp

lemma submit_loop_room:
  "submit_loop room rs u = Some (rs', u', ws) \<Longrightarrow> length (entries u') < room \<Longrightarrow> rs' = []"
  by (induction rs arbitrary: u rs' u' ws) (auto split: if_splits option.splits)

lemma complete_all_length: "length (inflight (complete_all cs s)) \<le> length (inflight s)"
proof (induction cs s rule: complete_all.induct)
  case (2 ud res cs s)
  then show ?case by (auto simp: remove_at_def split: option.splits intro: le_trans)
qed simp

lemma io_consume_fields:
  "io_consume s = Some s' \<Longrightarrow> completions s' = [] \<and> rq_chan s' = rq_chan s \<and> inflight s' = inflight s \<and> sent s' = sent s"
  by (auto simp: io_consume_def)

lemma io_submit_fields:
  assumes "io_submit capacity inline s = Some s'" "rq_chan s \<noteq> []" "entries (uring s) = []"
  shows "completions s' = []" "3 * length (rq_chan s') + 2 * length (inflight s') < 3 * length (rq_chan s) + 2 * length (inflight s)"
    "submit_exhausts capacity s \<Longrightarrow> rq_chan s' = []"
proof -
  obtain r rs where c: "rq_chan s = r # rs" using assms(2) by (cases "rq_chan s") auto
  obtain u1 ws1 rs' u2 ws2 where u: "uring_push r (uring s) = Some (u1, ws1)"
      "submit_loop capacity rs u1 = Some (rs', u2, ws2)"
    and s': "io_consume (complete_all inline (s\<lparr>uring := u2\<lparr>entries := []\<rparr>, rq_chan := rs',
        inflight := inflight s @ entries u2, woken := woken s @ ws1 @ ws2\<rparr>)) = Some s'" (is "io_consume (complete_all inline ?s) = _")
    using assms(1) by (auto simp: io_submit_def c split: option.splits if_splits)
  note f = io_consume_fields [OF s'] complete_all_fields [of inline ?s]
  have "length (inflight s') \<le> length (inflight s) + length (entries u2)"
    using f complete_all_length [of inline ?s] by simp
  then show "3 * length (rq_chan s') + 2 * length (inflight s') < 3 * length (rq_chan s) + 2 * length (inflight s)"
    using f submit_loop_length [OF u(2)] push_length [OF u(1)] assms(3) by (simp add: c)
  show "completions s' = []" using f by simp
  show "rq_chan s' = []" if "submit_exhausts capacity s"
    using that f submit_loop_room [OF u(2)] by (simp add: submit_exhausts_def c u)
qed

text \<open>No turn panics: what is ready can be taken, and keeps the invariant.\<close>

lemma ring_request_ok:
  assumes inv: "ring_loop_inv l" and cap: "0 < capacity" and s: "serves_request capacity inline kept l = Some l'"
  shows "ring_loop_inv l' \<and> ring_work l' < ring_work l \<and> stopping l' = stopping l"
proof (cases "rq_chan (ring l) = []")
  case True
  then show ?thesis using s inv by (auto simp: serves_request_def ring_loop_inv_def ring_work_def split: if_splits)
next
  case False
  have io: "io_inv (ring l)" "entries (uring (ring l)) = []" using inv by (simp_all add: ring_loop_inv_def io_inv_def)
  obtain s' where s': "io_submit capacity inline (ring l) = Some s'" "io_inv s'"
    using io_submit_ok [OF io(1) cap] by blast
  have l': "l' = l\<lparr>ring := s', req_drained := chan_closed l \<and> submit_exhausts capacity (ring l), notified := notified l \<and> kept\<rparr>"
    using s s'(1) False by (simp add: serves_request_def split: if_splits)
  note f = io_submit_fields [OF s'(1) False io(2)]
  have "\<not> req_drained l" using s by (auto simp: serves_request_def)
  then have "ring_work l' < ring_work l" using f(2) by (auto simp: ring_work_def l' of_bool_def)
  moreover have "ring_loop_inv l'" using f(1,3) s'(2) inv by (auto simp: ring_loop_inv_def l')
  ultimately show ?thesis by (simp add: l')
qed

lemma ring_readable_ok:
  assumes "ring_loop_inv l" and s: "serves_readable l = Some l'"
  shows "ring_loop_inv l' \<and> ring_work l' < ring_work l \<and> stopping l' = stopping l"
proof -
  obtain s' where s': "io_consume (ring l) = Some s'" "io_inv s'"
    using io_inv_consume [of "ring l"] assms(1) by (auto simp: ring_loop_inv_def io_inv_def)
  then show ?thesis using s assms(1) io_consume_fields [OF s'(1)]
    by (auto simp: serves_readable_def ring_loop_inv_def ring_work_def split: if_splits)
qed

lemma ring_complete_ok:
  assumes inv: "ring_loop_inv l" and k: "entry_position ud (inflight (ring l)) = Some i"
  shows "ring_loop_inv (l\<lparr>ring := complete_all [(ud, res)] (ring l), notified := True\<rparr>)"
    "ring_work (l\<lparr>ring := complete_all [(ud, res)] (ring l), notified := True\<rparr>) < ring_work l"
proof -
  have "io_inv (complete_all [(ud, res)] (ring l))"
    using io_step_ok [of "ring l" 1 "IoComplete ud res"] inv by (simp add: ring_loop_inv_def)
  then show "ring_loop_inv (l\<lparr>ring := complete_all [(ud, res)] (ring l), notified := True\<rparr>)"
    using inv complete_all_fields [of "[(ud, res)]" "ring l"] by (simp add: ring_loop_inv_def)
  have "i < length (inflight (ring l))" using entry_position_Some [OF k] by simp
  then show "ring_work (l\<lparr>ring := complete_all [(ud, res)] (ring l), notified := True\<rparr>) < ring_work l"
    using k by (simp add: ring_work_def remove_at_def)
qed

lemma ring_own_ok:
  assumes inv: "ring_loop_inv l" and cap: "0 < capacity" and own: "ring_own x" and s: "ring_step capacity x l = Some l'"
  shows "ring_loop_inv l' \<and> ring_work l' < ring_work l \<and> stopping l' = stopping l"
proof (cases x)
  case (KernelCompletes ud res)
  then show ?thesis using s ring_complete_ok [OF inv, of ud _ res] by (auto split: if_splits)
next
  case ServesClosing
  then show ?thesis using s inv by (auto simp: serves_closing_def ring_loop_inv_def ring_work_def split: if_splits)
qed (use own s ring_request_ok [OF inv cap] ring_readable_ok [OF inv] in \<open>auto split: if_splits\<close>)

lemma ring_step_inv:
  assumes inv: "ring_loop_inv l" and cap: "0 < capacity" and al: "ring_allowed x l" and s: "ring_step capacity x l = Some l'"
  shows "ring_loop_inv l'"
proof (cases "ring_own x")
  case True
  then show ?thesis using ring_own_ok [OF inv cap _ s] by blast
next
  case False
  then consider r where "x = ClientSends r" | "x = StopperCloses" by (cases x) auto
  then show ?thesis
  proof cases
    case 1
    then have "io_inv (ring l\<lparr>rq_chan := rq_chan (ring l) @ [r], sent := sent (ring l) @ [rq_waker r]\<rparr>)"
      using io_send_ok [of "ring l" r] al inv by (simp add: ring_loop_inv_def)
    then show ?thesis using 1 s inv by (auto simp: ring_loop_inv_def split: if_splits)
  next
    case 2
    then show ?thesis using s inv by (auto simp: ring_loop_inv_def split: if_splits)
  qed
qed

lemma ring_run_inv:
  "run_steps (ring_step capacity) xs l = Some l' \<Longrightarrow> ring_loop_inv l \<Longrightarrow> 0 < capacity \<Longrightarrow>
    ring_allowed_run capacity xs l \<Longrightarrow> ring_loop_inv l'"
  by (induction xs arbitrary: l) (auto split: option.splits intro: ring_step_inv)

lemma ring_goes_on:
  assumes inv: "ring_loop_inv l" and cap: "0 < capacity" and stop: "stopping l" and on: "\<not> ring_ended l"
  shows "\<exists>x. ring_own x \<and> ring_step capacity x l \<noteq> None"
proof -
  have io: "io_inv (ring l)" using inv by (simp add: ring_loop_inv_def)
  consider "inflight (ring l) \<noteq> []" | "completions (ring l) \<noteq> []" | "\<not> req_drained l" "rq_chan (ring l) \<noteq> [] \<or> chan_closed l"
    | "\<not> chan_closed l" | "uring_is_empty (uring (ring l))" "req_drained l"
    using io by (fastforce simp: io_inv_def ring_ok_def uring_is_empty_def)
  then show ?thesis
  proof cases
    case 1
    then obtain e where "e \<in> set (inflight (ring l))" by (cases "inflight (ring l)") auto
    then have "entry_position (sq_user_data e) (inflight (ring l)) \<noteq> None" by (simp add: entry_position_None)
    then show ?thesis by (intro exI [of _ "KernelCompletes (sq_user_data e) 0"]) simp
  next
    case 2
    then have "notified l" "io_consume (ring l) \<noteq> None"
      using inv io_inv_consume [of "ring l"] by (auto simp: ring_loop_inv_def io_inv_def)
    then show ?thesis using on by (intro exI [of _ ServesReadable]) (simp add: serves_readable_def)
  next
    case 3
    then have "serves_request capacity [] True l \<noteq> None"
      using io_submit_ok [OF io cap, of "[]"] by (auto simp: serves_request_def)
    then show ?thesis using on by (intro exI [of _ "ServesRequest [] True"]) simp
  next
    case 4
    then show ?thesis using stop on inv
      by (intro exI [of _ ServesClosing]) (auto simp: serves_closing_def ring_loop_inv_def)
  next
    case 5
    then show ?thesis using on by (simp add: ring_ended_def serve_ends_def)
  qed
qed

interpretation rl: stopping_loop "ring_step (Suc n)" ring_own "\<lambda>l. ring_loop_inv l \<and> stopping l" ring_ended ring_work
  by unfold_locales (auto simp del: not_None_eq dest: ring_own_ok intro: ring_goes_on)

lemma ring_loop_inv_new: "ring_loop_inv ring_loop_new"
  using io_inv_new by (simp add: ring_loop_inv_def ring_loop_new_def io_sys_new_def)

lemma ring_ended_answered:
  assumes "ring_loop_inv l" "ring_ended l"
  shows "count_list (map fst (woken (ring l))) w = count_list (sent (ring l)) w"
proof -
  have "io_live (ring l) = {}"
    using assms by (auto simp: ring_loop_inv_def io_inv_def ring_ended_def serve_ends_def uring_is_empty_def
      io_live_def ring_live_def ring_ok_def)
  then show ?thesis using assms(1) by (auto simp: ring_loop_inv_def io_inv_def)
qed

section \<open>The pool\<close>

fun worker_job :: "worker \<Rightarrow> nat list" where
  "worker_job (Processing seen r) = [rq_waker r]"
| "worker_job _ = []"

fun worker_seen :: "worker \<Rightarrow> bool" where
  "worker_seen (Selecting seen) = seen"
| "worker_seen (Processing seen r) = seen"
| "worker_seen Finished = True"

fun worker_known :: "bool \<Rightarrow> worker \<Rightarrow> bool" where
  "worker_known linux (Processing seen r) = (pool_process linux (rq_operation r) \<noteq> None)"
| "worker_known linux _ = True"

fun worker_work :: "worker \<Rightarrow> nat" where
  "worker_work (Selecting seen) = 1 + of_bool (\<not> seen)"
| "worker_work (Processing seen r) = 2 + of_bool (\<not> seen)"
| "worker_work Finished = 0"

definition pool_work :: "pool_sys \<Rightarrow> nat" where
  "pool_work p = 2 * length (pool_chan p) + sum_list (map worker_work (workers p))"

definition pool_inv :: "bool \<Rightarrow> pool_sys \<Rightarrow> bool" where
  "pool_inv linux p \<longleftrightarrow>
    mset (map fst (answered p)) + mset (wakers (pool_chan p)) + mset (concat (map worker_job (workers p))) = mset (pool_sent p) \<and>
    (\<forall>r\<in>set (pool_chan p). pool_process linux (rq_operation r) \<noteq> None) \<and>
    (\<forall>w\<in>set (workers p). worker_known linux w \<and> (worker_seen w \<longrightarrow> pool_closed p) \<and> (w = Finished \<longrightarrow> pool_chan p = []))"

fun pool_own :: "pool_turn \<Rightarrow> bool" where
  "pool_own (PoolSends r) = False"
| "pool_own PoolStops = False"
| "pool_own _ = True"

text \<open>What is sent to the pool is routed there, or, off Linux, anything but a cancellation.\<close>

fun pool_allowed :: "bool \<Rightarrow> pool_turn \<Rightarrow> bool" where
  "pool_allowed linux (PoolSends r) =
    (if linux then linux_route (rq_operation r) = ToPool else op_code_of (rq_operation r) \<noteq> CodeCancel)"
| "pool_allowed linux _ = True"

lemma jobs_update:
  assumes "i < length ws"
  shows "mset (concat (map worker_job (ws[i := w]))) + mset (worker_job (ws ! i)) =
    mset (concat (map worker_job ws)) + mset (worker_job w)"
proof -
  have "mset (concat (map worker_job ws)) = mset (concat (map worker_job (take i ws @ ws ! i # drop (Suc i) ws)))"
    using id_take_nth_drop [OF assms] by simp
  then show ?thesis using assms by (simp add: upd_conv_take_nth_drop)
qed

lemma work_update:
  "i < length ws \<Longrightarrow> sum_list (map worker_work (ws[i := w])) + worker_work (ws ! i) = sum_list (map worker_work ws) + worker_work w"
  by (subst (2) id_take_nth_drop [of i ws]) (simp_all add: upd_conv_take_nth_drop)

lemma pool_own_allowed: "pool_own x \<Longrightarrow> pool_allowed linux x"
  by (cases x) simp_all

lemma pool_known: "pool_allowed linux (PoolSends r) \<Longrightarrow> pool_process linux (rq_operation r) \<noteq> None"
  by (cases "rq_operation r") (auto simp: linux_route_def split: if_splits)

lemma updated_worker: "w \<in> set (ws[i := w']) \<Longrightarrow> w = w' \<or> w \<in> set ws"
  using set_update_subset_insert [of ws i w'] by blast

lemma pool_own_ok:
  assumes inv: "pool_inv linux p" and own: "pool_own x" and s: "pool_step linux x p = Some p'"
  shows "pool_inv linux p' \<and> pool_work p' < pool_work p \<and> pool_stopping p' = pool_stopping p \<and>
    length (workers p') = length (workers p)"
proof -
  have nth: "worker_known linux w \<and> (worker_seen w \<longrightarrow> pool_closed p) \<and> (w = Finished \<longrightarrow> pool_chan p = [])"
    if "w \<in> set (workers p)" for w using inv that by (simp add: pool_inv_def)
  show ?thesis
  proof (cases x)
    case (WorkerTakes i)
    then obtain seen where i: "i < length (workers p)" "workers p ! i = Selecting seen"
      using s by (auto simp: worker_takes_def split: if_splits worker.splits)
    show ?thesis
    proof (cases "pool_chan p")
      case Nil
      then have p': "p' = set_worker i Finished p" "pool_closed p"
        using s WorkerTakes i by (auto simp: worker_takes_def split: if_splits)
      show ?thesis using inv Nil p' i jobs_update [OF i(1), of Finished] work_update [OF i(1), of Finished]
        by (auto simp: pool_inv_def pool_work_def set_worker_def dest!: updated_worker)
    next
      case (Cons r rs)
      let ?w = "Processing seen r"
      have p': "p' = set_worker i ?w (p\<lparr>pool_chan := rs\<rparr>)" using s WorkerTakes i Cons by (simp add: worker_takes_def)
      have "\<forall>w\<in>set (workers p). w \<noteq> Finished" using nth Cons by auto
      then show ?thesis using inv Cons p' i nth [of "Selecting seen"] nth_mem [OF i(1)]
          jobs_update [OF i(1), of ?w] work_update [OF i(1), of ?w]
        by (auto simp: pool_inv_def pool_work_def set_worker_def dest!: updated_worker)
    qed
  next
    case (WorkerCloses i)
    then have i: "i < length (workers p)" "workers p ! i = Selecting False"
      and p': "p' = set_worker i (Selecting True) (p\<lparr>pool_closed := True\<rparr>)"
      using s by (auto simp: worker_closes_def split: if_splits)
    show ?thesis using inv p' i jobs_update [OF i(1), of "Selecting True"] work_update [OF i(1), of "Selecting True"]
      by (auto simp: pool_inv_def pool_work_def set_worker_def dest!: updated_worker)
  next
    case (WorkerAnswers i rc errno)
    then obtain seen r where i: "i < length (workers p)" "workers p ! i = Processing seen r"
      and p': "p' = set_worker i (Selecting seen) (p\<lparr>answered := answered p @ [(rq_waker r, pool_result rc errno)]\<rparr>)"
      using s by (auto simp: worker_answers_def split: if_splits worker.splits)
    show ?thesis using inv p' i nth [of "Processing seen r"] nth_mem [OF i(1)]
        jobs_update [OF i(1), of "Selecting seen", symmetric] work_update [OF i(1), of "Selecting seen"]
      by (auto simp: pool_inv_def pool_work_def set_worker_def dest!: updated_worker)
  qed (use own in simp_all)
qed

lemma pool_step_inv:
  assumes inv: "pool_inv linux p" and al: "pool_allowed linux x" and s: "pool_step linux x p = Some p'"
  shows "pool_inv linux p' \<and> length (workers p') = length (workers p)"
proof (cases "pool_own x")
  case True
  then show ?thesis using pool_own_ok [OF inv _ s] by blast
next
  case False
  then consider r where "x = PoolSends r" | "x = PoolStops" by (cases x) auto
  then show ?thesis
  proof cases
    case 1
    then have "\<not> pool_closed p" and p': "p' = p\<lparr>pool_chan := pool_chan p @ [r], pool_sent := pool_sent p @ [rq_waker r]\<rparr>"
      using s by (auto split: if_splits)
    moreover have "w \<noteq> Finished" if "w \<in> set (workers p)" for w
      using that inv \<open>\<not> pool_closed p\<close> by (auto simp: pool_inv_def)
    ultimately show ?thesis using inv pool_known [of linux r] al 1 by (auto simp: pool_inv_def)
  next
    case 2
    then show ?thesis using s inv by (auto simp: pool_inv_def stopper_stop_def split: if_splits)
  qed
qed

lemma pool_run_inv:
  "run_steps (pool_step linux) xs p = Some p' \<Longrightarrow> list_all (pool_allowed linux) xs \<Longrightarrow> pool_inv linux p \<Longrightarrow>
    pool_inv linux p' \<and> length (workers p') = length (workers p)"
  by (induction xs arbitrary: p) (auto split: option.splits dest: pool_step_inv)

lemma pool_goes_on:
  assumes inv: "pool_inv linux p" and stop: "pool_stopping p" and on: "\<not> pool_ended p"
  shows "\<exists>x. pool_own x \<and> pool_step linux x p \<noteq> None"
proof -
  obtain i where i: "i < length (workers p)" "workers p ! i \<noteq> Finished"
    using on by (auto simp: pool_ended_def in_set_conv_nth)
  have fits: "worker_known linux (workers p ! i)" "worker_seen (workers p ! i) \<longrightarrow> pool_closed p"
    using inv nth_mem [OF i(1)] by (auto simp: pool_inv_def)
  show ?thesis
  proof (cases "workers p ! i")
    case (Processing seen r)
    then show ?thesis using i fits by (intro exI [of _ "WorkerAnswers i 0 0"]) (auto simp: worker_answers_def)
  next
    case (Selecting seen)
    show ?thesis
    proof (cases seen)
      case True
      then show ?thesis using Selecting i fits
        by (intro exI [of _ "WorkerTakes i"]) (simp add: worker_takes_def split: list.split)
    next
      case False
      then show ?thesis using Selecting i stop by (intro exI [of _ "WorkerCloses i"]) (simp add: worker_closes_def)
    qed
  qed (use i in simp)
qed

interpretation pl: stopping_loop "pool_step linux" pool_own "\<lambda>p. pool_inv linux p \<and> pool_stopping p" pool_ended pool_work
  by unfold_locales (auto simp del: not_None_eq dest: pool_own_ok intro: pool_goes_on)

lemma pool_inv_new: "pool_inv linux (pool_new n)"
proof -
  have "concat (replicate n []) = ([] :: nat list)" by (induction n) simp_all
  then show ?thesis by (simp add: pool_inv_def pool_new_def)
qed

lemma pool_ended_answered:
  assumes "pool_inv linux p" "pool_ended p" "workers p \<noteq> []"
  shows "mset (map fst (answered p)) = mset (pool_sent p)"
proof -
  have all: "w = Finished" if "w \<in> set (workers p)" for w using assms(2) that by (simp add: pool_ended_def)
  have "worker_job w = []" if "w \<in> set (workers p)" for w using all [OF that] by simp
  then have "mset (concat (map worker_job (workers p))) = {#}" by simp
  moreover have "pool_chan p = []" using assms(1,3) all by (cases "workers p") (auto simp: pool_inv_def)
  moreover have "mset (map fst (answered p)) + mset (wakers (pool_chan p)) + mset (concat (map worker_job (workers p))) =
      mset (pool_sent p)" using assms(1) by (simp only: pool_inv_def)
  ultimately show ?thesis by (simp only: list.map mset.simps add_0_right)
qed

section \<open>Properties\<close>

text \<open>
  C37. Once the stopper has closed its channel, the thread of the ring ends: whatever was sent and
  cancelled before, and as long as no client sends more, its turns and the kernel's are bounded in
  number, short of the end one of them can be taken, some of them lead to the end, and at the end
  every request has been woken exactly once for each time it was sent.
\<close>

theorem ring_thread_stops:
  assumes "ring_allowed_run (Suc n) xs ring_loop_new" "run_steps (ring_step (Suc n)) xs ring_loop_new = Some l" "stopping l"
  shows "(\<exists>ys l'. list_all ring_own ys \<and> run_steps (ring_step (Suc n)) ys l = Some l' \<and> ring_ended l') \<and>
    (\<forall>ys l'. list_all ring_own ys \<and> run_steps (ring_step (Suc n)) ys l = Some l' \<longrightarrow>
      length ys \<le> ring_work l \<and>
      (if ring_ended l' then \<forall>w. count_list (map fst (woken (ring l'))) w = count_list (sent (ring l')) w
       else \<exists>y. ring_own y \<and> ring_step (Suc n) y l' \<noteq> None))"
proof -
  have inv: "ring_loop_inv l \<and> stopping l" using ring_run_inv [OF assms(2) ring_loop_inv_new _ assms(1)] assms(3) by simp
  have "length ys \<le> ring_work l \<and>
      (if ring_ended l' then \<forall>w. count_list (map fst (woken (ring l'))) w = count_list (sent (ring l')) w
       else \<exists>y. ring_own y \<and> ring_step (Suc n) y l' \<noteq> None)"
    if ys: "list_all ring_own ys" "run_steps (ring_step (Suc n)) ys l = Some l'" for ys l'
  proof -
    have inv': "ring_loop_inv l' \<and> stopping l'" by (rule rl.run_inv [OF ys(2,1) inv])
    then show ?thesis
      using rl.run_bounded [OF ys(2,1) inv] ring_ended_answered rl.goes_on [OF inv', of n] by auto
  qed
  then show ?thesis using rl.run_ends [OF inv, of n] by blast
qed

text \<open>A write is in the kernel and a read in the channel when the stopper comes.\<close>

lemma ring_thread_stops_witness:
  "\<exists>l ys l'. run_steps (ring_step 1) [ClientSends \<lparr>rq_waker = 1, rq_operation = OpWrite 3 100 8 (- 1)\<rparr>, ServesRequest [] True,
      ClientSends \<lparr>rq_waker = 2, rq_operation = OpRead 3 100 8 (- 1)\<rparr>, StopperCloses] ring_loop_new = Some l \<and>
    run_steps (ring_step 1) ys l = Some l' \<and> length ys \<le> 7 \<and> ring_ended l'"
proof -
  let ?xs = "[ClientSends \<lparr>rq_waker = 1, rq_operation = OpWrite 3 100 8 (- 1)\<rparr>, ServesRequest [] True,
      ClientSends \<lparr>rq_waker = 2, rq_operation = OpRead 3 100 8 (- 1)\<rparr>, StopperCloses]"
  note defs = ring_loop_new_def io_sys_new_def uring_state_new_def ring_ended_def serve_ends_def uring_is_empty_def
    serves_request_def io_submit_def uring_push_def uring_enqueue_def uring_entry_def io_consume_def request_bound_def
  have al: "ring_allowed_run (Suc 0) ?xs ring_loop_new"
    by (simp add: defs io_live_def ring_live_def linux_route_def)
  obtain l where l: "run_steps (ring_step (Suc 0)) ?xs ring_loop_new = Some l" "stopping l" "ring_work l \<le> 7"
    by (simp add: defs ring_work_def)
  obtain ys l' where "list_all ring_own ys" "run_steps (ring_step (Suc 0)) ys l = Some l'" "ring_ended l'" "length ys \<le> ring_work l"
    using ring_thread_stops [OF al l(1,2)] by blast
  then show ?thesis using l by (intro exI [of _ l] exI [of _ ys] exI [of _ l']) simp
qed

text \<open>
  C38. The same for the threads of the pool, of which there is at least one: once all have ended
  each request that was sent has been answered exactly once, also those that were still in the
  channel when the stopper came.
\<close>

theorem pool_threads_stop:
  assumes "list_all (pool_allowed linux) xs" "run_steps (pool_step linux) xs (pool_new (Suc n)) = Some p" "pool_stopping p"
  shows "(\<exists>ys p'. list_all pool_own ys \<and> run_steps (pool_step linux) ys p = Some p' \<and> pool_ended p') \<and>
    (\<forall>ys p'. list_all pool_own ys \<and> run_steps (pool_step linux) ys p = Some p' \<longrightarrow>
      length ys \<le> pool_work p \<and>
      (if pool_ended p' then mset (map fst (answered p')) = mset (pool_sent p')
       else \<exists>y. pool_own y \<and> pool_step linux y p' \<noteq> None))"
proof -
  have run: "pool_inv linux p \<and> length (workers p) = Suc n"
    using pool_run_inv [OF assms(2,1) pool_inv_new] by (simp add: pool_new_def)
  then have inv: "pool_inv linux p \<and> pool_stopping p" using assms(3) by simp
  have "length ys \<le> pool_work p \<and>
      (if pool_ended p' then mset (map fst (answered p')) = mset (pool_sent p')
       else \<exists>y. pool_own y \<and> pool_step linux y p' \<noteq> None)"
    if ys: "list_all pool_own ys" "run_steps (pool_step linux) ys p = Some p'" for ys p'
  proof -
    have inv': "pool_inv linux p' \<and> pool_stopping p'" by (rule pl.run_inv [OF ys(2,1) inv])
    have "list_all (pool_allowed linux) ys" using ys(1) pool_own_allowed by (auto simp: list_all_iff)
    then have "workers p' \<noteq> []" using pool_run_inv [OF ys(2)] run by auto
    then show ?thesis
      using pl.run_bounded [OF ys(2,1) inv] pool_ended_answered pl.goes_on [OF inv'] inv' by auto
  qed
  then show ?thesis using pl.run_ends [OF inv] by blast
qed

text \<open>One thread has a truncation, another is in the channel when the stopper comes.\<close>

lemma pool_threads_stop_witness:
  "\<exists>p ys p'. run_steps (pool_step True) [PoolSends \<lparr>rq_waker = 1, rq_operation = OpTruncate 3 100\<rparr>, WorkerTakes 0,
      PoolSends \<lparr>rq_waker = 2, rq_operation = OpTruncate 3 50\<rparr>, PoolStops] (pool_new 2) = Some p \<and>
    run_steps (pool_step True) ys p = Some p' \<and> pool_ended p' \<and> length ys \<le> 8 \<and>
    mset (map fst (answered p')) = mset (pool_sent p')"
proof -
  let ?xs = "[PoolSends \<lparr>rq_waker = 1, rq_operation = OpTruncate 3 100\<rparr>, WorkerTakes 0,
      PoolSends \<lparr>rq_waker = 2, rq_operation = OpTruncate 3 50\<rparr>, PoolStops]"
  have al: "list_all (pool_allowed True) ?xs" by (simp add: linux_route_def)
  obtain p where p: "run_steps (pool_step True) ?xs (pool_new (Suc (Suc 0))) = Some p" "pool_stopping p" "pool_work p \<le> 8"
    by (simp add: pool_new_def worker_takes_def set_worker_def request_bound_def pool_work_def stopper_stop_def)
  note stop = pool_threads_stop [OF al p(1,2)]
  obtain ys p' where ys: "list_all pool_own ys" "run_steps (pool_step True) ys p = Some p'" "pool_ended p'"
    using stop by blast
  then have "length ys \<le> pool_work p" "mset (map fst (answered p')) = mset (pool_sent p')"
    using stop [THEN conjunct2, rule_format, of ys p'] by simp_all
  then show ?thesis using p ys by (intro exI [of _ p] exI [of _ ys] exI [of _ p']) (simp add: numeral_2_eq_2)
qed

end
