(* ===== verification/Condvar.thy ===== *)
theory Condvar
  imports Runtime_Correct
begin

text \<open>
  The condition variable of the scheduler (\<open>runtime.rs\<close>). In \<open>Runtime\<close> a thread that finds nothing to
  do just looks again; here it sleeps in \<open>waker.wait\<close> until it is notified. The runs are those of
  \<open>Runtime\<close>, and no notification is lost: threads do not sleep over a queued task.
\<close>

section \<open>Sleeping threads\<close>

text \<open>\<open>sleepers\<close> are the threads in \<open>wait\<close> that have not been notified.\<close>

record 'y cv_sys =
  base :: "'y sys"
  sleepers :: "nat list"

definition cv_new :: "nat \<Rightarrow> 'y cv_sys" where
  "cv_new parallelism = \<lparr>base = sys_new parallelism, sleepers = []\<rparr>"

text \<open>The condition of the loop a thread is in.\<close>

fun loop_holds :: "sched_thread \<Rightarrow> 'y sys \<Rightarrow> bool" where
  "loop_holds (TLoop Serving) s \<longleftrightarrow> stopped (sst s) < 0"
| "loop_holds (TLoop Draining) s \<longleftrightarrow> stopped (sst s) = int (length (threads s))"
| "loop_holds _ s \<longleftrightarrow> False"

definition waits :: "nat \<Rightarrow> 'y sys \<Rightarrow> bool" where
  "waits i s \<longleftrightarrow> i < length (threads s) \<and> loop_holds (threads s ! i) s \<and> runq (sst s) = []"

text \<open>\<open>notify_one\<close> wakes some sleeper, if there is one; which one is the argument.\<close>

definition notify_one :: "nat \<Rightarrow> nat list \<Rightarrow> nat list" where
  "notify_one k is = (if is = [] then [] else remove1 (is ! (k mod length is)) is)"

fun notifies :: "'y rt_op \<Rightarrow> nat \<Rightarrow> nat list \<Rightarrow> nat list" where
  "notifies (RtPush t) k is = notify_one k is"
| "notifies (RtSpawn t co) k is = notify_one k is"
| "notifies RtDrop k is = []"
| "notifies _ k is = is"

datatype 'y cv_op = CvDo "'y rt_op" nat | CvSpurious nat

fun cv_step :: "'y cv_op \<Rightarrow> 'y cv_sys \<Rightarrow> 'y cv_sys option" where
  "cv_step (CvSpurious i) c = (if i \<in> set (sleepers c) then Some (c\<lparr>sleepers := remove1 i (sleepers c)\<rparr>) else None)"
| "cv_step (CvDo (RtServe i) k) c =
    (if i \<in> set (sleepers c) then None
     else if waits i (base c) then Some (c\<lparr>sleepers := sleepers c @ [i]\<rparr>)
     else map_option (\<lambda>s. c\<lparr>base := s\<rparr>) (serve_step i (base c)))"
| "cv_step (CvDo x k) c =
    map_option (\<lambda>s. c\<lparr>base := s, sleepers := notifies x k (sleepers c)\<rparr>) (rt_step x (base c))"

section \<open>No lost wakeup\<close>

fun looping :: "sched_thread \<Rightarrow> bool" where
  "looping (TLoop ph) \<longleftrightarrow> True"
| "looping _ \<longleftrightarrow> False"

text \<open>The threads that are awake and about to look into the run queue.\<close>

definition lookers :: "'y cv_sys \<Rightarrow> nat set" where
  "lookers c = {i. i < length (threads (base c)) \<and> looping (threads (base c) ! i) \<and> i \<notin> set (sleepers c)}"

definition cv_inv :: "nat \<Rightarrow> 'y cv_sys \<Rightarrow> bool" where
  "cv_inv n c \<longleftrightarrow> stop_inv n (base c) \<and> distinct (sleepers c) \<and>
    (\<forall>i\<in>set (sleepers c). i < n \<and> loop_holds (threads (base c) ! i) (base c)) \<and>
    (sleepers c \<noteq> [] \<longrightarrow> length (runq (sst (base c))) \<le> card (lookers c))"

lemma finite_lookers [simp]: "finite (lookers c)"
  by (simp add: lookers_def)

lemma loop_holds_looping: "loop_holds th s \<Longrightarrow> looping th"
  by (cases th) simp_all

lemma cv_invI:
  assumes "stop_inv n (base c)" "distinct (sleepers c)"
    and "\<And>i. i \<in> set (sleepers c) \<Longrightarrow> i < n \<and> loop_holds (threads (base c) ! i) (base c)"
    and "sleepers c \<noteq> [] \<Longrightarrow> length (runq (sst (base c))) \<le> card (lookers c)"
  shows "cv_inv n c"
  using assms by (simp add: cv_inv_def)

lemma cv_invD:
  assumes "cv_inv n c"
  shows "stop_inv n (base c)" and "distinct (sleepers c)" and "length (threads (base c)) = n"
    and "i \<in> set (sleepers c) \<Longrightarrow> i < n"
    and "i \<in> set (sleepers c) \<Longrightarrow> loop_holds (threads (base c) ! i) (base c)"
    and "sleepers c \<noteq> [] \<Longrightarrow> length (runq (sst (base c))) \<le> card (lookers c)"
  using assms stop_invD(1) by (auto simp: cv_inv_def)

lemma sleeper_looping: "cv_inv n c \<Longrightarrow> i \<in> set (sleepers c) \<Longrightarrow> looping (threads (base c) ! i)"
  using cv_invD(5) loop_holds_looping by blast

text \<open>A thread past the first loop, or one that is to leave it, has nobody asleep beside it.\<close>

lemma late_sleeps_alone:
  assumes inv: "cv_inv n c" and i: "i < n" "late (threads (base c) ! i)" and j: "j \<in> set (sleepers c)"
  shows "j = i"
proof -
  note stop = cv_invD(1) [OF inv] and n = cv_invD(3) [OF inv]
  note one = stop_invD(3) [OF stop i]
  have j': "j < n" "looping (threads (base c) ! j)"
    using cv_invD(4,5) [OF inv j] loop_holds_looping by blast+
  then have "\<not> serving (threads (base c) ! j)" using stop_invD(2) [OF stop j'(1)] one by auto
  then have "late (threads (base c) ! j)" using j'(2) by (cases "threads (base c) ! j") (simp_all add: late_def)
  then show ?thesis using filter_at_most_one [of late "threads (base c)" i j] one i j' n by auto
qed

lemma stopped_sleeps_not:
  assumes inv: "cv_inv n c" and i: "i < n" "serving (threads (base c) ! i)" and st: "0 \<le> stopped (sst (base c))"
  shows "sleepers c = []"
proof (rule ccontr)
  assume "sleepers c \<noteq> []"
  then obtain j where j: "j \<in> set (sleepers c)" by (cases "sleepers c") auto
  note holds = cv_invD(4,5) [OF inv j]
  then have "threads (base c) ! j = TLoop Draining"
    using st by (auto elim!: loop_holds.elims)
  then have "late (threads (base c) ! j)" by (simp add: late_def)
  then have "length (filter serving (threads (base c))) = 0" using stop_invD(3) [OF cv_invD(1) [OF inv] holds(1)] by simp
  moreover have "threads (base c) ! i \<in> set (filter serving (threads (base c)))"
    using i cv_invD(3) [OF inv] by simp
  ultimately show False by simp
qed

text \<open>Steps that change neither the run queue's length nor who looks into it.\<close>

lemma cv_inv_stay:
  assumes inv: "cv_inv n c" and stop: "stop_inv n s'" and same: "stopped (sst s') = stopped (sst (base c))"
    and thr: "\<And>i. i \<in> set (sleepers c) \<Longrightarrow> threads s' ! i = threads (base c) ! i"
    and len: "length (runq (sst s')) + card (lookers c) \<le> length (runq (sst (base c))) + card (lookers (c\<lparr>base := s'\<rparr>))"
  shows "cv_inv n (c\<lparr>base := s'\<rparr>)"
proof (rule cv_invI)
  show "stop_inv n (base (c\<lparr>base := s'\<rparr>))" using stop by simp
  show "distinct (sleepers (c\<lparr>base := s'\<rparr>))" using cv_invD(2) [OF inv] by simp
  show "length (runq (sst (base (c\<lparr>base := s'\<rparr>)))) \<le> card (lookers (c\<lparr>base := s'\<rparr>))" if "sleepers (c\<lparr>base := s'\<rparr>) \<noteq> []"
    using cv_invD(6) [OF inv] that len by simp
  fix i assume "i \<in> set (sleepers (c\<lparr>base := s'\<rparr>))"
  then have i: "i < n" "loop_holds (threads (base c) ! i) (base c)" using cv_invD(4,5) [OF inv] by simp_all
  have "threads s' ! i = threads (base c) ! i" using thr \<open>i \<in> set (sleepers (c\<lparr>base := s'\<rparr>))\<close> by simp
  moreover have "loop_holds th s' = loop_holds th (base c)" for th
    using same stop_invD(1) [OF stop] cv_invD(3) [OF inv] by (cases "(th, base c)" rule: loop_holds.cases) simp_all
  ultimately show "i < n \<and> loop_holds (threads (base (c\<lparr>base := s'\<rparr>)) ! i) (base (c\<lparr>base := s'\<rparr>))" using i by simp
qed

lemma cv_inv_awake: "stop_inv n s' \<Longrightarrow> cv_inv n (c\<lparr>base := s', sleepers := []\<rparr>)"
  by (rule cv_invI) simp_all

lemma serve_cv:
  assumes inv: "cv_inv n c" and i: "i \<notin> set (sleepers c)" and no: "\<not> waits i (base c)"
    and st: "serve_step i (base c) = Some s'"
  shows "cv_inv n (c\<lparr>base := s'\<rparr>)"
proof -
  note stop = cv_invD(1) [OF inv] and n = cv_invD(3) [OF inv]
  have stop': "stop_inv n s'" by (rule serve_stop [OF stop st])
  have lt: "i < length (threads (base c))" using st by (simp add: serve_step_def split: if_splits)
  have none: "cv_inv n (c\<lparr>base := s'\<rparr>)" if "sleepers c = []"
    using that stop' by (intro cv_invI) simp_all
  from st lt consider (run) ph where "threads (base c) ! i = TLoop ph" "s' = run_pop ph i (base c)" "loop_holds (TLoop ph) (base c)"
    | (leave) "threads (base c) ! i = TLoop Serving" "0 \<le> stopped (sst (base c))"
    | (final) "threads (base c) ! i = TLoop Draining"  "stopped (sst (base c)) \<noteq> int (length (threads (base c)))"
    | (send) "threads (base c) ! i = TSend"
    by (auto simp: serve_step_def Let_def split: sched_thread.splits serve_phase.splits if_splits)
  then show ?thesis
  proof cases
    case run
    obtain t q where q: "runq (sst (base c)) = t # q"
      using no run lt by (cases "runq (sst (base c))") (simp_all add: waits_def)
    have s': "s' = set_thread i (TExec ph t) (on_sst (\<lambda>st. st\<lparr>runq := q\<rparr>) (base c))"
      using run(2) q by (simp add: run_pop_def)
    have "lookers (c\<lparr>base := s'\<rparr>) = lookers c - {i}" "i \<in> lookers c"
      using run(1) lt i by (auto simp: lookers_def s' nth_list_update)
    then have len: "length (runq (sst s')) + card (lookers c) \<le> length (runq (sst (base c))) + card (lookers (c\<lparr>base := s'\<rparr>))"
      using card.remove [of "lookers c" i] by (simp add: s' q)
    have "threads s' ! j = threads (base c) ! j" if "j \<in> set (sleepers c)" for j
      using that i by (cases "j = i") (simp_all add: s')
    then show ?thesis using len by (intro cv_inv_stay [OF inv stop']) (simp_all add: s')
  next
    case leave
    then show ?thesis using stopped_sleeps_not [OF inv, of i] lt n none by simp
  next
    case final
    have "j \<notin> set (sleepers c)" for j
    proof
      assume j: "j \<in> set (sleepers c)"
      then have "j = i" using late_sleeps_alone [OF inv _ _ j, of i] final lt n by (simp add: late_def)
      then show False using j i by simp
    qed
    then have "sleepers c = []" by (cases "sleepers c") auto
    then show ?thesis by (rule none)
  next
    case send
    have "j \<notin> set (sleepers c)" for j
    proof
      assume j: "j \<in> set (sleepers c)"
      then have "j = i" using late_sleeps_alone [OF inv _ _ j, of i] send lt n by (simp add: late_def)
      then show False using j i by simp
    qed
    then have "sleepers c = []" by (cases "sleepers c") auto
    then show ?thesis by (rule none)
  qed
qed

text \<open>The final loop and its aborts run with nobody asleep.\<close>

lemma in_final_loop_sleeps_not:
  assumes inv: "cv_inv n c" and i: "i < n" "in_final_loop (threads (base c) ! i)"
  shows "sleepers c = []"
proof (rule ccontr)
  assume "sleepers c \<noteq> []"
  then obtain j where j: "j \<in> set (sleepers c)" by (cases "sleepers c") auto
  have "late (threads (base c) ! i)" using i(2) by (cases "threads (base c) ! i") (auto simp: late_def)
  then have "j = i" by (rule late_sleeps_alone [OF inv i(1) _ j])
  then have "looping (threads (base c) ! i)" using cv_invD(5) [OF inv j] loop_holds_looping by blast
  then show False using i(2) by (cases "threads (base c) ! i") simp_all
qed

lemma exec_cv:
  assumes inv: "cv_inv n c" and st: "exec_step intr turns woken rounds final i (base c) = Some s'"
  shows "cv_inv n (c\<lparr>base := s'\<rparr>)"
proof -
  from st obtain ph t flow k where i: "i < length (threads (base c))" "threads (base c) ! i = TExec ph t"
      and s': "s' = set_thread i (TFlow ph t flow) (set_task t k (base c))"
    by (auto simp: exec_step_def split: if_splits sched_thread.splits)
  have "lookers (c\<lparr>base := s'\<rparr>) = lookers c" using i by (auto simp: lookers_def s' nth_list_update)
  moreover have "i \<notin> set (sleepers c)" using sleeper_looping [OF inv, of i] i by auto
  ultimately show ?thesis using i by (intro cv_inv_stay [OF inv exec_stop [OF cv_invD(1) [OF inv] st]]) (auto simp: s' nth_list_update)
qed

lemma flow_cv:
  assumes inv: "cv_inv n c" and st: "flow_step i (base c) = Some s'"
  shows "cv_inv n (c\<lparr>base := s'\<rparr>)"
proof -
  from st obtain ph t flow where i: "i < length (threads (base c))" "threads (base c) ! i = TFlow ph t flow"
      and s': "s' = set_thread i (TLoop ph) (on_sst (run_flow t flow) (base c))"
    by (auto simp: flow_step_def split: if_splits sched_thread.splits)
  have ns: "i \<notin> set (sleepers c)" using sleeper_looping [OF inv, of i] i by auto
  then have l: "lookers (c\<lparr>base := s'\<rparr>) = insert i (lookers c)" "i \<notin> lookers c"
    using i by (auto simp: lookers_def s' nth_list_update)
  have "length (runq (run_flow t flow (sst (base c)))) \<le> Suc (length (runq (sst (base c))))"
      "stopped (run_flow t flow (sst (base c))) = stopped (sst (base c))" by (cases flow; simp)+
  then show ?thesis using i l ns
    by (intro cv_inv_stay [OF inv flow_stop [OF cv_invD(1) [OF inv] st]]) (auto simp: s' nth_list_update)
qed

lemma wake_cv:
  assumes inv: "cv_inv n c" and st: "wake_step t co (base c) = Some s'"
  shows "cv_inv n (c\<lparr>base := s'\<rparr>)"
proof -
  have same: "threads s' = threads (base c)" "sst s' = sst (base c)"
    using st by (auto simp: wake_step_def Let_def split: if_splits prod.splits)
  then have "lookers (c\<lparr>base := s'\<rparr>) = lookers c" by (simp add: lookers_def)
  then show ?thesis using same by (intro cv_inv_stay [OF inv wake_stop [OF cv_invD(1) [OF inv] st]]) simp_all
qed

text \<open>A push to the run queue comes with a notification.\<close>

lemma woken_looker:
  assumes inv: "cv_inv n c" and j: "j \<in> set (sleepers c)"
  shows "card (lookers (c\<lparr>sleepers := remove1 j (sleepers c)\<rparr>)) = Suc (card (lookers c))"
proof -
  have "looping (threads (base c) ! j)" "j < length (threads (base c))"
    using cv_invD(3,4,5) [OF inv] j loop_holds_looping by metis+
  then have "lookers (c\<lparr>sleepers := remove1 j (sleepers c)\<rparr>) = insert j (lookers c)" "j \<notin> lookers c"
    using j cv_invD(2) [OF inv] by (auto simp: lookers_def)
  then show ?thesis by simp
qed

lemma push_cv:
  assumes inv: "cv_inv n c" and stop: "stop_inv n s'"
    and same: "threads s' = threads (base c)" "stopped (sst s') = stopped (sst (base c))"
      "length (runq (sst s')) = Suc (length (runq (sst (base c))))"
  shows "cv_inv n (c\<lparr>base := s', sleepers := notify_one k (sleepers c)\<rparr>)"
proof (cases "sleepers c = []")
  case True
  then show ?thesis using cv_inv_awake [OF stop, of c] by (simp add: notify_one_def)
next
  case False
  define j where "j = sleepers c ! (k mod length (sleepers c))"
  have j: "j \<in> set (sleepers c)" using False by (simp add: j_def)
  let ?c = "c\<lparr>base := s', sleepers := remove1 j (sleepers c)\<rparr>"
  have "lookers ?c = lookers (c\<lparr>sleepers := remove1 j (sleepers c)\<rparr>)" by (simp add: lookers_def same)
  then have "card (lookers ?c) = Suc (card (lookers c))" using woken_looker [OF inv j] by simp
  moreover have "loop_holds th s' = loop_holds th (base c)" for th
    using same by (cases "(th, base c)" rule: loop_holds.cases) simp_all
  ultimately have "cv_inv n ?c"
    using stop cv_invD(2,4,5,6) [OF inv] False same by (intro cv_invI) (auto dest: notin_set_remove1)
  then show ?thesis using False by (simp add: notify_one_def j_def)
qed

lemma spurious_cv:
  assumes inv: "cv_inv n c" and j: "j \<in> set (sleepers c)"
  shows "cv_inv n (c\<lparr>sleepers := remove1 j (sleepers c)\<rparr>)"
  using cv_invD(1,2,4,5) [OF inv] cv_invD(6) [OF inv] woken_looker [OF inv j] length_pos_if_in_set [OF j] by (intro cv_invI) (auto dest: notin_set_remove1)

lemma sleep_cv:
  assumes inv: "cv_inv n c" and i: "i \<notin> set (sleepers c)" and w: "waits i (base c)"
  shows "cv_inv n (c\<lparr>sleepers := sleepers c @ [i]\<rparr>)"
  using cv_invD(1,2,3,4,5) [OF inv] i w by (intro cv_invI) (auto simp: waits_def)

lemma final_aborted_cv:
  assumes inv: "cv_inv n c" and st: "rt_step x (base c) = Some s'"
    and x: "x = RtFinal i \<or> x = RtAborted i intr rounds final"
  shows "cv_inv n (c\<lparr>base := s'\<rparr>)"
proof -
  have "i < n \<and> in_final_loop (threads (base c) ! i)"
    using x st cv_invD(3) [OF inv] by (auto simp: final_step_def aborted_step_def split: if_splits sched_thread.splits)
  then have "sleepers c = []" using in_final_loop_sleeps_not [OF inv] by blast
  then show ?thesis using rt_step_stop [OF cv_invD(1) [OF inv] st] by (intro cv_invI) simp_all
qed

lemma cv_step_inv:
  assumes inv: "cv_inv n c" and st: "cv_step op c = Some c'"
  shows "cv_inv n c' \<and> (base c' = base c \<or> (\<exists>x. rt_step x (base c) = Some (base c')))"
proof (cases op)
  case (CvSpurious i)
  then show ?thesis using st spurious_cv [OF inv, of i] by (auto split: if_splits)
next
  case (CvDo x k)
  note stop = rt_step_stop [OF cv_invD(1) [OF inv]]
  show ?thesis
  proof (cases x)
    case (RtServe i)
    show ?thesis
    proof (cases "waits i (base c)")
      case True
      then show ?thesis using st sleep_cv [OF inv _ True] CvDo RtServe by (auto split: if_splits)
    next
      case False
      then obtain s' where "serve_step i (base c) = Some s'" "c' = c\<lparr>base := s'\<rparr>" "i \<notin> set (sleepers c)"
        using st CvDo RtServe by (auto split: if_splits)
      then show ?thesis using serve_cv [OF inv _ False] by (auto intro!: exI [of _ "RtServe i"])
    qed
  next
    case (RtPush t)
    then obtain s' where s': "rt_step (RtPush t) (base c) = Some s'" "c' = c\<lparr>base := s', sleepers := notify_one k (sleepers c)\<rparr>"
      using st CvDo by auto
    then have "cv_inv n c'" using push_cv [OF inv stop [OF s'(1)]]
      by (auto simp: push_step_def sched_resume_def split: if_splits)
    then show ?thesis using s' by (auto intro!: exI [of _ "RtPush t"])
  next
    case (RtSpawn t co)
    then obtain s' where s': "rt_step (RtSpawn t co) (base c) = Some s'" "c' = c\<lparr>base := s', sleepers := notify_one k (sleepers c)\<rparr>"
      using st CvDo by auto
    then have "cv_inv n c'" using push_cv [OF inv stop [OF s'(1)]]
      by (auto simp: spawn_step_def sched_sched_def split: if_splits)
    then show ?thesis using s' by (auto intro!: exI [of _ "RtSpawn t co"])
  next
    case RtDrop
    then obtain s' where s': "rt_step RtDrop (base c) = Some s'" "c' = c\<lparr>base := s', sleepers := []\<rparr>" using st CvDo by auto
    then show ?thesis using cv_inv_awake [OF stop [OF s'(1)]] by (auto intro!: exI [of _ RtDrop])
  next
    case (RtExec i intr turns woken rounds final)
    then obtain s' where s': "rt_step x (base c) = Some s'" "c' = c\<lparr>base := s'\<rparr>" using st CvDo by (cases c) auto
    then show ?thesis using exec_cv [OF inv] RtExec by (auto intro!: exI [of _ x])
  next
    case (RtFlow i)
    then obtain s' where s': "rt_step x (base c) = Some s'" "c' = c\<lparr>base := s'\<rparr>" using st CvDo by (cases c) auto
    then show ?thesis using flow_cv [OF inv] RtFlow by (auto intro!: exI [of _ x])
  next
    case (RtFinal i)
    then obtain s' where s': "rt_step x (base c) = Some s'" "c' = c\<lparr>base := s'\<rparr>" using st CvDo by (cases c) auto
    then show ?thesis using final_aborted_cv [OF inv s'(1)] RtFinal by (auto intro!: exI [of _ x])
  next
    case (RtAborted i intr rounds final)
    then obtain s' where s': "rt_step x (base c) = Some s'" "c' = c\<lparr>base := s'\<rparr>" using st CvDo by (cases c) auto
    then show ?thesis using final_aborted_cv [OF inv s'(1)] RtAborted by (auto intro!: exI [of _ x])
  next
    case (RtWake t co)
    then obtain s' where s': "rt_step x (base c) = Some s'" "c' = c\<lparr>base := s'\<rparr>" using st CvDo by (cases c) auto
    then show ?thesis using wake_cv [OF inv] RtWake by (auto intro!: exI [of _ x])
  qed
qed

lemma rt_run_snoc: "rt_run xs s = Some s1 \<Longrightarrow> rt_step x s1 = Some s2 \<Longrightarrow> rt_run (xs @ [x]) s = Some s2"
  by (induction xs arbitrary: s) (auto split: option.splits)

definition cv_run_ok :: "nat \<Rightarrow> 'y cv_sys \<Rightarrow> bool" where
  "cv_run_ok n c \<longleftrightarrow> cv_inv n c \<and> (\<exists>xs. rt_run xs (sys_new n) = Some (base c))"

lemma cv_run_ok_step:
  assumes ok: "cv_run_ok n c" and st: "cv_step op c = Some c'"
  shows "cv_run_ok n c'"
proof -
  obtain xs where xs: "cv_inv n c" "rt_run xs (sys_new n) = Some (base c)" using ok by (auto simp: cv_run_ok_def)
  note step = cv_step_inv [OF xs(1) st]
  then consider "base c' = base c" | x where "rt_step x (base c) = Some (base c')" by blast
  then have "\<exists>ys. rt_run ys (sys_new n) = Some (base c')" by cases (use xs(2) rt_run_snoc in force)+
  then show ?thesis using step by (simp add: cv_run_ok_def)
qed

lemma cv_inv_new: "cv_inv n (cv_new n)"
  using stop_inv_new by (simp add: cv_inv_def cv_new_def)

text \<open>
  C8. No notification of the scheduler is lost. Whatever happens, with threads that sleep in
  \<open>waker.wait\<close>, are notified one by one or wake up spuriously, the runs are those of the scheduler
  without sleep; while a thread sleeps there are at least as many threads awake that are about to
  look into the run queue as there are tasks in it; so before the drop a queued task can be popped
  at once, or every thread is busy with another.
\<close>

theorem scheduler_never_oversleeps:
  assumes "run_steps cv_step ops (cv_new n) = Some c"
  shows "(\<exists>xs. rt_run xs (sys_new n) = Some (base c)) \<and>
    (sleepers c \<noteq> [] \<longrightarrow> length (runq (sst (base c))) \<le> card (lookers c)) \<and>
    (stops (base c) = 0 \<and> runq (sst (base c)) \<noteq> [] \<longrightarrow>
      (\<exists>i. cv_step (CvDo (RtServe i) k) c = Some (c\<lparr>base := run_pop Serving i (base c)\<rparr>)) \<or>
      list_all (\<lambda>th. \<not> looping th) (threads (base c)))"
proof -
  have run: "cv_inv n c" "\<exists>xs. rt_run xs (sys_new n) = Some (base c)"
  proof -
    have "rt_run [] (sys_new n) = Some (base (cv_new n))" by (simp add: cv_new_def)
    then have new: "cv_run_ok n (cv_new n)" using cv_inv_new unfolding cv_run_ok_def by blast
    have "cv_run_ok n c"
      by (rule run_steps_inv [where I = "cv_run_ok n" and step = cv_step, OF _ assms new]) (rule cv_run_ok_step)
    then show "cv_inv n c" "\<exists>xs. rt_run xs (sys_new n) = Some (base c)" by (simp_all add: cv_run_ok_def)
  qed
  have pops: "(\<exists>i. cv_step (CvDo (RtServe i) k) c = Some (c\<lparr>base := run_pop Serving i (base c)\<rparr>)) \<or>
      list_all (\<lambda>th. \<not> looping th) (threads (base c))"
    if "stops (base c) = 0" and q: "runq (sst (base c)) \<noteq> []"
  proof (cases "lookers c = {}")
    case True
    then have "sleepers c = []" using cv_invD(6) [OF run(1)] q by auto
    then show ?thesis using True by (auto simp: lookers_def list_all_length)
  next
    case False
    then obtain i where i: "i < length (threads (base c))" "looping (threads (base c) ! i)" "i \<notin> set (sleepers c)"
      by (auto simp: lookers_def)
    obtain xs where xs: "rt_run xs (sys_new n) = Some (base c)" using run(2) by blast
    have "stopped (sst (base c)) = -1" "serving (threads (base c) ! i)"
      using cv_invD(1) [OF run(1)] that(1) i(1) length_filter_less [of "threads (base c) ! i" "threads (base c)" serving]
      by (auto simp: stop_inv_def Let_def)
    then have "serve_step i (base c) = Some (run_pop Serving i (base c))"
      using i by (cases "threads (base c) ! i") (simp_all add: serve_step_def)
    moreover have "\<not> waits i (base c)" using q by (simp add: waits_def)
    ultimately show ?thesis using i(3) by (intro disjI1 exI [of _ i]) simp
  qed
  show ?thesis using run(2) cv_invD(6) [OF run(1)] pops by blast
qed

text \<open>Two threads fall asleep; a task is spawned, one of them is notified, and pops it.\<close>

lemma scheduler_never_oversleeps_witness:
  "\<exists>c :: unit cv_sys. run_steps cv_step [CvDo (RtServe 0) 0, CvDo (RtServe 1) 0, CvDo (RtSpawn 7 70) 1] (cv_new 2) = Some c \<and>
    sleepers c = [0] \<and> card (lookers c) = 1 \<and> length (runq (sst (base c))) \<le> card (lookers c)"
proof -
  let ?run = "run_steps cv_step [CvDo (RtServe 0) 0, CvDo (RtServe 1) 0, CvDo (RtSpawn 7 70) 1] (cv_new 2 :: unit cv_sys)"
  have "map_option (\<lambda>c. (sleepers c, threads (base c))) ?run = Some ([0], [TLoop Serving, TLoop Serving])"
    by (simp add: cv_new_def sys_new_def sched_state_new_def waits_def spawn_step_def sched_sched_def notify_one_def eval_nat_numeral)
  then obtain c where c: "?run = Some c" "sleepers c = [0]" "threads (base c) = [TLoop Serving, TLoop Serving]" by auto
  have "lookers c = {1}" using c(2,3) by (auto simp: lookers_def less_Suc_eq)
  then show ?thesis using scheduler_never_oversleeps [OF c(1)] c by (intro exI [of _ c]) simp
qed

end
