(* ===== verification/Runtime_Drop.thy ===== *)
theory Runtime_Drop
  imports Condvar Stopping
begin

text \<open>
  \<open>Runtime::drop\<close> with the threads of the scheduler: they come to their end, once the tasks have come to
  theirs, and never stop short of it other than for a task.
\<close>

section \<open>What the threads do by themselves\<close>

text \<open>
  All turns of the threads and of the drop but the execution of a task, and the pushes of the wakers
  that have won. The drop itself joins one task, the timer's; \<open>joined_step\<close> are the histories in which the
  second stop finds no other task either, since \<open>Shutdown\<close> tells what becomes of those it does.
\<close>

fun scheduler_own :: "'y cv_op \<Rightarrow> bool" where
  "scheduler_own (CvDo (RtServe i) k) = True"
| "scheduler_own (CvDo (RtFlow i) k) = True"
| "scheduler_own (CvDo (RtFinal i) k) = True"
| "scheduler_own (CvDo (RtPush t) k) = True"
| "scheduler_own (CvDo RtDrop k) = True"
| "scheduler_own _ = False"

fun second_stop :: "'y cv_op \<Rightarrow> 'y cv_sys \<Rightarrow> bool" where
  "second_stop (CvDo RtDrop k) c \<longleftrightarrow> stops (base c) = 1"
| "second_stop _ c \<longleftrightarrow> False"

definition joined_step :: "'y cv_op \<Rightarrow> 'y cv_sys \<Rightarrow> 'y cv_sys option" where
  "joined_step op c = (if second_stop op c \<and> registry (sst (base c)) \<noteq> [] then None else cv_step op c)"

text \<open>
  The threads wait for a task: one executes it, or all that are left sleep and no task is queued, as
  while the drop is in \<open>timer.join()\<close>.
\<close>

definition awaits_tasks :: "'y cv_sys \<Rightarrow> bool" where
  "awaits_tasks c \<longleftrightarrow> list_ex (\<lambda>th. case th of TExec ph t \<Rightarrow> True | _ \<Rightarrow> False) (threads (base c)) \<or>
    stops (base c) = 1 \<and> registry (sst (base c)) \<noteq> [] \<and> runq (sst (base c)) = [] \<and> pushes (base c) = [] \<and>
    list_all (\<lambda>i. threads (base c) ! i = TDone \<or> i \<in> set (sleepers c)) [0..<length (threads (base c))]"

definition all_done :: "'y cv_sys \<Rightarrow> bool" where
  "all_done c \<longleftrightarrow> list_all (\<lambda>th. th = TDone) (threads (base c))"

fun phase_work :: "serve_phase \<Rightarrow> nat" where
  "phase_work Serving = 5"
| "phase_work Draining = 3"

fun thread_work :: "sched_thread \<Rightarrow> nat" where
  "thread_work (TLoop ph) = phase_work ph"
| "thread_work (TExec ph t) = phase_work ph"
| "thread_work (TFlow ph t flow) = phase_work ph + 2"
| "thread_work TSend = 4"
| "thread_work TAborts = 2"
| "thread_work TFinal = 1"
| "thread_work _ = 0"

definition drop_work :: "'y cv_sys \<Rightarrow> nat" where
  "drop_work c = (let n = length (threads (base c)) in
    Suc n * (2 - stops (base c)) + sum_list (map thread_work (threads (base c))) + 3 * length (pushes (base c)) +
    length (runq (sst (base c))) + (n - length (sleepers c)))"

definition drop_inv :: "nat \<Rightarrow> 'y cv_sys \<Rightarrow> bool" where
  "drop_inv n c \<longleftrightarrow> cv_inv n c \<and> token_inv (base c) \<and> (stops (base c) = 2 \<longrightarrow> registry (sst (base c)) = [])"

section \<open>Every turn is progress\<close>

lemma sum_thread_work:
  "i < length ths \<Longrightarrow> thread_work th + d \<le> thread_work (ths ! i) \<Longrightarrow>
    sum_list (map thread_work (ths[i := th])) + d \<le> sum_list (map thread_work ths)"
  using member_le_sum_list [of "thread_work (ths ! i)" "map thread_work ths"]
  by (simp add: map_update sum_list_update)

lemma sleepers_bound: "cv_inv n c \<Longrightarrow> length (sleepers c) \<le> n"
  using cv_invD(2,4) [of n c] card_mono [of "{..<n}" "set (sleepers c)"] by (auto simp: distinct_card)

lemma drop_workI:
  assumes inv: "cv_inv n c" and thr: "length (threads (base c')) = n"
    and same: "stops (base c') = stops (base c)"
    and less: "sum_list (map thread_work (threads (base c'))) + 3 * length (pushes (base c')) + length (runq (sst (base c'))) +
        length (sleepers c) <
      sum_list (map thread_work (threads (base c))) + 3 * length (pushes (base c)) + length (runq (sst (base c))) +
        length (sleepers c')"
    and le: "length (sleepers c') \<le> n"
  shows "drop_work c' < drop_work c"
  using cv_invD(3) [OF inv] sleepers_bound [OF inv] thr same less le by (simp add: drop_work_def)

lemma empty_registry:
  assumes "token_inv s" "registry (sst s) = []"
  shows "runq (sst s) = []" and "pushes s = []" and "th \<in> set (threads s) \<Longrightarrow> \<not> executes t th"
proof -
  have "count_list (runq (sst s)) t = 0 \<and> count_list (pushes s) t = 0 \<and> executors t s = 0" for t
    using token_invD(2) [OF assms(1), of t] assms(2) by (simp add: tokens_def)
  then have z: "count_list (runq (sst s)) t = 0" "count_list (pushes s) t = 0" "executors t s = 0" for t by blast+
  show "runq (sst s) = []" using z(1) by (cases "runq (sst s)") (metis count_list_pos list.set_intros(1) less_irrefl)+
  show "pushes s = []" using z(2) by (cases "pushes s") (metis count_list_pos list.set_intros(1) less_irrefl)+
  show "th \<in> set (threads s) \<Longrightarrow> \<not> executes t th" using z(3) [of t] by (auto simp: executors_def filter_empty_conv)
qed

lemma drop_invD:
  assumes "drop_inv n c"
  shows "cv_inv n c" and "token_inv (base c)" and "stops (base c) = 2 \<Longrightarrow> registry (sst (base c)) = []"
    and "length (threads (base c)) = n" and "length (sleepers c) \<le> n"
  using assms cv_invD(3) sleepers_bound by (auto simp: drop_inv_def)

text \<open>A thread's turn: it gets further on its way, at the cost of what it takes from the run queue.\<close>

lemma drop_work_turn:
  assumes inv: "drop_inv n c" and i: "i < length (threads (base c))" and thr: "threads s' = (threads (base c))[i := th]"
    and same: "stops s' = stops (base c)" "pushes s' = pushes (base c)"
    and less: "thread_work th + length (runq (sst s')) < thread_work (threads (base c) ! i) + length (runq (sst (base c)))"
  shows "drop_work (c\<lparr>base := s'\<rparr>) < drop_work c"
proof -
  have "sum_list (map thread_work (threads s')) + thread_work (threads (base c) ! i) =
      sum_list (map thread_work (threads (base c))) + thread_work th"
    using i member_le_sum_list [of "thread_work (threads (base c) ! i)" "map thread_work (threads (base c))"]
    by (simp add: thr map_update sum_list_update)
  then show ?thesis using drop_invD [OF inv] thr same less by (intro drop_workI) auto
qed

lemma serve_works:
  assumes inv: "drop_inv n c" and no: "\<not> waits i (base c)" and st: "serve_step i (base c) = Some s'"
  shows "drop_work (c\<lparr>base := s'\<rparr>) < drop_work c"
proof -
  have lt: "i < length (threads (base c))" using st by (simp add: serve_step_def split: if_splits)
  note turn = drop_work_turn [OF inv lt]
  from st lt consider (run) ph where "threads (base c) ! i = TLoop ph" "s' = run_pop ph i (base c)" "loop_holds (TLoop ph) (base c)"
    | (leave) th where "threads (base c) ! i = TLoop Serving" "th \<in> {TDone, TSend}"
        "s' = set_thread i th (on_sst (\<lambda>st. st\<lparr>stopped := stopped (sst (base c)) + 1\<rparr>) (base c))"
    | (final) "threads (base c) ! i = TLoop Draining" "s' = set_thread i TFinal (base c)"
    | (send) "threads (base c) ! i = TSend" "s' = set_thread i (TLoop Draining) (base c)"
    by (auto simp: serve_step_def Let_def split: sched_thread.splits serve_phase.splits if_splits)
  then show ?thesis
  proof cases
    case run
    then obtain t q where "runq (sst (base c)) = t # q"
      using no lt by (cases "runq (sst (base c))") (simp_all add: waits_def)
    then show ?thesis using run by (intro turn [of _ "TExec ph t"]) (simp_all add: run_pop_def)
  next
    case leave
    then show ?thesis by (intro turn [of _ th]) auto
  next
    case final
    then show ?thesis by (intro turn [of _ TFinal]) simp_all
  next
    case send
    then show ?thesis by (intro turn [of _ "TLoop Draining"]) simp_all
  qed
qed

lemma sleep_works:
  assumes inv: "drop_inv n c" and i: "i \<notin> set (sleepers c)" and w: "waits i (base c)"
  shows "drop_work (c\<lparr>sleepers := sleepers c @ [i]\<rparr>) < drop_work c"
  using drop_invD [OF inv] sleepers_bound [OF sleep_cv [OF drop_invD(1) [OF inv] i w]] by (intro drop_workI) auto

lemma flow_works:
  assumes inv: "drop_inv n c" and st: "flow_step i (base c) = Some s'"
  shows "drop_work (c\<lparr>base := s'\<rparr>) < drop_work c"
proof -
  from st obtain ph t flow where i: "i < length (threads (base c))" "threads (base c) ! i = TFlow ph t flow"
      and s': "s' = set_thread i (TLoop ph) (on_sst (run_flow t flow) (base c))"
    by (auto simp: flow_step_def split: if_splits sched_thread.splits)
  have "length (runq (run_flow t flow (sst (base c)))) \<le> Suc (length (runq (sst (base c))))" by (cases flow) simp_all
  then show ?thesis using i(2) by (intro drop_work_turn [OF inv i(1), of _ "TLoop ph"]) (simp_all add: s')
qed

text \<open>In the final loop nothing is left to abort.\<close>

lemma final_empty:
  assumes inv: "drop_inv n c" and i: "i < length (threads (base c))" "in_final_loop (threads (base c) ! i)"
  shows "registry (sst (base c)) = []" and "runq (sst (base c)) = []"
proof -
  have "i < n" using i(1) drop_invD(4) [OF inv] by simp
  then have "stops (base c) = 2" using stop_invD(4) [OF cv_invD(1) [OF drop_invD(1) [OF inv]] _ i(2)] by simp
  then show reg: "registry (sst (base c)) = []" using drop_invD(3) [OF inv] by simp
  show "runq (sst (base c)) = []" using empty_registry(1) [OF drop_invD(2) [OF inv] reg] .
qed

lemma final_works:
  assumes inv: "drop_inv n c" and st: "final_step i (base c) = Some s'"
  shows "drop_work (c\<lparr>base := s'\<rparr>) < drop_work c"
proof -
  from st have i: "i < length (threads (base c))" "in_final_loop (threads (base c) ! i)"
    by (auto simp: final_step_def split: if_splits sched_thread.splits)
  note empty = final_empty [OF inv i]
  from st i(1) empty obtain th where "s' = set_thread i th (base c)" "thread_work th < thread_work (threads (base c) ! i)"
    by (auto simp: final_step_def split: sched_thread.splits)
  then show ?thesis by (intro drop_work_turn [OF inv i(1), of _ th]) simp_all
qed

lemma notify_one_length: "length is \<le> Suc (length (notify_one k is))"
  by (simp add: notify_one_def length_remove1)

lemma push_works:
  assumes inv: "drop_inv n c" and st: "push_step t (base c) = Some s'"
    and le: "length (notify_one k (sleepers c)) \<le> n"
  shows "drop_work (c\<lparr>base := s', sleepers := notify_one k (sleepers c)\<rparr>) < drop_work c"
proof -
  have t: "t \<in> set (pushes (base c))"
    and s': "s' = on_sst (sched_resume t) (base c\<lparr>pushes := remove1 t (pushes (base c))\<rparr>)"
    using st by (simp_all add: push_step_def split: if_splits)
  then have "length (pushes (base c)) = Suc (length (pushes s'))"
    using length_pos_if_in_set [OF t] by (simp add: length_remove1)
  then show ?thesis using drop_invD [OF inv] le notify_one_length [of "sleepers c" k]
    by (intro drop_workI) (simp_all add: s' sched_resume_def)
qed

lemma stop_works:
  assumes inv: "drop_inv n c" and st: "drop_step (base c) = Some s'"
  shows "drop_work (c\<lparr>base := s', sleepers := []\<rparr>) < drop_work c"
  using st drop_invD [OF inv] by (auto simp: drop_step_def sched_stop_def drop_work_def Let_def split: if_splits)

section \<open>The threads as a system that stops\<close>

lemma flow_registry: "registry st = [] \<Longrightarrow> registry (run_flow t flow st) = []"
  by (cases flow) simp_all

lemma joined_own_registry:
  assumes st: "joined_step op c = Some c'" and own: "scheduler_own op" and reg: "registry (sst (base c)) = []"
  shows "registry (sst (base c')) = []"
proof -
  have "cv_step op c = Some c'" using st by (simp add: joined_step_def split: if_splits)
  then show ?thesis using own reg
    by (cases op rule: scheduler_own.cases)
      (auto simp: serve_step_def run_pop_def flow_step_def flow_registry final_step_def push_step_def sched_resume_def drop_step_def
        sched_stop_def Let_def split: if_splits sched_thread.splits serve_phase.splits list.splits)
qed

lemma joined_own_registry_run:
  "run_steps joined_step ys c = Some c' \<Longrightarrow> list_all scheduler_own ys \<Longrightarrow> registry (sst (base c)) = [] \<Longrightarrow>
    registry (sst (base c')) = []"
  by (induction ys arbitrary: c) (auto split: option.splits dest: joined_own_registry)

lemma joined_stops:
  assumes "joined_step op c = Some c'" "scheduler_own op" "stops (base c') = 2"
  shows "stops (base c) = 2 \<or> registry (sst (base c)) = []"
  using assms
  by (cases op rule: scheduler_own.cases)
    (auto simp: joined_step_def serve_step_def run_pop_def flow_step_def final_step_def push_step_def drop_step_def grab_all_fields
      Let_def split: if_splits sched_thread.splits serve_phase.splits list.splits)

lemma joined_own_inv:
  assumes inv: "drop_inv n c" and own: "scheduler_own op" and st: "joined_step op c = Some c'"
  shows "drop_inv n c'"
proof -
  have cv: "cv_step op c = Some c'" using st by (simp add: joined_step_def split: if_splits)
  note next_cv = cv_step_inv [OF drop_invD(1) [OF inv] cv]
  have "token_inv (base c')" using next_cv drop_invD(2) [OF inv] rt_step_token by auto
  moreover have "stops (base c') = 2 \<longrightarrow> registry (sst (base c')) = []"
    using joined_stops [OF st own] joined_own_registry [OF st own] drop_invD(3) [OF inv] by blast
  ultimately show ?thesis using next_cv by (simp add: drop_inv_def)
qed

lemma joined_own_works:
  assumes inv: "drop_inv n c" and own: "scheduler_own op" and st: "joined_step op c = Some c'"
  shows "drop_work c' < drop_work c"
proof -
  have cv: "cv_step op c = Some c'" using st by (simp add: joined_step_def split: if_splits)
  have "length (sleepers c') \<le> n" using sleepers_bound cv_step_inv [OF drop_invD(1) [OF inv] cv] by blast
  then show ?thesis
    using cv own sleep_works [OF inv] serve_works [OF inv] flow_works [OF inv] final_works [OF inv] push_works [OF inv] stop_works [OF inv]
    by (cases op rule: scheduler_own.cases) (auto split: if_splits)
qed

text \<open>A thread that is neither done, nor asleep, nor in a task can take a turn.\<close>

lemma awake_goes_on:
  assumes inv: "drop_inv n c" and i: "i < length (threads (base c))" "threads (base c) ! i \<noteq> TDone" "i \<notin> set (sleepers c)"
    and no: "\<And>ph t. threads (base c) ! i \<noteq> TExec ph t"
  shows "\<exists>y. scheduler_own y \<and> joined_step y c \<noteq> None"
proof (cases "threads (base c) ! i")
  case (TFlow ph t flow)
  then show ?thesis using i by (intro exI [of _ "CvDo (RtFlow i) 0"]) (simp add: joined_step_def flow_step_def)
next
  case (TAborting t)
  have "t \<in> set (registry (sst (base c)))"
    using executes_token [OF drop_invD(2) [OF inv] i(1), of t] TAborting by simp
  then show ?thesis using final_empty(1) [OF inv i(1)] TAborting by simp
next
  case TFinal
  then show ?thesis using i by (intro exI [of _ "CvDo (RtFinal i) 0"]) (simp add: joined_step_def final_step_def)
next
  case TAborts
  then show ?thesis using i
    by (intro exI [of _ "CvDo (RtFinal i) 0"]) (simp add: joined_step_def final_step_def split: list.split)
next
  case (TLoop ph)
  then show ?thesis using i
    by (intro exI [of _ "CvDo (RtServe i) 0"]) (cases ph; simp add: joined_step_def serve_step_def Let_def)
next
  case TSend
  then show ?thesis using i by (intro exI [of _ "CvDo (RtServe i) 0"]) (simp add: joined_step_def serve_step_def waits_def)
qed (use i no in simp_all)

text \<open>Threads do not all sleep over a queued task, and do not sleep where the drop cannot stop them.\<close>

lemma asleep_goes_on:
  assumes inv: "drop_inv n c" and i: "i \<in> set (sleepers c)"
    and all: "\<And>j. j < length (threads (base c)) \<Longrightarrow> threads (base c) ! j = TDone \<or> j \<in> set (sleepers c)"
    and no: "\<not> awaits_tasks c"
  shows "\<exists>y. scheduler_own y \<and> joined_step y c \<noteq> None"
proof (cases "pushes (base c)")
  case (Cons t q)
  then show ?thesis by (intro exI [of _ "CvDo (RtPush t) 0"]) (simp add: joined_step_def push_step_def)
next
  case Nil
  note cv = drop_invD(1) [OF inv] and n = drop_invD(4) [OF inv]
  have "lookers c = {}" using all by (force simp: lookers_def)
  then have q: "runq (sst (base c)) = []" using cv_invD(6) [OF cv] i by (cases "sleepers c") auto
  note holds = cv_invD(4,5) [OF cv i]
  have "stops (base c) = 0 \<or> stops (base c) = 1 \<and> registry (sst (base c)) = [] \<and> list_ex stop_sent (threads (base c))"
  proof (cases "threads (base c) ! i = TLoop Serving")
    case True
    then show ?thesis using holds cv_invD(1) [OF cv] length_filter_le [of serving "threads (base c)"]
      by (auto simp: stop_inv_def Let_def)
  next
    case False
    then have d: "threads (base c) ! i = TLoop Draining" using holds(2) by (cases "(threads (base c) ! i, base c)" rule: loop_holds.cases) auto
    then have "stops (base c) = 1" using holds n cv_invD(1) [OF cv] by (auto simp: stop_inv_def Let_def)
    moreover have "registry (sst (base c)) = []"
      using no calculation q Nil all by (auto simp: awaits_tasks_def list_all_iff)
    moreover have "list_ex stop_sent (threads (base c))" using d holds(1) n nth_mem [of i "threads (base c)"] by (force simp: list_ex_iff)
    ultimately show ?thesis by blast
  qed
  then show ?thesis by (intro exI [of _ "CvDo RtDrop 0"]) (auto simp: joined_step_def drop_step_def)
qed

lemma drop_goes_on:
  assumes inv: "drop_inv n c" and on: "\<not> (all_done c \<or> awaits_tasks c)"
  shows "\<exists>y. scheduler_own y \<and> joined_step y c \<noteq> None"
proof -
  obtain i where i: "i < length (threads (base c))" "threads (base c) ! i \<noteq> TDone"
    using on by (auto simp: all_done_def list_all_length)
  have no: "threads (base c) ! j \<noteq> TExec ph t" if "j < length (threads (base c))" for j ph t
    using on that by (auto simp: awaits_tasks_def list_ex_length)
  show ?thesis
  proof (cases "\<exists>j < length (threads (base c)). threads (base c) ! j \<noteq> TDone \<and> j \<notin> set (sleepers c)")
    case True
    then show ?thesis using awake_goes_on [OF inv] no by blast
  next
    case False
    then show ?thesis using asleep_goes_on [OF inv, of i] i on by blast
  qed
qed

interpretation dl: stopping_loop joined_step scheduler_own "drop_inv n" "\<lambda>c. all_done c \<or> awaits_tasks c" drop_work for n
  by unfold_locales (use joined_own_inv joined_own_works drop_goes_on in blast)+

section \<open>Property\<close>

lemma drop_inv_run:
  assumes "run_steps cv_step ops (cv_new n) = Some c" "stops (base c) < 2 \<or> registry (sst (base c)) = []"
  shows "drop_inv n c"
proof -
  have new: "cv_inv n (cv_new n) \<and> token_inv (base (cv_new n))"
    by (intro conjI cv_inv_new) (simp add: cv_new_def token_inv_new)
  have step: "cv_inv n c' \<and> token_inv (base c')"
    if "cv_inv n c \<and> token_inv (base c)" "cv_step x c = Some c'" for x and c c' :: "'a cv_sys"
    using cv_step_inv [OF conjunct1 [OF that(1)] that(2)] that(1) rt_step_token by auto
  have "cv_inv n c \<and> token_inv (base c)"
    by (rule run_steps_inv [where I = "\<lambda>c. cv_inv n c \<and> token_inv (base c)" and step = cv_step, OF _ assms(1) new]) (rule step)
  then show ?thesis using assms(2) by (auto simp: drop_inv_def)
qed

lemma awaits_registered:
  assumes inv: "drop_inv n c" and aw: "awaits_tasks c"
  shows "registry (sst (base c)) \<noteq> []"
proof
  assume reg: "registry (sst (base c)) = []"
  then obtain ph t where "TExec ph t \<in> set (threads (base c))"
    using aw by (auto simp: awaits_tasks_def list_ex_iff split: sched_thread.splits)
  then show False using empty_registry(3) [OF drop_invD(2) [OF inv] reg, of _ t] by fastforce
qed

text \<open>
  C12. The drop of a runtime joins its threads. Whatever happened before, with threads asleep, queued
  tasks and the drop at any point: as long as the second stop comes after the tasks, what the threads
  do by themselves is bounded in number, some of it leads to an end, and short of an end something of
  it can be done. At an end all threads have returned, or they wait for a task; when no task is left,
  they have returned.
\<close>

theorem dropped_runtime_stops:
  assumes "run_steps cv_step ops (cv_new n) = Some c" "stops (base c) < 2 \<or> registry (sst (base c)) = []"
  shows "(\<exists>ys c'. list_all scheduler_own ys \<and> run_steps joined_step ys c = Some c' \<and> (all_done c' \<or> awaits_tasks c')) \<and>
    (\<forall>ys c'. list_all scheduler_own ys \<and> run_steps joined_step ys c = Some c' \<longrightarrow>
      length ys \<le> drop_work c \<and>
      (registry (sst (base c)) = [] \<longrightarrow> \<not> awaits_tasks c') \<and>
      (all_done c' \<or> awaits_tasks c' \<or> (\<exists>y. scheduler_own y \<and> joined_step y c' \<noteq> None)))"
proof -
  note inv = drop_inv_run [OF assms]
  have "length ys \<le> drop_work c \<and> (registry (sst (base c)) = [] \<longrightarrow> \<not> awaits_tasks c') \<and>
      (all_done c' \<or> awaits_tasks c' \<or> (\<exists>y. scheduler_own y \<and> joined_step y c' \<noteq> None))"
    if ys: "list_all scheduler_own ys" "run_steps joined_step ys c = Some c'" for ys c'
  proof -
    note inv' = dl.run_inv [OF ys(2,1) inv]
    show ?thesis using dl.run_bounded [OF ys(2,1) inv] awaits_registered [OF inv'] joined_own_registry_run [OF ys(2,1)]
        drop_goes_on [OF inv'] by auto
  qed
  then show ?thesis using dl.run_ends [OF inv] by blast
qed

text \<open>One thread sleeps, the other runs a task that ends, and sleeps too. Then the drop, and the turns to its end.\<close>

definition served :: "unit cv_op list" where
  "served = [CvDo (RtServe 1) 0, CvDo (RtSpawn 1 10) 0, CvDo (RtServe 0) 0,
    CvDo (RtExec 0 (\<lambda>y. True) [[AMainReturns]] [] [([], [])] [AComplete]) 0, CvDo (RtFlow 0) 0, CvDo (RtServe 0) 0]"

definition dropping :: "unit cv_op list" where
  "dropping = [CvDo RtDrop 0, CvDo (RtServe 0) 0, CvDo (RtServe 1) 0, CvDo (RtServe 1) 0, CvDo (RtServe 1) 0,
    CvDo RtDrop 0, CvDo (RtServe 1) 0, CvDo (RtFinal 1) 0]"

lemma dropped_runtime_stops_witness:
  "\<exists>c c'. run_steps cv_step served (cv_new 2) = Some c \<and> sleepers c = [0] \<and> run_steps joined_step dropping c = Some c' \<and>
    all_done c' \<and> \<not> awaits_tasks c' \<and> 8 \<le> drop_work c"
proof -
  have served: "map_option (\<lambda>c. (stops (base c), registry (sst (base c)), sleepers c)) (run_steps cv_step served (cv_new 2)) =
      Some (0, [], [0])"
    by (simp add: served_def cv_new_def waits_def notify_one_def rt_simps eval_nat_numeral)
  then obtain c where c: "run_steps cv_step served (cv_new 2) = Some c" "stops (base c) = 0" "registry (sst (base c)) = []"
      "sleepers c = [0]" by auto
  have "map_option (\<lambda>c. map_option (\<lambda>c. threads (base c)) (run_steps joined_step dropping c)) (run_steps cv_step served (cv_new 2)) =
      Some (Some [TDone, TDone])"
    by (simp add: served_def dropping_def joined_step_def cv_new_def waits_def notify_one_def rt_simps drop_step_def
        sched_stop_def final_step_def eval_nat_numeral)
  then obtain c' where c': "run_steps joined_step dropping c = Some c'" "all_done c'" using c(1) by (auto simp: all_done_def)
  have "list_all scheduler_own dropping" "length dropping = 8" "stops (base c) < 2 \<or> registry (sst (base c)) = []"
    using c(2) by (simp_all add: dropping_def)
  then show ?thesis using dropped_runtime_stops [OF c(1)] c c' by metis
qed

end
