(* ===== verification/Readiness.thy ===== *)
theory Readiness
  imports Net_Correct
begin

text \<open>
  Sockets with an edge-triggered poll, the channels of their notices, and the loops that read and
  write (\<open>net/mod.rs\<close> and \<open>net/tcp.rs\<close> together). A poll reports a socket once after it has become
  ready; who waits for a notice is not to miss it. The model puts the registry and its thread, as
  in \<open>Net\<close>, next to the readiness of the sockets, known by their notices.
\<close>

section \<open>The world of a registry\<close>

text \<open>
  \<open>ready\<close> is what the system knows, \<open>edges\<close> are the sockets it has to report, \<open>queued\<close> the notices in a
  channel. \<open>armed\<close> directions have not been found ready, nor noticed, since the last call that would
  block or the registration; \<open>receiving\<close> ones are waiting in \<open>recv\<close>.
\<close>

record net_world =
  net :: net_sys
  ready :: "notice \<Rightarrow> bool"
  edges :: "nat \<Rightarrow> bool"
  queued :: "notice \<Rightarrow> nat"
  armed :: "notice \<Rightarrow> bool"
  receiving :: "notice \<Rightarrow> bool"

definition net_world_new :: net_world where
  "net_world_new = \<lparr>net = net_sys_new, ready = (\<lambda>_. False), edges = (\<lambda>_. False), queued = (\<lambda>_. 0),
    armed = (\<lambda>_. False), receiving = (\<lambda>_. False)\<rparr>"

text \<open>The channels that come with an entry, and whether a socket that the poll knows has one.\<close>

fun entry_notices :: "net_entry \<Rightarrow> notice list" where
  "entry_notices (Reader src) = [NoticeReadable src]"
| "entry_notices (Stream src) = [NoticeReadable src, NoticeWritable src]"

definition covers :: "net_sys \<Rightarrow> notice \<Rightarrow> bool" where
  "covers s n \<longleftrightarrow>
    (case polled s (notice_source n) of
       None \<Rightarrow> False
     | Some key \<Rightarrow> (case slab (net_registry s) key of None \<Rightarrow> False | Some e \<Rightarrow> n \<in> set (entry_notices e)))"

abbreviation both_ways :: "nat \<Rightarrow> notice list" where
  "both_ways src \<equiv> [NoticeReadable src, NoticeWritable src]"

definition reports :: "net_event \<Rightarrow> notice \<Rightarrow> bool" where
  "reports ev n \<longleftrightarrow> n \<in> set (wake_entry (Stream (notice_source n)) ev)"

text \<open>
  What is relied on: an edge-triggered poll reports sockets that have become ready, with all they are
  ready for at that moment; and a socket is deregistered by its owner, who is not waiting for it.
\<close>

fun net_fair :: "net_op \<Rightarrow> net_world \<Rightarrow> bool" where
  "net_fair (NetPoll evs) w \<longleftrightarrow>
    list_all (\<lambda>(src, ev). case src of None \<Rightarrow> True
      | Some x \<Rightarrow> edges w x \<and> list_all (\<lambda>n. ready w n \<longrightarrow> reports ev n) (both_ways x)) evs"
| "net_fair (NetDeregister src) w \<longleftrightarrow> list_all (\<lambda>n. \<not> receiving w n) (both_ways src)"
| "net_fair _ w \<longleftrightarrow> True"

text \<open>A channel of notices is \<open>bounded(2)\<close>, and \<open>try_send\<close> into a full one is ignored.\<close>

definition notice_bound :: nat where
  "notice_bound = 2"

definition notified :: "notice list \<Rightarrow> notice \<Rightarrow> nat \<Rightarrow> nat" where
  "notified ns n k = min notice_bound (k + count_list ns n)"

text \<open>A registration reports at once what the socket is ready for, and makes new channels.\<close>

fun after_net :: "net_op \<Rightarrow> net_sys \<Rightarrow> net_world \<Rightarrow> net_world" where
  "after_net (NetRegister src ok) s w =
    (if ok then w\<lparr>net := s, edges := (edges w)(src := list_ex (ready w) (both_ways src)),
       queued := (\<lambda>n. if notice_source n = src then 0 else queued w n),
       armed := (\<lambda>n. notice_source n = src \<or> armed w n)\<rparr>
     else w\<lparr>net := s\<rparr>)"
| "after_net (NetPoll evs) s w = w\<lparr>net := s, edges := (\<lambda>x. edges w x \<and> Some x \<notin> fst ` set evs)\<rparr>"
| "after_net NetWake s w =
    w\<lparr>net := s, queued := (\<lambda>n. notified (map snd (drop (length (notices (net w))) (notices s))) n (queued w n))\<rparr>"
| "after_net _ s w = w\<lparr>net := s\<rparr>"

datatype world_op =
    WorldNet net_op
  | Becomes notice            \<comment> \<open>ready for reading or writing\<close>
  | Calls notice bool         \<comment> \<open>of the system, which may leave more\<close>
  | AwaitsFirst notice        \<comment> \<open>the \<open>recv\<close> of \<open>TcpStream::new\<close>, which makes no call before\<close>
  | Receives notice

fun world_step :: "world_op \<Rightarrow> net_world \<Rightarrow> net_world option" where
  "world_step (WorldNet x) w =
    (if net_fair x w then map_option (\<lambda>s. after_net x s w) (net_step x (net w)) else None)"
| "world_step (Becomes n) w =
    Some (w\<lparr>ready := (ready w)(n := True),
      edges := (edges w)(notice_source n := edges w (notice_source n) \<or> polled (net w) (notice_source n) \<noteq> None)\<rparr>)"
| "world_step (Calls n left) w =
    (if \<not> covers (net w) n \<or> receiving w n then None
     else if ready w n then Some (w\<lparr>ready := (ready w)(n := left), armed := (armed w)(n := False)\<rparr>)
     else Some (w\<lparr>armed := (armed w)(n := True), receiving := (receiving w)(n := True)\<rparr>))"
| "world_step (AwaitsFirst n) w =
    (if covers (net w) n \<and> armed w n \<and> \<not> receiving w n then Some (w\<lparr>receiving := (receiving w)(n := True)\<rparr>) else None)"
| "world_step (Receives n) w =
    (if receiving w n \<and> 0 < queued w n
     then Some (w\<lparr>queued := (queued w)(n := queued w n - 1), armed := (armed w)(n := False),
       receiving := (receiving w)(n := False)\<rparr>)
     else None)"

section \<open>The slab under a polled socket\<close>

lemma polled_slab:
  assumes inv: "net_inv s" and st: "net_step x s = Some s'" and p: "polled s src = Some key" and p': "polled s' src = Some key'"
  shows "key' = key \<and> slab (net_registry s') key = slab (net_registry s) key"
proof -
  have tok: "tokens_ok s" using inv by (simp add: net_inv_def)
  have h: "holds_token s src key" using p by (simp add: holds_token_def)
  have here: "entry_of s key = Some src" "key \<notin> set (unused (net_registry s))" using tokens_okD(1) [OF tok h] by simp_all
  show ?thesis
  proof (cases x)
    case (NetEnter k e)
    then show ?thesis using st p p' here(1) by (auto simp: register_entry_def entry_of_def split: if_splits)
  next
    case (NetRegister y ok)
    then obtain k where k: "registering s y = Some k" using st by (auto split: option.splits)
    then have "y \<noteq> src" using tokens_okD(2) [OF tok, of src] p by (auto simp: one_place_def)
    moreover have "k \<noteq> key" using token_holder_unique [OF tok h, of y] k \<open>y \<noteq> src\<close> by (auto simp: holds_token_def)
    ultimately show ?thesis using st p p' k NetRegister by (auto simp: unregister_entry_def split: if_splits)
  next
    case NetWake
    then obtain evs where b: "batch s = Some evs" using st by (auto split: option.splits)
    have "free_loop (unused (net_registry s)) ((net_registry s)\<lparr>unused := []\<rparr>) =
        Some ((net_registry s)\<lparr>unused := [], slab := (\<lambda>k. if k \<in> set (unused (net_registry s)) then None else slab (net_registry s) k)\<rparr>)"
      using free_loop_ok [OF tokens_okD(3) [OF tok], of "(net_registry s)\<lparr>unused := []\<rparr>"] tokens_okD(4) [OF tok]
      by (simp add: entry_of_def cong: if_cong)
    then show ?thesis using st p p' here(2) b NetWake
      by (auto simp: wake_events_def Let_def split: prod.splits cong: if_cong)
  qed (use st p p' in \<open>auto simp: deregister_token_def split: option.splits if_splits\<close>)
qed

lemma covers_kept:
  assumes "net_inv s" "net_step x s = Some s'" "polled s (notice_source n) \<noteq> None" "polled s' (notice_source n) \<noteq> None"
  shows "covers s' n = covers s n"
  using assms polled_slab by (fastforce simp: covers_def split: option.split)

lemma newly_polled:
  assumes "net_step x s = Some s'" "polled s src = None" "polled s' src \<noteq> None"
  shows "x = NetRegister src True"
  using assms by (cases x) (auto split: if_splits option.splits)

section \<open>The batch of a poll\<close>

text \<open>What a batch holds for a polled socket carries its token.\<close>

definition batch_of :: "net_sys \<Rightarrow> (nat \<times> net_event) set" where
  "batch_of s = {(src, ev). \<exists>evs. batch s = Some evs \<and> (Some src, ev) \<in> set evs}"

definition batch_inv :: "net_sys \<Rightarrow> bool" where
  "batch_inv s \<longleftrightarrow> (\<forall>(src, ev)\<in>batch_of s. src \<in> set (sockets s) \<and> registering s src = None \<and>
    (\<forall>key. polled s src = Some key \<longrightarrow> key = ev_token ev))"

lemma batch_invD:
  assumes "batch_inv s" "(src, ev) \<in> batch_of s"
  shows "src \<in> set (sockets s)" and "registering s src = None" and "polled s src = Some key \<Longrightarrow> ev_token ev = key"
  using assms by (auto simp: batch_inv_def)

lemma batch_invI:
  assumes "\<And>src ev. (src, ev) \<in> batch_of s \<Longrightarrow> src \<in> set (sockets s)"
    and "\<And>src ev. (src, ev) \<in> batch_of s \<Longrightarrow> registering s src = None"
    and "\<And>src ev key. (src, ev) \<in> batch_of s \<Longrightarrow> polled s src = Some key \<Longrightarrow> ev_token ev = key"
  shows "batch_inv s"
  using assms by (fastforce simp: batch_inv_def)

lemma batch_inv_shrinks:
  assumes "batch_inv s" "batch_of s' \<subseteq> batch_of s" "set (sockets s) \<subseteq> set (sockets s')"
    and "\<And>src. src \<in> set (sockets s) \<Longrightarrow> registering s src = None \<Longrightarrow>
      registering s' src = None \<and> (polled s' src = polled s src \<or> polled s' src = None)"
  shows "batch_inv s'"
proof (rule batch_invI)
  fix src ev assume "(src, ev) \<in> batch_of s'"
  then have b: "(src, ev) \<in> batch_of s" using assms(2) by blast
  note d = batch_invD [OF assms(1) b] and k = assms(4) [OF batch_invD(1,2) [OF assms(1) b]]
  show "src \<in> set (sockets s')" "registering s' src = None" using d k assms(3) by auto
  show "ev_token ev = key" if "polled s' src = Some key" for key using that d(3) k by auto
qed

lemma batch_inv_step:
  assumes inv: "net_inv s" and b: "batch_inv s" and st: "net_step x s = Some s'"
  shows "batch_inv s'"
proof (cases x)
  case (NetEnter key e)
  then show ?thesis using st by (intro batch_inv_shrinks [OF b]) (auto simp: batch_of_def split: if_splits)
next
  case (NetRegister src ok)
  then show ?thesis using st
    by (intro batch_inv_shrinks [OF b]) (auto simp: batch_of_def split: if_splits option.splits)
next
  case (NetDeregister src)
  then show ?thesis using st by (intro batch_inv_shrinks [OF b]) (auto simp: batch_of_def split: option.splits if_splits)
next
  case (NetHandOver src)
  then show ?thesis using st by (intro batch_inv_shrinks [OF b]) (auto simp: batch_of_def split: option.splits)
next
  case NetWake
  then show ?thesis using st by (intro batch_inv_shrinks [OF b]) (auto simp: batch_of_def split: option.splits)
next
  case (NetPoll evs)
  then have s': "s' = s\<lparr>batch := Some evs\<rparr>" and r: "list_all (raised s) evs" using st by (auto split: if_splits)
  have polled: "polled s src = Some (ev_token ev)" if "(src, ev) \<in> batch_of s'" for src ev
    using that r by (auto simp: batch_of_def s' list_all_iff)
  have tok: "tokens_ok s" using inv by (simp add: net_inv_def)
  show ?thesis
  proof (rule batch_invI)
    fix src ev assume "(src, ev) \<in> batch_of s'"
    then have h: "holds_token s src (ev_token ev)" using polled by (simp add: holds_token_def)
    show "src \<in> set (sockets s')" using tokens_okD(1) [OF tok h] by (simp add: s')
    show "registering s' src = None"
      using tokens_okD(2) [OF tok, of src] polled [OF \<open>(src, ev) \<in> batch_of s'\<close>] by (auto simp: one_place_def s')
  qed (use polled in \<open>simp add: s'\<close>)
qed

text \<open>An event of the batch is delivered to the channel of the polled socket.\<close>

lemma wake_loop_delivers:
  "(Some src, ev) \<in> set evs \<Longrightarrow> ev_token ev \<noteq> WAKER_TOKEN \<Longrightarrow> m (ev_token ev) = Some e \<Longrightarrow> n \<in> set (wake_entry e ev) \<Longrightarrow>
    n \<in> snd ` set (snd (wake_loop m evs))"
proof (induction evs)
  case (Cons x evs)
  show ?case
  proof (cases "x = (Some src, ev)")
    case True
    then show ?thesis using Cons.prems by (force simp: Let_def split: prod.splits)
  next
    case False
    then have "n \<in> snd ` set (snd (wake_loop m evs))" using Cons by simp
    then show ?thesis by (cases x) (force simp: Let_def split: prod.splits option.splits)
  qed
qed simp

lemma reports_entry: "reports ev n \<Longrightarrow> n \<in> set (entry_notices e) \<Longrightarrow> n \<in> set (wake_entry e ev)"
  by (cases e) (auto simp: reports_def check_readable_def check_writable_def split: if_splits)

lemma batch_delivered:
  assumes inv: "net_inv s" and b: "batch_inv s" and c: "covers s n"
    and ev: "(notice_source n, ev) \<in> batch_of s" "reports ev n" and st: "net_step NetWake s = Some s'"
  shows "n \<in> set (map snd (drop (length (notices s)) (notices s')))"
proof -
  obtain evs where evs: "batch s = Some evs" "(Some (notice_source n), ev) \<in> set evs" using ev by (auto simp: batch_of_def)
  obtain key e where k: "polled s (notice_source n) = Some key" "slab (net_registry s) key = Some e" "n \<in> set (entry_notices e)"
    using c by (auto simp: covers_def split: option.splits)
  have "holds_token s (notice_source n) key" using k(1) by (simp add: holds_token_def)
  then have "key < 2 ^ 63" using tokens_okD(1) inv unfolding net_inv_def by blast
  then have "ev_token ev = key" "key \<noteq> WAKER_TOKEN" using batch_invD(3) [OF b ev(1) k(1)] by (simp_all add: WAKER_TOKEN_def)
  then have "n \<in> snd ` set (snd (wake_loop (slab (net_registry s)) evs))"
    using wake_loop_delivers [OF evs(2) _ _ reports_entry [OF ev(2) k(3)]] k(2) by simp
  moreover have "notices s' = notices s @ snd (wake_loop (slab (net_registry s)) evs)"
    using st evs(1) by (auto simp: wake_events_def Let_def split: prod.splits option.splits)
  ultimately show ?thesis by simp
qed

section \<open>No readiness is lost\<close>

text \<open>Where the notice of a direction is on its way.\<close>

definition on_its_way :: "net_world \<Rightarrow> notice \<Rightarrow> bool" where
  "on_its_way w n \<longleftrightarrow> 0 < queued w n \<or> edges w (notice_source n) \<or>
    (\<exists>ev. (notice_source n, ev) \<in> batch_of (net w) \<and> reports ev n)"

definition world_inv :: "net_world \<Rightarrow> bool" where
  "world_inv w \<longleftrightarrow> net_inv (net w) \<and> batch_inv (net w) \<and>
    (\<forall>n. receiving w n \<longrightarrow> covers (net w) n \<and> armed w n) \<and>
    (\<forall>n. covers (net w) n \<and> armed w n \<and> ready w n \<longrightarrow> on_its_way w n)"

lemma world_invD:
  assumes "world_inv w"
  shows "net_inv (net w)" "batch_inv (net w)" "receiving w n \<Longrightarrow> covers (net w) n" "receiving w n \<Longrightarrow> armed w n"
    and "covers (net w) n \<Longrightarrow> armed w n \<Longrightarrow> ready w n \<Longrightarrow> on_its_way w n"
  using assms by (simp_all add: world_inv_def)

lemma world_invI:
  assumes "net_inv (net w)" "batch_inv (net w)"
    and "\<And>n. receiving w n \<Longrightarrow> covers (net w) n \<and> armed w n"
    and "\<And>n. covers (net w) n \<Longrightarrow> armed w n \<Longrightarrow> ready w n \<Longrightarrow> on_its_way w n"
  shows "world_inv w"
  using assms by (simp add: world_inv_def)

lemma covers_polled: "covers s n \<Longrightarrow> polled s (notice_source n) \<noteq> None"
  by (auto simp: covers_def split: option.splits)

lemma both_ways_iff: "n \<in> set (both_ways src) \<longleftrightarrow> notice_source n = src"
  by (cases n) auto

text \<open>Operations on one direction.\<close>

lemma becomes_ok: "world_inv w \<Longrightarrow> world_inv (w\<lparr>ready := (ready w)(n := True),
      edges := (edges w)(notice_source n := edges w (notice_source n) \<or> polled (net w) (notice_source n) \<noteq> None)\<rparr>)"
  using world_invD covers_polled by (intro world_invI) (fastforce simp: on_its_way_def split: if_splits)+

lemma world_inv_other:
  assumes inv: "world_inv w" and same: "net w' = net w" "edges w' = edges w"
    and "\<And>m. receiving w' m \<Longrightarrow> covers (net w) m \<and> armed w' m"
    and more: "\<And>m. armed w' m \<Longrightarrow> ready w' m \<Longrightarrow> armed w m \<and> ready w m \<and> queued w m \<le> queued w' m"
  shows "world_inv w'"
proof (rule world_invI)
  show "on_its_way w' m" if "covers (net w') m" "armed w' m" "ready w' m" for m
  proof -
    have "on_its_way w m" using that more world_invD(5) [OF inv] same by simp
    then show ?thesis using more [OF that(2,3)] by (auto simp: on_its_way_def same)
  qed
qed (use assms world_invD [OF inv] in simp_all)

lemma direction_ok:
  assumes inv: "world_inv w" and st: "world_step x w = Some w'" and x: "x = Calls n left \<or> x = AwaitsFirst n \<or> x = Receives n"
  shows "world_inv w'"
  using x st world_invD(3,4) [OF inv]
  by (intro world_inv_other [OF inv]) (auto split: if_splits)

text \<open>Operations on the registry.\<close>

lemma covers_before:
  assumes inv: "world_inv w" and st: "net_step x (net w) = Some s'" and c: "covers s' n"
    and new: "x \<noteq> NetRegister (notice_source n) True"
  shows "covers (net w) n"
proof -
  have "polled s' (notice_source n) \<noteq> None" by (rule covers_polled [OF c])
  then show ?thesis using newly_polled [OF st] new covers_kept [OF world_invD(1) [OF inv] st] c by blast
qed

lemma covers_after:
  assumes inv: "world_inv w" and st: "net_step x (net w) = Some s'" and c: "covers (net w) n"
    and gone: "x \<noteq> NetDeregister (notice_source n)"
  shows "covers s' n"
proof -
  have "polled s' (notice_source n) \<noteq> None"
    using covers_polled [OF c] st gone by (cases x) (auto split: if_splits option.splits)
  then show ?thesis using covers_kept [OF world_invD(1) [OF inv] st covers_polled [OF c]] c by blast
qed

text \<open>A notice on its way stays so: the poll takes the edge into its batch, the batch goes to the channel.\<close>

lemma on_its_way_net:
  assumes inv: "world_inv w" and fair: "net_fair x w" and st: "net_step x (net w) = Some s"
    and new: "x \<noteq> NetRegister (notice_source n) True"
    and way: "on_its_way w n" "covers (net w) n" "ready w n"
  shows "on_its_way (after_net x s w) n"
proof (cases x)
  case (NetPoll evs)
  have b: "batch s = Some evs" "batch (net w) = None" using st NetPoll by (auto split: if_splits)
  show ?thesis
  proof (cases "Some (notice_source n) \<in> fst ` set evs \<and> queued w n = 0")
    case True
    then obtain ev where ev: "(Some (notice_source n), ev) \<in> set evs" by auto
    then have "reports ev n" using fair way(3) NetPoll by (cases n) (auto simp: list_all_iff)
    then show ?thesis using ev b NetPoll by (auto simp: on_its_way_def batch_of_def)
  next
    case False
    then show ?thesis using way(1) b NetPoll by (auto simp: on_its_way_def batch_of_def)
  qed
next
  case NetWake
  show ?thesis
  proof (cases "\<exists>ev. (notice_source n, ev) \<in> batch_of (net w) \<and> reports ev n")
    case True
    then have "n \<in> set (map snd (drop (length (notices (net w))) (notices s)))"
      using batch_delivered [OF world_invD(1,2) [OF inv] way(2)] st NetWake by blast
    then have "0 < count_list (map snd (drop (length (notices (net w))) (notices s))) n"
      using count_list_0_iff [of _ n] by (simp only: neq0_conv [symmetric]) blast
    then show ?thesis using NetWake by (simp add: on_its_way_def notified_def notice_bound_def)
  next
    case False
    then show ?thesis using way(1) NetWake by (auto simp: on_its_way_def notified_def notice_bound_def)
  qed
next
  case (NetRegister src ok)
  then show ?thesis using way(1) st new
    by (auto simp: on_its_way_def batch_of_def split: option.splits if_splits)
qed (use way(1) st in \<open>auto simp: on_its_way_def batch_of_def split: option.splits if_splits\<close>)

lemma net_ok:
  assumes inv: "world_inv w" and fair: "net_fair x w" and st: "net_step x (net w) = Some s"
  shows "world_inv (after_net x s w)"
proof -
  let ?w = "after_net x s w"
  have net: "net ?w = s" by (cases x) auto
  have rec: "receiving ?w = receiving w" "ready ?w = ready w" by (cases x; auto)+
  show ?thesis
  proof (rule world_invI)
    show "net_inv (net ?w)" "batch_inv (net ?w)"
      using net net_step_ok batch_inv_step world_invD(1,2) [OF inv] st by simp_all
  next
    fix n assume "receiving ?w n"
    then have r: "covers (net w) n" "armed w n" "receiving w n" using rec world_invD [OF inv] by simp_all
    have "x \<noteq> NetDeregister (notice_source n)" using fair r(3) both_ways_iff [of n "notice_source n"] by (cases n) auto
    then have "covers s n" by (rule covers_after [OF inv st r(1)])
    moreover have "armed ?w n" using r(2) by (cases x) auto
    ultimately show "covers (net ?w) n \<and> armed ?w n" using net by simp
  next
    fix n assume n: "covers (net ?w) n" "armed ?w n" "ready ?w n"
    show "on_its_way ?w n"
    proof (cases "x = NetRegister (notice_source n) True")
      case True
      then have "edges ?w (notice_source n)" using n(3) rec by (cases n) simp_all
      then show ?thesis by (simp add: on_its_way_def)
    next
      case False
      have "covers (net w) n" using covers_before [OF inv st _ False] n(1) net by simp
      moreover have "armed w n" using n(2) False by (cases x) (auto split: if_splits)
      ultimately have "on_its_way w n" using world_invD(5) [OF inv] n(3) rec by simp
      then show ?thesis using on_its_way_net [OF inv fair st False] \<open>covers (net w) n\<close> n(3) rec by simp
    qed
  qed
qed

lemma world_step_ok: "world_inv w \<Longrightarrow> world_step x w = Some w' \<Longrightarrow> world_inv w'"
proof (cases x)
  case (WorldNet y)
  assume "world_inv w" "world_step x w = Some w'"
  then show ?thesis using net_ok [of w y] WorldNet by (auto split: if_splits)
next
  case (Becomes n)
  assume "world_inv w" "world_step x w = Some w'"
  then show ?thesis using becomes_ok [of w n] Becomes by simp
qed (use direction_ok in blast)+

lemma world_inv_new: "world_inv net_world_new"
  using net_inv_new by (intro world_invI) (simp_all add: net_world_new_def covers_def net_sys_new_def batch_inv_def batch_of_def)

section \<open>The poller brings it\<close>

fun polling :: "world_op \<Rightarrow> bool" where
  "polling (WorldNet (NetPoll evs)) = True"
| "polling (WorldNet NetWake) = True"
| "polling _ = False"

text \<open>The poller has stopped, or is about to, with the stop in its batch.\<close>

definition net_stopping :: "net_sys \<Rightarrow> bool" where
  "net_stopping s \<longleftrightarrow> net_stopped s \<or>
    (case batch s of None \<Rightarrow> False | Some evs \<Rightarrow> fst (wake_loop (slab (net_registry s)) evs))"

lemma wake_taken:
  assumes inv: "world_inv w" and b: "batch (net w) \<noteq> None"
  obtains w' where "world_step (WorldNet NetWake) w = Some w'" "world_inv w'" "batch (net w') = None" "edges w' = edges w"
    "receiving w' = receiving w" "\<not> net_stopping (net w) \<Longrightarrow> \<not> net_stopped (net w')"
proof -
  obtain evs where evs: "batch (net w) = Some evs" using b by auto
  obtain s where s: "net_step NetWake (net w) = Some s" using net_wake_ok [OF world_invD(1) [OF inv] evs] by blast
  then have "batch s = None" "net_stopped s = fst (wake_loop (slab (net_registry (net w))) evs)"
    using evs by (auto simp: wake_events_def Let_def split: prod.splits option.splits)
  moreover have "world_step (WorldNet NetWake) w = Some (after_net NetWake s w)" using s by (simp del: net_step.simps)
  moreover have "world_inv (after_net NetWake s w)" by (rule net_ok [OF inv _ s]) simp
  ultimately show thesis using evs by (intro that [of "after_net NetWake s w"]) (simp_all add: net_stopping_def)
qed

lemma full_event_reports:
  "reports \<lparr>ev_token = key, ev_readable = True, ev_writable = True, ev_error = False, ev_read_closed = False, ev_write_closed = False\<rparr> n"
  by (cases n) (simp_all add: reports_def check_readable_def check_writable_def)

lemma batch_brings:
  assumes inv: "world_inv w" and r: "receiving w n" and ev: "(notice_source n, ev) \<in> batch_of (net w)" "reports ev n"
  shows "\<exists>w'. world_step (WorldNet NetWake) w = Some w' \<and> world_step (Receives n) w' \<noteq> None"
proof -
  obtain evs where evs: "batch (net w) = Some evs" using ev by (auto simp: batch_of_def)
  obtain s where s: "net_step NetWake (net w) = Some s" using net_wake_ok [OF world_invD(1) [OF inv] evs] by blast
  have "n \<in> set (map snd (drop (length (notices (net w))) (notices s)))"
    using batch_delivered [OF world_invD(1,2) [OF inv] world_invD(3) [OF inv r] ev s] .
  then have "0 < count_list (map snd (drop (length (notices (net w))) (notices s))) n"
    using count_list_0_iff [of _ n] by (simp only: neq0_conv [symmetric]) blast
  then show ?thesis using r s by (simp add: notified_def notice_bound_def)
qed

lemma edge_brings:
  assumes inv: "world_inv w" and r: "receiving w n" and e: "edges w (notice_source n)"
    and b: "batch (net w) = None" and on: "\<not> net_stopped (net w)"
  shows "\<exists>x w1 w2. polling x \<and> world_step x w = Some w1 \<and> world_step (WorldNet NetWake) w1 = Some w2 \<and>
    world_step (Receives n) w2 \<noteq> None"
proof -
  let ?src = "notice_source n"
  obtain key where key: "polled (net w) ?src = Some key" using covers_polled [OF world_invD(3) [OF inv r]] by auto
  define ev where "ev = \<lparr>ev_token = key, ev_readable = True, ev_writable = True, ev_error = False,
    ev_read_closed = False, ev_write_closed = False\<rparr>"
  have rep: "reports ev m" for m unfolding ev_def by (rule full_event_reports)
  let ?x = "NetPoll [(Some ?src, ev)]"
  define w1 where "w1 = after_net ?x ((net w)\<lparr>batch := Some [(Some ?src, ev)]\<rparr>) w"
  have st: "world_step (WorldNet ?x) w = Some w1" using key e b on rep by (simp add: w1_def ev_def)
  have "world_inv w1" by (rule world_step_ok [OF inv st])
  moreover have "receiving w1 n" "(?src, ev) \<in> batch_of (net w1)" using r by (simp_all add: w1_def batch_of_def)
  ultimately obtain w2 where w2: "world_step (WorldNet NetWake) w1 = Some w2" "world_step (Receives n) w2 \<noteq> None"
    using batch_brings [OF _ _ _ rep [of n]] by blast
  have "polling (WorldNet ?x)" by simp
  then show ?thesis using st w2 by blast
qed

lemma way_brings:
  assumes inv: "world_inv w" and r: "receiving w n" and way: "on_its_way w n" and on: "\<not> net_stopping (net w)"
  shows "\<exists>xs w'. length xs \<le> 3 \<and> list_all polling xs \<and> run_steps world_step xs w = Some w' \<and> world_step (Receives n) w' \<noteq> None"
proof -
  consider "0 < queued w n" | ev where "(notice_source n, ev) \<in> batch_of (net w)" "reports ev n" | "edges w (notice_source n)"
    using way by (auto simp: on_its_way_def)
  then show ?thesis
  proof cases
    case 1
    then show ?thesis using r by (intro exI [of _ "[]"] exI [of _ w]) simp
  next
    case 2
    then obtain w' where w': "world_step (WorldNet NetWake) w = Some w'" "world_step (Receives n) w' \<noteq> None"
      using batch_brings [OF inv r] by blast
    then have "run_steps world_step [WorldNet NetWake] w = Some w'" by (simp del: world_step.simps)
    then show ?thesis using w'(2) by (intro exI [of _ "[WorldNet NetWake]"] exI [of _ w'] conjI) simp_all
  next
    case 3
    show ?thesis
    proof (cases "batch (net w) = None")
      case True
      then obtain x w1 w2 where x: "polling x" "world_step x w = Some w1" "world_step (WorldNet NetWake) w1 = Some w2"
          "world_step (Receives n) w2 \<noteq> None"
        using edge_brings [OF inv r 3] on by (auto simp: net_stopping_def simp del: world_step.simps)
      then have "run_steps world_step [x, WorldNet NetWake] w = Some w2" by (simp del: world_step.simps)
      then show ?thesis using x(1,4) by (intro exI [of _ "[x, WorldNet NetWake]"] exI [of _ w2] conjI) simp_all
    next
      case False
      obtain w0 where w0: "world_step (WorldNet NetWake) w = Some w0" "world_inv w0" "batch (net w0) = None" "edges w0 = edges w"
          "receiving w0 = receiving w" "\<not> net_stopped (net w0)"
        using wake_taken [OF inv False] on by metis
      then obtain x w1 w2 where x: "polling x" "world_step x w0 = Some w1" "world_step (WorldNet NetWake) w1 = Some w2"
          "world_step (Receives n) w2 \<noteq> None"
        using edge_brings [of w0 n] r 3 by auto
      then have "run_steps world_step [WorldNet NetWake, x, WorldNet NetWake] w = Some w2"
        using w0(1) by (simp del: world_step.simps)
      then show ?thesis using x(1,4) by (intro exI [of _ "[WorldNet NetWake, x, WorldNet NetWake]"] exI [of _ w2] conjI) simp_all
    qed
  qed
qed



end
