(* ===== verification/Io_Wait.thy ===== *)
theory Io_Wait
  imports Io_Correct Task
begin

text \<open>
  A file operation from its call to its return: \<open>request\<close> of \<open>io/poller/mod.rs\<close>, the waits of
  \<open>SessionJoint::join_value\<close> with a cancellation (\<open>task/session.rs\<close>), the abort of the task
  (\<open>task.rs\<close>), and the thread of the ring with the kernel. The buffer of the operation is on the
  stack of the caller, so the call must not return while the kernel may use it.
\<close>

section \<open>The waits of a join\<close>

text \<open>
  How the \<open>n\<close>-th wait of one \<open>join_value\<close> may be interrupted. Only a join without cancellation hands the
  session itself to the task.
\<close>

definition wait_interruption :: "bool \<Rightarrow> nat \<Rightarrow> unit interruption" where
  "wait_interruption cancellable n =
    (if n = 0 then (if cancellable then Cancellation else AsInterruptible ())
     else if \<not> cancellable then AsInterruptible () else AsUninterruptible)"

text \<open>\<open>block\<close> of the task: an abort wins the wait or leaves it alone.\<close>

definition abort_wins :: "unit interruption \<Rightarrow> bool" where
  "abort_wins i \<longleftrightarrow> point_interrupt (\<lambda>_. True) (block_point i)"

section \<open>A call\<close>

text \<open>The caller is in its \<open>n\<close>-th wait, or waits for its cancellation with a session of its own.\<close>

datatype caller = Before | InWait nat | InCancel nat | Back io_result

record call_sys =
  call_io :: io_sys
  caller :: caller

definition call_new :: call_sys where
  "call_new = \<lparr>call_io = io_sys_new, caller = Before\<rparr>"

text \<open>What the session \<open>w\<close> has been woken with, if it has.\<close>

definition answer_of :: "nat \<Rightarrow> io_sys \<Rightarrow> io_result option" where
  "answer_of w s = map_of (woken s) w"

text \<open>After a wait the status is looked at, whatever has ended the wait.\<close>

definition look :: "nat \<Rightarrow> nat \<Rightarrow> call_sys \<Rightarrow> call_sys" where
  "look w n s = s\<lparr>caller := (case answer_of w (call_io s) of Some res \<Rightarrow> Back res | None \<Rightarrow> InWait (Suc n))\<rparr>"

datatype call_op =
    CallStarts
  | CallRing io_op                 \<comment> \<open>other clients, the thread of the ring, the kernel\<close>
  | CallWakes                      \<comment> \<open>the coroutine runs again, perhaps for nothing\<close>
  | CallAborts nat bool            \<comment> \<open>the waker of the cancellation, and whether it can be sent\<close>

text \<open>
  A cancellation that is interrupted is not run again, and one that panics, as on a closed channel,
  is caught. \<open>None\<close>: the step is not there; a caller that is back has no more.
\<close>

fun call_step :: "nat \<Rightarrow> io_request \<Rightarrow> call_op \<Rightarrow> call_sys \<Rightarrow> call_sys option" where
  "call_step capacity r CallStarts s =
    (if caller s = Before
     then map_option (\<lambda>io. s\<lparr>call_io := io, caller := InWait 0\<rparr>) (io_step capacity (IoSend r) (call_io s)) else None)"
| "call_step capacity r (CallRing x) s =
    (case caller s of Back res \<Rightarrow> None | _ \<Rightarrow> map_option (\<lambda>io. s\<lparr>call_io := io\<rparr>) (io_step capacity x (call_io s)))"
| "call_step capacity r CallWakes s =
    (case caller s of
       InWait n \<Rightarrow> Some (look (rq_waker r) n s)
     | InCancel w \<Rightarrow> if answer_of w (call_io s) = None then Some s else Some (look (rq_waker r) 0 s)
     | _ \<Rightarrow> None)"
| "call_step capacity r (CallAborts w can) s =
    (case caller s of
       InWait n \<Rightarrow>
         if abort_wins (wait_interruption True n) then
           (case linux_cancel (op_code_of (rq_operation r)) (rq_waker r) of
              None \<Rightarrow> Some (look (rq_waker r) 0 s)
            | Some op \<Rightarrow>
              if can then
                map_option (\<lambda>io. s\<lparr>call_io := io, caller := InCancel w\<rparr>)
                  (io_step capacity (IoSend \<lparr>rq_waker = w, rq_operation = op\<rparr>) (call_io s))
              else Some (look (rq_waker r) 0 s))
         else Some s
     | InCancel _ \<Rightarrow> Some s
     | _ \<Rightarrow> None)"

text \<open>The address of a session is its own as long as it is waited on.\<close>

fun call_allowed :: "io_request \<Rightarrow> call_op \<Rightarrow> call_sys \<Rightarrow> bool" where
  "call_allowed r (CallRing (IoSend x)) s \<longleftrightarrow> rq_waker x \<noteq> rq_waker r \<and> io_allowed (IoSend x) (call_io s)"
| "call_allowed r (CallAborts w can) s \<longleftrightarrow> w \<noteq> rq_waker r \<and> w \<notin> io_live (call_io s)"
| "call_allowed r _ s \<longleftrightarrow> True"

fun call_allowed_run :: "nat \<Rightarrow> io_request \<Rightarrow> call_op list \<Rightarrow> call_sys \<Rightarrow> bool" where
  "call_allowed_run capacity r [] s \<longleftrightarrow> True"
| "call_allowed_run capacity r (x # xs) s \<longleftrightarrow> call_allowed r x s \<and>
    (case call_step capacity r x s of None \<Rightarrow> True | Some s' \<Rightarrow> call_allowed_run capacity r xs s')"

section \<open>The buffer\<close>

definition call_inv :: "io_request \<Rightarrow> call_sys \<Rightarrow> bool" where
  "call_inv r s \<longleftrightarrow> io_inv (call_io s) \<and>
    (case caller s of
       Before \<Rightarrow> count_list (sent (call_io s)) (rq_waker r) = 0
     | Back res \<Rightarrow> rq_waker r \<notin> io_live (call_io s) \<and> (rq_waker r, res) \<in> set (woken (call_io s))
     | _ \<Rightarrow> count_list (sent (call_io s)) (rq_waker r) = 1)"

lemma sent_by_others:
  "io_step capacity x s = Some s' \<Longrightarrow> (case x of IoSend q \<Rightarrow> rq_waker q \<noteq> w | _ \<Rightarrow> True) \<Longrightarrow>
    count_list (sent s') w = count_list (sent s) w"
proof (cases x)
  case (IoServe inline)
  assume "io_step capacity x s = Some s'"
  then show ?thesis using IoServe complete_all_fields
    by (auto simp: io_submit_def io_consume_def split: list.splits option.splits if_splits)
next
  case (IoComplete ud res)
  assume "io_step capacity x s = Some s'"
  then show ?thesis using IoComplete complete_all_fields [of "[(ud, res)]" s] by auto
qed (auto simp: io_consume_def)

lemma not_live:
  assumes inv: "io_inv s" and one: "count_list (sent s) w = 1" and ans: "answer_of w s = Some res"
  shows "w \<notin> io_live s \<and> (w, res) \<in> set (woken s)"
proof -
  have "(w, res) \<in> set (woken s)" using ans by (simp add: answer_of_def map_of_SomeD)
  then have "w \<in> set (map fst (woken s))" by force
  then have "0 < count_list (map fst (woken s)) w" using count_list_0_iff [of _ w] by (simp only: neq0_conv [symmetric]) blast
  moreover have "count_list (map fst (woken s)) w + of_bool (w \<in> io_live s) = 1" using inv one by (simp add: io_inv_def)
  ultimately show ?thesis using \<open>(w, res) \<in> set (woken s)\<close> by auto
qed

lemma look_ok:
  assumes inv: "io_inv (call_io s)" and one: "count_list (sent (call_io s)) (rq_waker r) = 1"
  shows "call_inv r (look (rq_waker r) n s)"
  using inv one not_live [OF inv one] by (auto simp: call_inv_def look_def split: option.split)

lemma call_step_inv:
  assumes inv: "call_inv r s" and cap: "0 < capacity" and r: "linux_route (rq_operation r) = ToUring"
    and al: "call_allowed r x s" and st: "call_step capacity r x s = Some s'"
  shows "call_inv r s'"
proof -
  have io: "io_inv (call_io s)" using inv by (simp add: call_inv_def)
  have sends: "\<exists>s1. io_step capacity y (call_io s) = Some s1 \<and> io_inv s1" if "io_allowed y (call_io s)" for y
    by (rule io_step_ok [OF io cap that])
  show ?thesis
  proof (cases x)
    case CallStarts
    then have b: "caller s = Before" "count_list (sent (call_io s)) (rq_waker r) = 0"
      using st inv by (auto simp: call_inv_def split: if_splits)
    have "count_list (map fst (woken (call_io s))) (rq_waker r) + of_bool (rq_waker r \<in> io_live (call_io s)) = 0"
      using io b(2) by (simp add: io_inv_def)
    then have "io_allowed (IoSend r) (call_io s)" using r by simp
    then show ?thesis using sends [of "IoSend r"] st CallStarts b by (auto simp: call_inv_def)
  next
    case (CallRing y)
    have ok: "io_allowed y (call_io s)" using al CallRing by (cases y) auto
    then obtain s1 where s1: "io_step capacity y (call_io s) = Some s1" "io_inv s1" using sends by blast
    have "count_list (sent s1) (rq_waker r) = count_list (sent (call_io s)) (rq_waker r)"
      using al CallRing by (intro sent_by_others [OF s1(1)]) (cases y; simp)
    then show ?thesis using st CallRing s1 inv by (auto simp: call_inv_def split: caller.splits)
  next
    case CallWakes
    then consider n where "s' = look (rq_waker r) n s" "count_list (sent (call_io s)) (rq_waker r) = 1" | "s' = s"
      using st inv by (auto simp: call_inv_def split: caller.splits if_splits)
    then show ?thesis by cases (use inv look_ok [OF io] in simp_all)
  next
    case (CallAborts w ok)
    note look = look_ok [OF io, of r 0]
    show ?thesis
    proof (cases "caller s")
      case (InWait n)
      have one: "count_list (sent (call_io s)) (rq_waker r) = 1" using inv InWait by (simp add: call_inv_def)
      show ?thesis
      proof (cases "abort_wins (wait_interruption True n) \<and> ok \<and> linux_cancel (op_code_of (rq_operation r)) (rq_waker r) \<noteq> None")
        case True
        then obtain op where op: "linux_cancel (op_code_of (rq_operation r)) (rq_waker r) = Some op" by auto
        let ?q = "\<lparr>rq_waker = w, rq_operation = op\<rparr>"
        have "linux_route op = ToUring" using op by (auto simp: linux_cancel_def linux_route_def split: if_splits)
        then have "io_allowed (IoSend ?q) (call_io s)" using al CallAborts by simp
        then obtain s1 where s1: "io_step capacity (IoSend ?q) (call_io s) = Some s1" "io_inv s1" using sends by blast
        have "count_list (sent s1) (rq_waker r) = count_list (sent (call_io s)) (rq_waker r)"
          using al CallAborts by (intro sent_by_others [OF s1(1)]) simp
        then show ?thesis using st CallAborts InWait True op s1 one by (auto simp: call_inv_def)
      next
        case False
        then have "s' = look (rq_waker r) 0 s \<or> s' = s"
          using st CallAborts InWait by (auto split: if_splits option.splits)
        then show ?thesis using look [OF one] inv by blast
      qed
    qed (use st CallAborts inv in auto)
  qed
qed

lemma call_run_inv:
  "run_steps (call_step capacity r) xs s = Some s' \<Longrightarrow> call_inv r s \<Longrightarrow> 0 < capacity \<Longrightarrow> linux_route (rq_operation r) = ToUring \<Longrightarrow>
    call_allowed_run capacity r xs s \<Longrightarrow> call_inv r s'"
  by (induction xs arbitrary: s) (auto split: option.splits intro: call_step_inv simp del: call_step.simps call_allowed.simps)

text \<open>
  C40. A file operation does not return while the kernel may use its buffer. However its task is aborted
  or its coroutine is woken for nothing, before or while its cancellation is under way, and
  whether that can be sent or not: when the call returns, it does so with what the thread of the ring has
  woken it with, and its request is neither in the channel, nor about to be submitted, nor with the
  kernel. Whoever waits gets that result at the next wake once it is there, and after the first
  wait no abort interrupts the wait again.
\<close>

theorem buffer_free_on_return:
  assumes "0 < capacity" and "linux_route (rq_operation r) = ToUring"
    and "call_allowed_run capacity r xs call_new" and "run_steps (call_step capacity r) xs call_new = Some s"
  shows "(case caller s of
      Back res \<Rightarrow> (rq_waker r, res) \<in> set (woken (call_io s)) \<and> rq_waker r \<notin> set (wakers (rq_chan (call_io s))) \<and>
        rq_waker r \<notin> set (user_datas (entries (uring (call_io s)))) \<and> rq_waker r \<notin> set (in_kernel (call_io s))
    | InWait n \<Rightarrow> (case answer_of (rq_waker r) (call_io s) of
        None \<Rightarrow> True
      | Some res \<Rightarrow> map_option caller (call_step capacity r CallWakes s) = Some (Back res)) \<and>
        (n = 0 \<or> call_step capacity r (CallAborts w can) s = Some s)
    | _ \<Rightarrow> True)"
proof -
  have "call_inv r call_new" by (simp add: call_inv_def call_new_def io_inv_new) (simp add: io_sys_new_def)
  then have inv: "call_inv r s" by (rule call_run_inv [OF assms(4) _ assms(1,2,3)])
  show ?thesis
  proof (cases "caller s")
    case (Back res)
    then show ?thesis using inv by (simp add: call_inv_def io_live_def ring_live_def)
  next
    case (InWait n)
    have "\<not> abort_wins (wait_interruption True n)" if "n \<noteq> 0" using that by (simp add: abort_wins_def wait_interruption_def)
    then show ?thesis using InWait by (auto simp: look_def split: option.split)
  qed simp_all
qed

text \<open>A read is with the kernel when the task is aborted; its cancellation arrives, then its completion.\<close>

lemma buffer_free_on_return_witness:
  "\<exists>s. run_steps (call_step 8 \<lparr>rq_waker = 16, rq_operation = OpRead 3 4096 512 0\<rparr>)
      [CallStarts, CallRing (IoServe []), CallAborts 32 True, CallAborts 48 True, CallRing (IoServe []), CallRing (IoComplete 32 0),
       CallRing (IoComplete 16 (- 125)), CallRing IoReadable, CallWakes] call_new = Some s \<and>
    caller s = Back (Inl ECANCELED) \<and> 16 \<notin> set (in_kernel (call_io s))"
proof -
  let ?r = "\<lparr>rq_waker = 16, rq_operation = OpRead 3 4096 512 0\<rparr>"
  let ?xs = "[CallStarts, CallRing (IoServe []), CallAborts 32 True, CallAborts 48 True, CallRing (IoServe []), CallRing (IoComplete 32 0),
       CallRing (IoComplete 16 (- 125)), CallRing IoReadable, CallWakes]"
  note defs = call_new_def io_sys_new_def uring_state_new_def io_submit_def uring_push_def uring_enqueue_def uring_entry_def
    io_consume_def answer_of_def look_def abort_wins_def wait_interruption_def linux_cancel_def remove_at_def completion_result_def
  have al: "call_allowed_run 8 ?r ?xs call_new" by (simp add: defs io_live_def ring_live_def)
  have "map_option caller (run_steps (call_step 8 ?r) ?xs call_new) = Some (Back (Inl ECANCELED))"
    by (simp add: defs ECANCELED_def)
  then obtain s where s: "run_steps (call_step 8 ?r) ?xs call_new = Some s" "caller s = Back (Inl ECANCELED)" by auto
  have "0 < (8 :: nat)" "linux_route (rq_operation ?r) = ToUring" by (simp_all add: linux_route_def)
  from buffer_free_on_return [OF this al s(1)] s show ?thesis by simp
qed

end
